(* ===== verification/Prelude.thy ===== *)
theory Prelude
  imports
    Main
    "HOL-Library.Word"
    "HOL-Library.Multiset"
    "HOL-Library.AList"
begin

text \<open>
  Shared vocabulary of the development: the machine integers of the code, the results of
  operations that can fail, panic or wait, a small state-and-error sequencing operator with a
  rule for \<open>for\<close> loops, the containers the code uses (\<open>BTreeMap\<close> as a sorted association
  list, \<open>HashMap\<close> and \<open>IndexMap\<close> as association lists in insertion order), and the facts on
  lists that the components share.
\<close>

section \<open>Machine integers\<close>

type_synonym u32 = "32 word"
type_synonym u64 = "64 word"

text \<open>
  \<open>u64::saturating_sub\<close>. Plain \<open>+\<close> and \<open>-\<close> on words wrap, which is what the code computes in
  Cargo's release profile (the manifest does not turn overflow checks on there).
\<close>

definition saturating_sub :: "'a::len word \<Rightarrow> 'a word \<Rightarrow> 'a word" where
  "saturating_sub a b = (if a < b then 0 else a - b)"

text \<open>\<open>u32::checked_add\<close>: \<open>None\<close> when the sum does not fit.\<close>

definition checked_add :: "'a::len word \<Rightarrow> 'a word \<Rightarrow> 'a word option" where
  "checked_add a b = (if unat a + unat b < 2 ^ LENGTH('a) then Some (a + b) else None)"

lemma unat_saturating_sub [simp]: "unat (saturating_sub a b) = unat a - unat b"
  by (auto simp: saturating_sub_def word_less_nat_alt unat_sub word_le_nat_alt)

lemma saturating_sub_eq_0_iff: "saturating_sub a b = 0 \<longleftrightarrow> a \<le> b"
  by (auto simp: saturating_sub_def)

lemma checked_add_code [code]:
  "checked_add a b = (let s = a + b in if s < a then None else Some s)"
  by (simp add: checked_add_def Let_def no_olen_add_nat [symmetric] not_less)

lemma checked_add_one: "checked_add a 1 = (if a = -1 then None else Some (a + 1))"
proof (cases "a = -1")
  case True
  have "unat (-1 :: 'a word) + unat (1 :: 'a word) = 2 ^ LENGTH('a)"
    by (simp add: unsigned_minus_1_eq_mask mask_eq_exp_minus_1)
  with True show ?thesis by (simp add: checked_add_def)
next
  case False
  have "unat a < unat (-1 :: 'a word)"
    using False by (metis word_order.extremum word_less_nat_alt order_less_le)
  then have "unat a + 1 < 2 ^ LENGTH('a)"
    using unsigned_less [of "-1 :: 'a word", where ?'a = nat] by linarith
  with False show ?thesis by (simp add: checked_add_def)
qed

lemma unat_plus_one: "a \<noteq> -1 \<Longrightarrow> unat (a + 1) = Suc (unat a)" for a :: "'a::len word"
  by (metis add.commute eq_neg_iff_add_eq_0 unatSuc)

lemma unat_max_32: "unat (-1 :: u32) = 4294967295"
  by (simp add: unsigned_minus_1_eq_mask mask_eq_exp_minus_1)

lemma unat_of_nat_32: "m < 4294967296 \<Longrightarrow> unat (of_nat m :: u32) = m"
  by (simp add: unsigned_of_nat take_bit_nat_eq_self)

lemma unat_less_32: "unat (a :: u32) < 4294967296"
  using unsigned_less [of a, where ?'a = nat] by simp

section \<open>Three-way comparison\<close>

text \<open>\<open>std::cmp::Ordering\<close> and \<open>Ord::cmp\<close> on the primitive integers.\<close>

datatype ordering = Less | Equal | Greater

definition cmp :: "'a::linorder \<Rightarrow> 'a \<Rightarrow> ordering" where
  "cmp a b = (if a < b then Less else if a = b then Equal else Greater)"

lemma cmp_simps [simp]:
  "cmp a b = Less \<longleftrightarrow> a < b"
  "cmp a b = Equal \<longleftrightarrow> a = b"
  "cmp a b = Greater \<longleftrightarrow> b < a"
  by (auto simp: cmp_def)

section \<open>Results\<close>

text \<open>
  An operation ends in a value (\<open>Inr\<close>) or stops early (\<open>Inl\<close>): with an error the code returns,
  with a panic of the thread, or in an \<open>await\<close> that nothing completes.
\<close>

datatype 'e fault = Raise 'e | Panic | Blocked

text \<open>
  An operation on a state, with the state it leaves behind also when it fails: Rust code that
  returns an error early keeps the mutations made so far.
\<close>

type_synonym ('st, 'e, 'a) act = "'st \<Rightarrow> ('e + 'a) \<times> 'st"

definition ret :: "'a \<Rightarrow> ('st, 'e, 'a) act" where
  "ret x = (\<lambda>s. (Inr x, s))"

definition stop :: "'e \<Rightarrow> ('st, 'e, 'a) act" where
  "stop e = (\<lambda>s. (Inl e, s))"

definition bind :: "('st, 'e, 'a) act \<Rightarrow> ('a \<Rightarrow> ('st, 'e, 'b) act) \<Rightarrow> ('st, 'e, 'b) act" where
  "bind m f = (\<lambda>s. case m s of (Inl e, s') \<Rightarrow> (Inl e, s') | (Inr x, s') \<Rightarrow> f x s')"

text \<open>A \<open>for\<close> loop over a list of indices or items, with an accumulator.\<close>

fun for_loop :: "('i \<Rightarrow> 'b \<Rightarrow> ('st, 'e, 'b) act) \<Rightarrow> 'i list \<Rightarrow> 'b \<Rightarrow> ('st, 'e, 'b) act" where
  "for_loop f [] b = ret b"
| "for_loop f (i # is) b = bind (f i b) (for_loop f is)"

lemma ret_apply [simp]: "ret x s = (Inr x, s)"
  by (simp add: ret_def)

lemma stop_apply [simp]: "stop e s = (Inl e, s)"
  by (simp add: stop_def)

lemma bind_apply:
  "bind m f s = (case m s of (Inl e, s') \<Rightarrow> (Inl e, s') | (Inr x, s') \<Rightarrow> f x s')"
  by (simp add: bind_def)

lemma bind_Inr_iff:
  "bind m f s = (Inr y, t) \<longleftrightarrow> (\<exists>x s'. m s = (Inr x, s') \<and> f x s' = (Inr y, t))"
  by (auto simp: bind_apply split: prod.splits sum.splits)

lemma bind_simps [simp]:
  "m s = (Inr x, s') \<Longrightarrow> bind m f s = f x s'"
  "m s = (Inl e, s') \<Longrightarrow> bind m f s = (Inl e, s')"
  by (simp_all add: bind_apply)

lemma for_loop_append:
  "for_loop f (xs @ ys) b = bind (for_loop f xs b) (for_loop f ys)"
  by (induction xs arbitrary: b) (auto simp: bind_def ret_def fun_eq_iff split: prod.splits sum.splits)

subsection \<open>Weakest preconditions\<close>

text \<open>
  \<open>wp m Q E s\<close>: run from \<open>s\<close>, the operation \<open>m\<close> ends in a value and a state with \<open>Q\<close>, or stops
  early in a state with \<open>E\<close>. The equations compute it through the sequencing operators.
\<close>

named_theorems wp_simps

definition wp ::
  "('st, 'e, 'a) act \<Rightarrow> ('a \<Rightarrow> 'st \<Rightarrow> bool) \<Rightarrow> ('e \<Rightarrow> 'st \<Rightarrow> bool) \<Rightarrow> 'st \<Rightarrow> bool" where
  "wp m Q E s = (case m s of (Inl e, s') \<Rightarrow> E e s' | (Inr x, s') \<Rightarrow> Q x s')"

lemma wp_InrD: "wp m Q E s \<Longrightarrow> m s = (Inr x, s') \<Longrightarrow> Q x s'"
  and wp_InlD: "wp m Q E s \<Longrightarrow> m s = (Inl e, s') \<Longrightarrow> E e s'"
  by (simp_all add: wp_def)

lemma wp_I:
  assumes "\<And>x s'. m s = (Inr x, s') \<Longrightarrow> Q x s'" and "\<And>e s'. m s = (Inl e, s') \<Longrightarrow> E e s'"
  shows "wp m Q E s"
  using assms by (auto simp: wp_def split: prod.splits sum.splits)

lemma wp_total: "wp m Q (\<lambda>_ _. False) s \<Longrightarrow> \<exists>x s'. m s = (Inr x, s') \<and> Q x s'"
  by (auto simp: wp_def split: prod.splits sum.splits)

lemma wp_mono:
  assumes "wp m Q E s" and "\<And>x s. Q x s \<Longrightarrow> Q' x s" and "\<And>e s. E e s \<Longrightarrow> E' e s"
  shows "wp m Q' E' s"
  using assms by (auto simp: wp_def split: prod.splits sum.splits)

lemma wp_conj:
  assumes "wp m Q E s" and "wp m Q' E' s"
  shows "wp m (\<lambda>x s. Q x s \<and> Q' x s) (\<lambda>e s. E e s \<and> E' e s) s"
  using assms by (auto simp: wp_def split: prod.splits sum.splits)

lemma wp_ret [wp_simps]: "wp (ret x) Q E = Q x"
  by (simp add: wp_def fun_eq_iff)

lemma wp_stop [wp_simps]: "wp (stop e) Q E = E e"
  by (simp add: wp_def fun_eq_iff)

lemma wp_bind [wp_simps]: "wp (bind m f) Q E = wp m (\<lambda>x. wp (f x) Q E) E"
  by (auto simp: wp_def bind_apply fun_eq_iff split: prod.splits sum.splits)

lemma wp_if [wp_simps]:
  "wp (if b then m else m') Q E = (if b then wp m Q E else wp m' Q E)"
  by simp

text \<open>
  Invariant of a \<open>for\<close> loop: \<open>I pre b s\<close> speaks of the items \<open>pre\<close> already processed, the
  accumulator and the state.
\<close>

lemma wp_for_loop:
  assumes "I [] b s"
    and "\<And>pre i post b s. is = pre @ i # post \<Longrightarrow> I pre b s \<Longrightarrow> wp (f i b) (I (pre @ [i])) E s"
    and "\<And>b s. I is b s \<Longrightarrow> Q b s"
  shows "wp (for_loop f is b) Q E s"
proof -
  have "wp (for_loop f is b) (I is) E s"
    using assms(1,2)
  proof (induction "is" rule: rev_induct)
    case Nil
    then show ?case by (simp add: wp_def)
  next
    case (snoc i "is")
    have "wp (for_loop f is b) (I is) E s"
      by (rule snoc.IH [OF snoc.prems(1)]) (rule snoc.prems(2), auto)
    then have "wp (for_loop f is b) (\<lambda>b. wp (f i b) (I (is @ [i])) E) E s"
      by (rule wp_mono) (rule snoc.prems(2) [of "is" i "[]"], auto)
    moreover have "for_loop f (is @ [i]) b = bind (for_loop f is b) (f i)"
      by (auto simp: for_loop_append bind_def fun_eq_iff split: prod.splits sum.splits)
    ultimately show ?case by (simp only: wp_bind)
  qed
  then show ?thesis by (rule wp_mono) (auto intro: assms(3))
qed

text \<open>An invariant that does not look at the progress of the loop.\<close>

lemma wp_for_loop_inv:
  assumes "I b s" and "\<And>i b s. i \<in> set is \<Longrightarrow> I b s \<Longrightarrow> wp (f i b) I E s"
  shows "wp (for_loop f is b) I E s"
  by (rule wp_for_loop [where I = "\<lambda>_. I"]) (auto intro: assms)

end
