(* ===== verification/Containers.thy ===== *)
theory Containers
  imports Prelude
begin

text \<open>
  The containers the code keeps its state in. \<open>BTreeMap\<close> is an association list sorted strictly
  by key, which is the order its iterators follow. \<open>IndexMap\<close> and \<open>HashMap\<close> are association
  lists with distinct keys; inserting replaces the value in place or appends, as \<open>IndexMap\<close>
  does. The order of a \<open>HashMap\<close> means nothing, and the results the development states about
  one are stated on its lookups or up to permutation.
\<close>

section \<open>BTreeMap\<close>

type_synonym ('k, 'v) btree_map = "('k \<times> 'v) list"

definition bt_wf :: "('k::linorder, 'v) btree_map \<Rightarrow> bool" where
  "bt_wf m \<longleftrightarrow> sorted_wrt (<) (map fst m)"

fun bt_insert :: "'k::linorder \<Rightarrow> 'v \<Rightarrow> ('k, 'v) btree_map \<Rightarrow> ('k, 'v) btree_map" where
  "bt_insert k v [] = [(k, v)]"
| "bt_insert k v ((k', v') # m) =
     (if k < k' then (k, v) # (k', v') # m
      else if k = k' then (k, v) # m
      else (k', v') # bt_insert k v m)"

definition bt_remove :: "'k \<Rightarrow> ('k, 'v) btree_map \<Rightarrow> ('k, 'v) btree_map" where
  "bt_remove k m = filter (\<lambda>(k', _). k' \<noteq> k) m"

text \<open>\<open>range(k..)\<close>: the entries from key \<open>k\<close> on, in order.\<close>

definition bt_range_from :: "'k::linorder \<Rightarrow> ('k, 'v) btree_map \<Rightarrow> ('k \<times> 'v) list" where
  "bt_range_from k m = filter (\<lambda>(k', _). k \<le> k') m"

lemma bt_wf_Nil [simp]: "bt_wf []"
  by (simp add: bt_wf_def)

lemma bt_wf_Cons [simp]:
  "bt_wf ((k, v) # m) \<longleftrightarrow> (\<forall>k' \<in> fst ` set m. k < k') \<and> bt_wf m"
  by (simp add: bt_wf_def)

lemma bt_wf_distinct: "bt_wf m \<Longrightarrow> distinct (map fst m)"
  by (simp add: bt_wf_def strict_sorted_iff)

lemma keys_bt_insert [simp]: "fst ` set (bt_insert k v m) = insert k (fst ` set m)"
  by (induction k v m rule: bt_insert.induct) auto

lemma bt_wf_insert [simp]: "bt_wf m \<Longrightarrow> bt_wf (bt_insert k v m)"
  by (induction k v m rule: bt_insert.induct) auto

lemma map_of_bt_insert [simp]: "map_of (bt_insert k v m) = (map_of m)(k \<mapsto> v)"
  by (induction k v m rule: bt_insert.induct) (auto simp: fun_eq_iff)

lemma bt_wf_remove [simp]: "bt_wf m \<Longrightarrow> bt_wf (bt_remove k m)"
  by (induction m) (auto simp: bt_remove_def)

lemma map_of_bt_remove [simp]: "map_of (bt_remove k m) = (map_of m)(k := None)"
  by (induction m) (auto simp: bt_remove_def fun_eq_iff)

lemma bt_range_from_nonempty_iff:
  "bt_range_from k m \<noteq> [] \<longleftrightarrow> (\<exists>k' \<in> fst ` set m. k \<le> k')"
  by (force simp: bt_range_from_def filter_empty_conv)

section \<open>HashMap\<close>

type_synonym ('k, 'v) hash_map = "('k \<times> 'v) list"

text \<open>\<open>HashMap::insert\<close>, \<open>extend\<close>, and the equality of two maps: as many entries, and each entry of
  the left one found in the right one.\<close>

abbreviation hm_insert :: "'k \<Rightarrow> 'v \<Rightarrow> ('k, 'v) hash_map \<Rightarrow> ('k, 'v) hash_map" where
  "hm_insert \<equiv> AList.update"

definition hm_extend :: "('k, 'v) hash_map \<Rightarrow> ('k \<times> 'v) list \<Rightarrow> ('k, 'v) hash_map" where
  "hm_extend m kvs = fold (\<lambda>(k, v). hm_insert k v) kvs m"

definition hm_contains_key :: "('k, 'v) hash_map \<Rightarrow> 'k \<Rightarrow> bool" where
  "hm_contains_key m k \<longleftrightarrow> map_of m k \<noteq> None"

definition hm_retain :: "('k \<Rightarrow> bool) \<Rightarrow> ('k, 'v) hash_map \<Rightarrow> ('k, 'v) hash_map" where
  "hm_retain p m = filter (\<lambda>(k, _). p k) m"

definition hm_eq :: "('k, 'v) hash_map \<Rightarrow> ('k, 'v) hash_map \<Rightarrow> bool" where
  "hm_eq m n \<longleftrightarrow> length m = length n \<and> list_all (\<lambda>(k, v). map_of n k = Some v) m"

abbreviation hm_wf :: "('k, 'v) hash_map \<Rightarrow> bool" where
  "hm_wf m \<equiv> distinct (map fst m)"

lemma hm_contains_key_iff: "hm_contains_key m k \<longleftrightarrow> k \<in> fst ` set m"
  by (auto simp: hm_contains_key_def map_of_eq_None_iff)

lemma hm_wf_insert [simp]: "hm_wf m \<Longrightarrow> hm_wf (hm_insert k v m)"
  by (rule distinct_update)

lemma hm_wf_extend [simp]: "hm_wf m \<Longrightarrow> hm_wf (hm_extend m kvs)"
  by (induction kvs arbitrary: m) (auto simp: hm_extend_def)

lemma map_of_hm_extend: "map_of (hm_extend m kvs) = map_of m ++ map_of (rev kvs)"
  by (induction kvs arbitrary: m)
    (auto simp: hm_extend_def update_conv' map_add_def fun_eq_iff split: option.splits)

lemma hm_wf_retain [simp]: "hm_wf m \<Longrightarrow> hm_wf (hm_retain p m)"
  by (induction m) (auto simp: hm_retain_def)

lemma map_of_hm_retain: "map_of (hm_retain p m) k = (if p k then map_of m k else None)"
  by (induction m) (auto simp: hm_retain_def)

lemma hm_eq_iff:
  assumes "hm_wf m" and "hm_wf n"
  shows "hm_eq m n \<longleftrightarrow> map_of m = map_of n"
proof
  assume eq: "hm_eq m n"
  have sub: "map_of m k = Some v \<Longrightarrow> map_of n k = Some v" for k v
    using eq by (auto simp: hm_eq_def list_all_iff dest: map_of_SomeD)
  have "fst ` set m \<subseteq> fst ` set n"
    using sub assms by (metis domIff dom_map_of_conv_image_fst not_None_eq subsetI)
  moreover have "card (fst ` set m) = card (fst ` set n)"
    using eq assms by (metis distinct_card hm_eq_def image_set length_map)
  ultimately have "fst ` set m = fst ` set n"
    by (simp add: card_subset_eq)
  then show "map_of m = map_of n"
    using sub by (intro ext) (metis map_of_eq_None_iff not_None_eq)
next
  assume eq: "map_of m = map_of n"
  then have "fst ` set m = fst ` set n" by (metis dom_map_of_conv_image_fst)
  then have "length m = length n"
    using assms by (metis distinct_card image_set length_map)
  moreover have "list_all (\<lambda>(k, v). map_of n k = Some v) m"
    using eq assms(1) by (metis (mono_tags, lifting) case_prodI2 list.pred_set map_of_is_SomeI)
  ultimately show "hm_eq m n" by (simp add: hm_eq_def)
qed

lemma keys_hm_extend: "fst ` set (hm_extend m kvs) = fst ` set m \<union> fst ` set kvs"
proof -
  have "dom (map_of (hm_extend m kvs)) = dom (map_of m) \<union> dom (map_of (rev kvs))"
    by (auto simp: map_of_hm_extend)
  then show ?thesis by (simp add: dom_map_of_conv_image_fst)
qed

lemma keys_hm_retain: "fst ` set (hm_retain p m) = {k \<in> fst ` set m. p k}"
  by (force simp: hm_retain_def)

section \<open>IndexMap\<close>

type_synonym ('k, 'v) index_map = "('k \<times> 'v) list"

text \<open>\<open>insert\<close> keeps the position of a key that is present and appends a new one.\<close>

abbreviation im_insert :: "'k \<Rightarrow> 'v \<Rightarrow> ('k, 'v) index_map \<Rightarrow> ('k, 'v) index_map" where
  "im_insert \<equiv> AList.update"

definition im_get_index :: "('k, 'v) index_map \<Rightarrow> nat \<Rightarrow> ('k \<times> 'v) option" where
  "im_get_index m i = (if i < length m then Some (m ! i) else None)"

definition im_shift_remove_index ::
  "nat \<Rightarrow> ('k, 'v) index_map \<Rightarrow> (('k \<times> 'v) \<times> ('k, 'v) index_map) option" where
  "im_shift_remove_index i m =
     (if i < length m then Some (m ! i, take i m @ drop (Suc i) m) else None)"

fun im_index_of :: "'k \<Rightarrow> ('k, 'v) index_map \<Rightarrow> nat option" where
  "im_index_of k [] = None"
| "im_index_of k ((k', _) # m) = (if k' = k then Some 0 else map_option Suc (im_index_of k m))"

text \<open>\<open>remove\<close> of indexmap 1: the last entry takes the place of the removed one.\<close>

definition im_remove :: "'k \<Rightarrow> ('k, 'v) index_map \<Rightarrow> ('k, 'v) index_map" where
  "im_remove k m =
     (case im_index_of k m of
        None \<Rightarrow> m
      | Some i \<Rightarrow> if Suc i = length m then butlast m else (butlast m)[i := last m])"

lemma im_index_of_Some: "im_index_of k m = Some i \<Longrightarrow> i < length m \<and> fst (m ! i) = k"
  by (induction k m arbitrary: i rule: im_index_of.induct) (auto split: if_splits)

lemma im_index_of_None_iff: "im_index_of k m = None \<longleftrightarrow> k \<notin> fst ` set m"
  by (induction k m rule: im_index_of.induct) auto

lemma im_index_of_nth: "hm_wf m \<Longrightarrow> i < length m \<Longrightarrow> im_index_of (fst (m ! i)) m = Some i"
proof (induction m arbitrary: i)
  case Nil
  then show ?case by simp
next
  case (Cons kv m)
  then show ?case by (cases kv; cases i) auto
qed

lemma length_im_remove:
  "k \<in> fst ` set m \<Longrightarrow> length (im_remove k m) = length m - 1"
  by (auto simp: im_remove_def im_index_of_None_iff split: option.splits
      dest: im_index_of_Some)

lemma im_remove_append:
  assumes "hm_wf (xs @ (k, v) # ys)"
  shows "im_remove k (xs @ (k, v) # ys) = xs @ (if ys = [] then [] else last ys # butlast ys)"
proof -
  have "im_index_of k (xs @ (k, v) # ys) = Some (length xs)"
    using im_index_of_nth [OF assms, of "length xs"] by simp
  then show ?thesis
    by (simp add: im_remove_def butlast_append list_update_append)
qed

lemma hm_wf_mset: "mset m = mset n \<Longrightarrow> hm_wf m \<longleftrightarrow> hm_wf n"
  by (metis mset_eq_imp_distinct_iff mset_map)

lemma update_append_new: "k \<notin> fst ` set m \<Longrightarrow> AList.update k v m = m @ [(k, v)]"
  by (induction m) auto

lemma mset_last_butlast: "ys \<noteq> [] \<Longrightarrow> add_mset (last ys) (mset (butlast ys)) = mset ys"
  by (induction ys) auto

lemma length_im_remove_less: "k \<in> fst ` set m \<Longrightarrow> length (im_remove k m) < length m"
  by (cases m) (auto simp: length_im_remove)

lemma mset_take_drop_remove:
  assumes "i < length m"
  shows "mset m = add_mset (m ! i) (mset (take i m @ drop (Suc i) m))"
proof -
  have "mset m = mset (take i m @ m ! i # drop (Suc i) m)"
    using assms by (simp add: id_take_nth_drop [symmetric])
  then show ?thesis by simp
qed

lemma mset_im_shift_remove_index:
  "im_shift_remove_index i m = Some (kv, m') \<Longrightarrow> mset m = add_mset kv (mset m')"
  using mset_take_drop_remove [of i m]
  by (auto simp: im_shift_remove_index_def split: if_splits)

lemma hm_wf_shift_remove_index:
  assumes "im_shift_remove_index i m = Some ((k, v), m')" and "hm_wf m"
  shows "hm_wf m'" and "k \<notin> fst ` set m'" and "fst ` set m = insert k (fst ` set m')"
proof -
  have "mset (map fst m) = mset (k # map fst m')"
    using mset_im_shift_remove_index [OF assms(1)] by (simp add: image_mset_union)
  then have d: "distinct (k # map fst m')" and s: "set (map fst m) = set (k # map fst m')"
    using assms(2) by (metis mset_eq_imp_distinct_iff, metis mset_eq_setD)
  from d show "hm_wf m'" and "k \<notin> fst ` set m'" by auto
  from s show "fst ` set m = insert k (fst ` set m')" by auto
qed

section \<open>Iterators of results\<close>

text \<open>\<open>collect::<Result<_, _>>()\<close>: the first error, or all the values.\<close>

fun collect_results :: "('e + 'a) list \<Rightarrow> 'e + 'a list" where
  "collect_results [] = Inr []"
| "collect_results (Inl e # xs) = Inl e"
| "collect_results (Inr x # xs) =
     (case collect_results xs of Inl e \<Rightarrow> Inl e | Inr ys \<Rightarrow> Inr (x # ys))"

lemma collect_results_Inr [simp]: "collect_results (map (\<lambda>x. Inr (f x)) xs) = Inr (map f xs)"
  by (induction xs) auto

lemma collect_results_Inr_iff:
  "collect_results xs = Inr ys \<longleftrightarrow> xs = map Inr ys"
proof (induction xs arbitrary: ys)
  case (Cons x xs)
  then show ?case by (cases x; cases ys) (auto split: sum.splits)
qed auto

end
