(* ===== verification/Strings.thy ===== *)
theory Strings
  imports Prelude
begin

text \<open>
  The string operations of the standard library the code formats and parses with: decimal
  printing, the decimal fraction an amount prints as, \<open>trim_start_matches\<close>, and the readings
  that undo them.
\<close>

section \<open>Decimal digits\<close>

definition digit_char :: "nat \<Rightarrow> char" where
  "digit_char d = char_of (48 + d mod 10)"

definition digit_val :: "char \<Rightarrow> nat" where
  "digit_val c = of_char c - 48"

text \<open>\<open>Display\<close> of an unsigned integer.\<close>

fun show_nat :: "nat \<Rightarrow> string" where
  "show_nat n = (if n < 10 then [digit_char n] else show_nat (n div 10) @ [digit_char (n mod 10)])"

declare show_nat.simps [simp del]

text \<open>Exactly \<open>k\<close> digits, with leading zeros.\<close>

fun fixed_digits :: "nat \<Rightarrow> nat \<Rightarrow> string" where
  "fixed_digits 0 n = []"
| "fixed_digits (Suc k) n = fixed_digits k (n div 10) @ [digit_char (n mod 10)]"

text \<open>Reading a string of digits.\<close>

definition read_nat :: "string \<Rightarrow> nat" where
  "read_nat s = foldl (\<lambda>a c. 10 * a + digit_val c) 0 s"

definition is_digit :: "char \<Rightarrow> bool" where
  "is_digit c \<longleftrightarrow> 48 \<le> (of_char c :: nat) \<and> (of_char c :: nat) < 58"

lemma of_char_digit_char: "(of_char (digit_char d) :: nat) = 48 + d mod 10"
proof -
  have "(48 + d mod 10) mod 256 = 48 + d mod 10"
    by (rule mod_less) (use mod_less_divisor [of 10 d] in linarith)
  then show ?thesis by (simp add: digit_char_def)
qed

lemma digit_val_digit_char [simp]: "digit_val (digit_char d) = d mod 10"
  by (simp add: digit_val_def of_char_digit_char)

lemma is_digit_digit_char [simp]: "is_digit (digit_char d)"
  using mod_less_divisor [of 10 d] by (simp add: is_digit_def of_char_digit_char)

lemma digit_char_eq_0_iff: "digit_char d = CHR ''0'' \<longleftrightarrow> d mod 10 = 0"
proof -
  have "digit_char d = CHR ''0'' \<longleftrightarrow> (of_char (digit_char d) :: nat) = of_char (CHR ''0'')"
    by (simp only: of_char_eq_iff)
  then show ?thesis by (simp add: of_char_digit_char)
qed

lemma read_nat_Nil [simp]: "read_nat [] = 0"
  by (simp add: read_nat_def)

lemma read_nat_snoc [simp]: "read_nat (s @ [c]) = 10 * read_nat s + digit_val c"
  by (simp add: read_nat_def)

lemma read_show_nat [simp]: "read_nat (show_nat n) = n"
proof (induction n rule: show_nat.induct)
  case (1 n)
  show ?case
  proof (cases "n < 10")
    case True
    then show ?thesis
      using read_nat_snoc [of "[]" "digit_char n"] by (simp add: show_nat.simps [of n])
  next
    case False
    with 1 show ?thesis by (simp add: show_nat.simps [of n])
  qed
qed

lemma show_nat_inject [simp]: "show_nat m = show_nat n \<longleftrightarrow> m = n"
  by (metis read_show_nat)

lemma show_nat_digits: "list_all is_digit (show_nat n)"
proof (induction n rule: show_nat.induct)
  case (1 n)
  then show ?case by (cases "n < 10") (simp_all add: show_nat.simps [of n])
qed

lemma show_nat_nonempty [simp]: "show_nat n \<noteq> []"
  by (subst show_nat.simps) simp

lemma length_fixed_digits [simp]: "length (fixed_digits k n) = k"
  by (induction k arbitrary: n) auto

lemma fixed_digits_digits: "list_all is_digit (fixed_digits k n)"
  by (induction k arbitrary: n) auto

lemma read_fixed_digits [simp]: "read_nat (fixed_digits k n) = n mod 10 ^ k"
proof (induction k arbitrary: n)
  case 0
  then show ?case by simp
next
  case (Suc k)
  then show ?case by (simp add: mod_mult2_eq)
qed

section \<open>Quotes\<close>

definition quote :: char where
  "quote = CHR 0x22"

definition apostrophe :: char where
  "apostrophe = CHR 0x27"

definition quoted :: "string \<Rightarrow> string" where
  "quoted s = quote # s @ [quote]"

section \<open>Prefixes\<close>

text \<open>\<open>str::strip_prefix\<close> and \<open>str::trim_start_matches\<close> with a string pattern.\<close>

fun strip_prefix :: "string \<Rightarrow> string \<Rightarrow> string option" where
  "strip_prefix [] s = Some s"
| "strip_prefix (p # ps) [] = None"
| "strip_prefix (p # ps) (c # s) = (if p = c then strip_prefix ps s else None)"

lemma strip_prefix_Some: "strip_prefix p s = Some t \<longleftrightarrow> s = p @ t"
  by (induction p s rule: strip_prefix.induct) auto

function trim_start_matches :: "string \<Rightarrow> string \<Rightarrow> string" where
  "trim_start_matches p s =
     (case strip_prefix p s of
        None \<Rightarrow> s
      | Some t \<Rightarrow> if p = [] then s else trim_start_matches p t)"
  by pat_completeness auto
termination
  by (relation "measure (\<lambda>(p, s). length s)") (auto simp: strip_prefix_Some)

declare trim_start_matches.simps [simp del]

lemma trim_start_matches_no_prefix:
  "strip_prefix p s = None \<Longrightarrow> trim_start_matches p s = s"
  by (subst trim_start_matches.simps) simp

lemma trim_start_matches_once:
  "p \<noteq> [] \<Longrightarrow> strip_prefix p t = None \<Longrightarrow> trim_start_matches p (p @ t) = t"
  by (subst trim_start_matches.simps)
    (auto simp: strip_prefix_Some trim_start_matches_no_prefix split: option.splits)

section \<open>Splitting at a separator\<close>

definition before_char :: "char \<Rightarrow> string \<Rightarrow> string" where
  "before_char c s = takeWhile (\<lambda>d. d \<noteq> c) s"

definition after_char :: "char \<Rightarrow> string \<Rightarrow> string" where
  "after_char c s = tl (dropWhile (\<lambda>d. d \<noteq> c) s)"

lemma before_after_char:
  assumes "c \<notin> set a"
  shows "before_char c (a @ c # b) = a" and "after_char c (a @ c # b) = b"
proof -
  have "\<forall>d \<in> set a. d \<noteq> c" using assms by auto
  then show "before_char c (a @ c # b) = a" and "after_char c (a @ c # b) = b"
    by (simp_all add: before_char_def after_char_def takeWhile_append2 dropWhile_append2)
qed

lemma no_digit_notin: "list_all is_digit s \<Longrightarrow> \<not> is_digit c \<Longrightarrow> c \<notin> set s"
  by (auto simp: list_all_iff)

end
