(* ===== verification/Invoice.thy ===== *)
theory Invoice
  imports Containers Strings
begin

text \<open>
  \<open>src/src/invoice.rs\<close>: subaddress indices and invoice ids with their orders, transfers, and
  invoices with the questions asked of them (confirmed, expired, confirmations, expiry, payment
  URI) and their equality, which ignores the order of the transfers.
\<close>

section \<open>Subaddress indices\<close>

datatype sub_index = SubIndex (major: u32) (minor: u32)

definition sub_index_cmp :: "sub_index \<Rightarrow> sub_index \<Rightarrow> ordering" where
  "sub_index_cmp a b =
     (case cmp (major a) (major b) of
        Equal \<Rightarrow> cmp (minor a) (minor b)
      | Greater \<Rightarrow> Greater
      | Less \<Rightarrow> Less)"

lemma sub_index_cmp_simps:
  "sub_index_cmp a b = Less \<longleftrightarrow> major a < major b \<or> major a = major b \<and> minor a < minor b"
  "sub_index_cmp a b = Equal \<longleftrightarrow> a = b"
  "sub_index_cmp a b = Greater \<longleftrightarrow> major b < major a \<or> major a = major b \<and> minor b < minor a"
  by (auto simp: sub_index_cmp_def sub_index.expand split: ordering.splits
      dest: sym [of Equal] sym [of Greater] sym [of Less])

definition sub_index_partial_cmp :: "sub_index \<Rightarrow> sub_index \<Rightarrow> ordering option" where
  "sub_index_partial_cmp a b = Some (sub_index_cmp a b)"

lemma sub_index_partial_cmp_Some [simp]: "sub_index_partial_cmp a b = Some r \<longleftrightarrow> sub_index_cmp a b = r"
  by (simp add: sub_index_partial_cmp_def)

instantiation sub_index :: linorder
begin

definition less_sub_index :: "sub_index \<Rightarrow> sub_index \<Rightarrow> bool" where
  "less_sub_index a b \<longleftrightarrow> sub_index_partial_cmp a b = Some Less"

definition less_eq_sub_index :: "sub_index \<Rightarrow> sub_index \<Rightarrow> bool" where
  "less_eq_sub_index a b \<longleftrightarrow> sub_index_partial_cmp a b \<noteq> Some Greater"

instance
  by standard
    (auto simp: less_sub_index_def less_eq_sub_index_def sub_index_cmp_simps sub_index.expand)

end

lemma sub_index_less_iff:
  "a < b \<longleftrightarrow> major a < major b \<or> major a = major b \<and> minor a < minor b" for a b :: sub_index
  by (simp add: less_sub_index_def sub_index_cmp_simps)

lemma sub_index_le_iff:
  "a \<le> b \<longleftrightarrow> major a < major b \<or> major a = major b \<and> minor a \<le> minor b" for a b :: sub_index
  by (auto simp: less_eq_sub_index_def sub_index_cmp_simps)

text \<open>\<open>impl Display for SubIndex\<close>.\<close>

definition show_sub_index :: "sub_index \<Rightarrow> string" where
  "show_sub_index i = show_nat (unat (major i)) @ ''/'' @ show_nat (unat (minor i))"

section \<open>Invoice ids\<close>

datatype invoice_id = InvoiceId (sub_index: sub_index) (id_creation_height: u64)

definition invoice_id_cmp :: "invoice_id \<Rightarrow> invoice_id \<Rightarrow> ordering" where
  "invoice_id_cmp a b =
     (case sub_index_cmp (sub_index a) (sub_index b) of
        Equal \<Rightarrow> cmp (id_creation_height a) (id_creation_height b)
      | Greater \<Rightarrow> Greater
      | Less \<Rightarrow> Less)"

lemma invoice_id_cmp_simps:
  "invoice_id_cmp a b = Less \<longleftrightarrow> sub_index a < sub_index b \<or>
     sub_index a = sub_index b \<and> id_creation_height a < id_creation_height b"
  "invoice_id_cmp a b = Equal \<longleftrightarrow> a = b"
  "invoice_id_cmp a b = Greater \<longleftrightarrow> sub_index b < sub_index a \<or>
     sub_index a = sub_index b \<and> id_creation_height b < id_creation_height a"
  by (auto simp: invoice_id_cmp_def less_sub_index_def sub_index_cmp_simps invoice_id.expand
      sub_index.expand split: ordering.splits
      dest: sym [of Equal] sym [of Greater] sym [of Less])

definition invoice_id_partial_cmp :: "invoice_id \<Rightarrow> invoice_id \<Rightarrow> ordering option" where
  "invoice_id_partial_cmp a b = Some (invoice_id_cmp a b)"

lemma invoice_id_partial_cmp_Some [simp]: "invoice_id_partial_cmp a b = Some r \<longleftrightarrow> invoice_id_cmp a b = r"
  by (simp add: invoice_id_partial_cmp_def)

instantiation invoice_id :: linorder
begin

definition less_invoice_id :: "invoice_id \<Rightarrow> invoice_id \<Rightarrow> bool" where
  "less_invoice_id a b \<longleftrightarrow> invoice_id_partial_cmp a b = Some Less"

definition less_eq_invoice_id :: "invoice_id \<Rightarrow> invoice_id \<Rightarrow> bool" where
  "less_eq_invoice_id a b \<longleftrightarrow> invoice_id_partial_cmp a b \<noteq> Some Greater"

instance
  by standard
    (auto simp: less_invoice_id_def less_eq_invoice_id_def invoice_id_cmp_simps
      invoice_id.expand)

end

lemma invoice_id_less_iff:
  "a < b \<longleftrightarrow> sub_index a < sub_index b \<or>
     sub_index a = sub_index b \<and> id_creation_height a < id_creation_height b" for a b :: invoice_id
  by (simp add: less_invoice_id_def invoice_id_cmp_simps)

lemma invoice_id_le_iff:
  "a \<le> b \<longleftrightarrow> sub_index a < sub_index b \<or>
     sub_index a = sub_index b \<and> id_creation_height a \<le> id_creation_height b" for a b :: invoice_id
  by (auto simp: less_eq_invoice_id_def invoice_id_cmp_simps)

text \<open>\<open>impl Display for InvoiceId\<close>.\<close>

definition show_invoice_id :: "invoice_id \<Rightarrow> string" where
  "show_invoice_id i =
     ''('' @ show_sub_index (sub_index i) @ '','' @ show_nat (unat (id_creation_height i)) @ '')''"

section \<open>Transfers\<close>

text \<open>\<open>t_height\<close> is \<open>None\<close> while the outputs are in the txpool.\<close>

datatype transfer = Transfer (t_amount: u64) (t_height: "u64 option")

definition cmp_by_height :: "transfer \<Rightarrow> transfer \<Rightarrow> ordering" where
  "cmp_by_height a b =
     (case t_height a of
        Some height \<Rightarrow>
          (case t_height b of
             Some other_height \<Rightarrow> cmp height other_height
           | None \<Rightarrow> Less)
      | None \<Rightarrow>
          (case t_height b of
             Some _ \<Rightarrow> Greater
           | None \<Rightarrow> Equal))"

lemma cmp_by_height_Less_Some:
  "cmp_by_height t (Transfer a (Some h)) = Less \<longleftrightarrow> (\<exists>g. t_height t = Some g \<and> g < h)"
  by (auto simp: cmp_by_height_def split: option.splits)

lemma cmp_by_height_Greater_Some:
  "cmp_by_height t (Transfer a (Some h)) = Greater \<longleftrightarrow>
     t_height t = None \<or> (\<exists>g. t_height t = Some g \<and> h < g)"
  by (auto simp: cmp_by_height_def split: option.splits)

section \<open>Invoices\<close>

definition piconeros_per_xmr :: u64 where
  "piconeros_per_xmr = 1000000000000"

record invoice =
  address :: string
  index :: sub_index
  creation_height :: u64
  amount_requested :: u64
  amount_paid :: u64
  paid_height :: "u64 option"
  confirmations_required :: u64
  current_height :: u64
  expiration_height :: u64
  transfers :: "transfer list"
  description :: string

definition invoice_new ::
  "string \<Rightarrow> sub_index \<Rightarrow> u64 \<Rightarrow> u64 \<Rightarrow> u64 \<Rightarrow> u64 \<Rightarrow> string \<Rightarrow> invoice" where
  "invoice_new addr ix ch amount confs expiration desc =
     \<lparr>address = addr, index = ix, creation_height = ch, amount_requested = amount,
      amount_paid = 0, paid_height = None, confirmations_required = confs, current_height = 0,
      expiration_height = ch + expiration, transfers = [], description = desc\<rparr>"

definition invoice_id :: "invoice \<Rightarrow> invoice_id" where
  "invoice_id i = InvoiceId (index i) (creation_height i)"

lemma invoice_id_new [simp]: "invoice_id (invoice_new a x h amount confs ex desc) = InvoiceId x h"
  by (simp add: invoice_id_def invoice_new_def)

definition confirmations :: "invoice \<Rightarrow> u64 option" where
  "confirmations i =
     (if amount_requested i \<le> amount_paid i then
        (case paid_height i of
           None \<Rightarrow> Some 0
         | Some paid_at \<Rightarrow> Some (saturating_sub (current_height i) paid_at))
      else None)"

definition is_confirmed :: "invoice \<Rightarrow> bool" where
  "is_confirmed i =
     (case confirmations i of None \<Rightarrow> False | Some c \<Rightarrow> confirmations_required i \<le> c)"

definition is_expired :: "invoice \<Rightarrow> bool" where
  "is_expired i \<longleftrightarrow> expiration_height i \<le> current_height i \<and> paid_height i = None"

definition expiration_in :: "invoice \<Rightarrow> u64" where
  "expiration_in i =
     saturating_sub (expiration_height i) (max (creation_height i) (current_height i))"

subsection \<open>The payment URI\<close>

text \<open>
  The fractional part is an \<open>f64\<close> quotient \<open>r / 10\<^sup>1\<^sup>2\<close> with \<open>r < 10\<^sup>1\<^sup>2\<close>, printed by \<open>Display\<close> as the
  shortest decimal that reads back to the same \<open>f64\<close>. Decimals of up to 15 significant digits
  are told apart by \<open>f64\<close>, so for such an \<open>r\<close> this is the 12-digit expansion without its
  trailing zeros, and \<open>0\<close> for zero.
\<close>

definition strip_trailing_zeros :: "string \<Rightarrow> string" where
  "strip_trailing_zeros s = rev (dropWhile (\<lambda>c. c = CHR ''0'') (rev s))"

definition show_f64_fraction :: "nat \<Rightarrow> string" where
  "show_f64_fraction r =
     (if r = 0 then ''0'' else ''0.'' @ strip_trailing_zeros (fixed_digits 12 r))"

definition uri :: "invoice \<Rightarrow> string" where
  "uri i =
     (let piconeros_due = saturating_sub (amount_requested i) (amount_paid i);
          whole_xmr_due = piconeros_due div piconeros_per_xmr;
          fractional_xmr_due = show_f64_fraction (unat (piconeros_due mod piconeros_per_xmr))
      in ''monero:'' @ address i @ ''?tx_amount='' @ show_nat (unat whole_xmr_due) @ ''.'' @
         trim_start_matches ''0.'' fractional_xmr_due)"

subsection \<open>Equality\<close>

definition count_transfers :: "transfer list \<Rightarrow> (transfer, nat) hash_map" where
  "count_transfers ts =
     fold (\<lambda>t m. hm_insert t ((case map_of m t of None \<Rightarrow> 0 | Some n \<Rightarrow> n) + 1) m) ts []"

definition invoice_eq :: "invoice \<Rightarrow> invoice \<Rightarrow> bool" where
  "invoice_eq a b \<longleftrightarrow>
     hm_eq (count_transfers (transfers a)) (count_transfers (transfers b))
     \<and> address a = address b
     \<and> index a = index b
     \<and> creation_height a = creation_height b
     \<and> amount_requested a = amount_requested b
     \<and> amount_paid a = amount_paid b
     \<and> paid_height a = paid_height b
     \<and> confirmations_required a = confirmations_required b
     \<and> current_height a = current_height b
     \<and> expiration_height a = expiration_height b
     \<and> description a = description b"

section \<open>Facts about equality\<close>

lemma count_transfers_snoc:
  "count_transfers (ts @ [t]) =
     hm_insert t ((case map_of (count_transfers ts) t of None \<Rightarrow> 0 | Some n \<Rightarrow> n) + 1)
       (count_transfers ts)"
  by (simp add: count_transfers_def)

lemma hm_wf_count_transfers: "hm_wf (count_transfers ts)"
proof (induction ts rule: rev_induct)
  case Nil
  then show ?case by (simp add: count_transfers_def)
next
  case (snoc t ts)
  then show ?case by (simp add: count_transfers_snoc)
qed

lemma map_of_count_transfers:
  "map_of (count_transfers ts) t = (if t \<in> set ts then Some (count (mset ts) t) else None)"
proof (induction ts arbitrary: t rule: rev_induct)
  case Nil
  then show ?case by (simp add: count_transfers_def)
next
  case (snoc u ts)
  then show ?case
    by (auto simp: count_transfers_snoc update_conv' not_in_iff [symmetric] split: if_splits)
qed

lemma map_of_count_transfers_eq_iff:
  "map_of (count_transfers ts) = map_of (count_transfers us) \<longleftrightarrow> mset ts = mset us"
proof
  assume eq: "map_of (count_transfers ts) = map_of (count_transfers us)"
  show "mset ts = mset us"
  proof (rule multiset_eqI)
    fix t
    from fun_cong [OF eq, of t] show "count (mset ts) t = count (mset us) t"
      by (auto simp: map_of_count_transfers split: if_splits) (metis not_in_iff set_mset_mset)
  qed
next
  assume "mset ts = mset us"
  moreover from this have "set ts = set us" by (metis set_mset_mset)
  ultimately show "map_of (count_transfers ts) = map_of (count_transfers us)"
    by (simp add: fun_eq_iff map_of_count_transfers)
qed

lemma invoice_eq_iff:
  "invoice_eq a b \<longleftrightarrow>
     mset (transfers a) = mset (transfers b) \<and> a\<lparr>transfers := []\<rparr> = b\<lparr>transfers := []\<rparr>"
  by (cases a; cases b)
    (auto simp: invoice_eq_def hm_eq_iff hm_wf_count_transfers map_of_count_transfers_eq_iff)

lemma invoice_eq_refl [simp]: "invoice_eq a a"
  by (simp add: invoice_eq_iff)

lemma invoice_eq_sym: "invoice_eq a b \<Longrightarrow> invoice_eq b a"
  by (simp add: invoice_eq_iff)

lemma invoice_eq_trans: "invoice_eq a b \<Longrightarrow> invoice_eq b c \<Longrightarrow> invoice_eq a c"
  by (simp add: invoice_eq_iff)

section \<open>Confirmation and expiry\<close>

lemma confirmations_Some_iff:
  "confirmations i = Some c \<longleftrightarrow>
     amount_requested i \<le> amount_paid i \<and>
     c = (case paid_height i of None \<Rightarrow> 0 | Some h \<Rightarrow> saturating_sub (current_height i) h)"
  by (auto simp: confirmations_def split: option.splits)

lemma is_confirmed_iff:
  "is_confirmed i \<longleftrightarrow>
     amount_requested i \<le> amount_paid i \<and>
     unat (confirmations_required i) \<le>
       (case paid_height i of None \<Rightarrow> 0 | Some h \<Rightarrow> unat (current_height i) - unat h)"
  by (auto simp: is_confirmed_def confirmations_def word_le_nat_alt split: option.splits)

lemma unat_expiration_in:
  "unat (expiration_in i) =
     unat (expiration_height i) - max (unat (creation_height i)) (unat (current_height i))"
  by (simp add: expiration_in_def max_def word_le_nat_alt)

section \<open>Amounts in the URI\<close>

definition pad_zeros :: "nat \<Rightarrow> string \<Rightarrow> string" where
  "pad_zeros k s = s @ replicate (k - length s) CHR ''0''"

text \<open>How a wallet reads \<open>tx_amount=W.F\<close>: \<open>F\<close> are the leading digits of the twelve decimals.\<close>

definition read_amount :: "string \<Rightarrow> nat" where
  "read_amount s =
     read_nat (before_char CHR ''.'' s) * 10 ^ 12 + read_nat (pad_zeros 12 (after_char CHR ''.'' s))"

lemma dropWhile_replicate_prefix:
  "\<exists>n. s = replicate n c @ dropWhile (\<lambda>d. d = c) s"
proof (induction s)
  case Nil
  then show ?case by simp
next
  case (Cons d s)
  then obtain n where n: "s = replicate n c @ dropWhile (\<lambda>d. d = c) s" ..
  show ?case
  proof (cases "d = c")
    case True
    then have "replicate (Suc n) c @ dropWhile (\<lambda>d. d = c) (d # s) = d # s"
      by (simp add: n [symmetric])
    then have "d # s = replicate (Suc n) c @ dropWhile (\<lambda>d. d = c) (d # s)" by (rule sym)
    then show ?thesis by (rule exI)
  next
    case False
    then have "d # s = replicate 0 c @ dropWhile (\<lambda>d. d = c) (d # s)" by simp
    then show ?thesis by (rule exI)
  qed
qed

lemma pad_strip_trailing_zeros: "pad_zeros (length s) (strip_trailing_zeros s) = s"
proof -
  from dropWhile_replicate_prefix [of "rev s" "CHR ''0''"]
  obtain n where n: "rev s = replicate n CHR ''0'' @ dropWhile (\<lambda>d. d = CHR ''0'') (rev s)" ..
  have s: "s = strip_trailing_zeros s @ replicate n CHR ''0''"
    using arg_cong [OF n, of rev]
    unfolding rev_append rev_replicate rev_rev_ident strip_trailing_zeros_def .
  have "length s = length (strip_trailing_zeros s) + n"
    using arg_cong [OF s, of length] unfolding length_append length_replicate .
  then have "length s - length (strip_trailing_zeros s) = n" by linarith
  then show ?thesis by (simp add: pad_zeros_def s [symmetric])
qed

lemma set_strip_trailing_zeros: "set (strip_trailing_zeros s) \<subseteq> set s"
  by (auto simp: strip_trailing_zeros_def dest: set_dropWhileD)

lemma strip_prefix_0_dot:
  assumes "CHR ''.'' \<notin> set t"
  shows "strip_prefix ''0.'' t = None"
proof (rule ccontr)
  assume "strip_prefix ''0.'' t \<noteq> None"
  then obtain u where "t = ''0.'' @ u" by (auto simp: strip_prefix_Some)
  with assms show False by simp
qed

lemma trim_show_f64_fraction:
  "trim_start_matches ''0.'' (show_f64_fraction r) =
     (if r = 0 then ''0'' else strip_trailing_zeros (fixed_digits 12 r))"
proof -
  have "CHR ''.'' \<notin> set (fixed_digits 12 r)"
    by (rule no_digit_notin [OF fixed_digits_digits]) (simp add: is_digit_def)
  then have "CHR ''.'' \<notin> set (strip_trailing_zeros (fixed_digits 12 r))"
    using set_strip_trailing_zeros by blast
  moreover have "strip_prefix ''0.'' ''0'' = None" by simp
  ultimately show ?thesis
    using trim_start_matches_once [of "''0.''"] trim_start_matches_no_prefix
    by (auto simp: show_f64_fraction_def strip_prefix_0_dot)
qed

lemma read_padded_fraction:
  assumes "r < 10 ^ 12"
  shows "read_nat (pad_zeros 12 (trim_start_matches ''0.'' (show_f64_fraction r))) = r"
proof (cases "r = 0")
  case True
  have "read_nat (pad_zeros 12 ''0'') = 0" by code_simp
  with True show ?thesis by (simp add: trim_show_f64_fraction)
next
  case False
  have "pad_zeros 12 (strip_trailing_zeros (fixed_digits 12 r)) = fixed_digits 12 r"
    using pad_strip_trailing_zeros [of "fixed_digits 12 r"] by simp
  with False assms show ?thesis by (simp add: trim_show_f64_fraction)
qed

lemma read_amount_printed:
  assumes "r < 10 ^ 12"
  shows "read_amount (show_nat w @ ''.'' @ trim_start_matches ''0.'' (show_f64_fraction r)) =
    w * 10 ^ 12 + r"
proof -
  have "CHR ''.'' \<notin> set (show_nat w)"
    by (rule no_digit_notin [OF show_nat_digits]) (simp add: is_digit_def)
  then show ?thesis
    using assms by (simp add: read_amount_def before_after_char read_padded_fraction)
qed

section \<open>Printing an invoice\<close>

text \<open>\<open>show_xmr\<close> prints an amount of piconeros as the floating point number of coins.\<close>

definition show_transfer :: "transfer \<Rightarrow> string" where
  "show_transfer t = CHR 0x0A # ''   {Amount: '' @ show_nat (unat (t_amount t)) @ '', Height: '' @
     quoted (case t_height t of Some h \<Rightarrow> show_nat (unat h) | None \<Rightarrow> ''N/A'') @ ''}''"

definition show_invoice :: "(u64 \<Rightarrow> string) \<Rightarrow> invoice \<Rightarrow> string" where
  "show_invoice show_xmr i =
     (let shown_confirmations = (case confirmations i of Some height \<Rightarrow> show_nat (unat height) | None \<Rightarrow> ''N/A'')
      in ''Index '' @ show_sub_index (index i) @ '': '' @
         CHR 0x0A # ''Paid: '' @ show_xmr (amount_paid i) @ ''/'' @ show_xmr (amount_requested i) @ '' '' @
         CHR 0x0A # ''Confirmations: '' @ shown_confirmations @ '' '' @
         CHR 0x0A # ''Started at: '' @ show_nat (unat (creation_height i)) @ '' '' @
         CHR 0x0A # ''Current height: '' @ show_nat (unat (current_height i)) @ '' '' @
         CHR 0x0A # ''Expiration at: '' @ show_nat (unat (expiration_height i)) @ '' '' @
         CHR 0x0A # ''Description: '' @ quoted (description i) @ '' '' @
         CHR 0x0A # ''transfers: '' @
         CHR 0x0A # ''['' @
         concat (map show_transfer (transfers i)) @
         (if transfers i = [] then '']'' else CHR 0x0A # '']''))"

end
