(* ===== verification/Coins.thy ===== *)
theory Coins
  imports Complex_Main Invoice
begin

text \<open>
  The amounts of an invoice in coins, \<open>xmr_requested\<close> and \<open>xmr_paid\<close> of \<open>src/src/invoice.rs\<close>, over the
  operations of \<open>f64\<close> that they use, and how far they are from the exact amount.
\<close>

record 'f f64_ops =
  f64_of_u64 :: "u64 \<Rightarrow> 'f"
  f64_divide :: "'f \<Rightarrow> 'f \<Rightarrow> 'f"
  f64_add :: "'f \<Rightarrow> 'f \<Rightarrow> 'f"

definition xmr_requested :: "'f f64_ops \<Rightarrow> invoice \<Rightarrow> 'f" where
  "xmr_requested F i =
     (let whole_xmr = amount_requested i div piconeros_per_xmr;
          fractional_xmr = f64_divide F (f64_of_u64 F (amount_requested i mod piconeros_per_xmr))
            (f64_of_u64 F piconeros_per_xmr)
      in f64_add F (f64_of_u64 F whole_xmr) fractional_xmr)"

definition xmr_paid :: "'f f64_ops \<Rightarrow> invoice \<Rightarrow> 'f" where
  "xmr_paid F i =
     (let whole_xmr = amount_paid i div piconeros_per_xmr;
          fractional_xmr = f64_divide F (f64_of_u64 F (amount_paid i mod piconeros_per_xmr))
            (f64_of_u64 F piconeros_per_xmr)
      in f64_add F (f64_of_u64 F whole_xmr) fractional_xmr)"

text \<open>
  IEEE 754, with \<open>val\<close> the number a float stands for: integers of 53 bits are exact, and a quotient or a
  sum in the normal range, or zero, is off by at most the relative error \<open>2 ^ - 53\<close>.
\<close>

definition normal :: "real \<Rightarrow> bool" where
  "normal x \<longleftrightarrow> x = 0 \<or> 1 / 2 ^ 1022 \<le> \<bar>x\<bar> \<and> \<bar>x\<bar> < 2 ^ 1023"

definition rounded :: "real \<Rightarrow> real \<Rightarrow> bool" where
  "rounded x y \<longleftrightarrow> \<bar>y - x\<bar> \<le> \<bar>x\<bar> / 2 ^ 53"

definition f64_laws :: "'f f64_ops \<Rightarrow> ('f \<Rightarrow> real) \<Rightarrow> bool" where
  "f64_laws F val \<longleftrightarrow>
     (\<forall>n. unat n \<le> 2 ^ 53 \<longrightarrow> val (f64_of_u64 F n) = real (unat n)) \<and>
     (\<forall>a b. val b \<noteq> 0 \<longrightarrow> normal (val a / val b) \<longrightarrow> rounded (val a / val b) (val (f64_divide F a b))) \<and>
     (\<forall>a b. normal (val a + val b) \<longrightarrow> rounded (val a + val b) (val (f64_add F a b)))"

text \<open>Both conversions are within \<open>2 ^ - 51\<close> of the exact amount, relative to it.\<close>

lemma rounded_bounds:
  assumes "rounded x y" and "0 \<le> x"
  shows "y \<le> x + x / 9007199254740992" and "x - x / 9007199254740992 \<le> y"
proof -
  have "\<bar>y - x\<bar> \<le> x / 9007199254740992" using assms by (simp add: rounded_def)
  then show "y \<le> x + x / 9007199254740992" and "x - x / 9007199254740992 \<le> y"
    using abs_le_D1 [of "y - x"] abs_le_D2 [of "y - x"] by fastforce+
qed

lemma sum_rounded:
  assumes "0 \<le> w" "0 \<le> x" and y: "rounded x y" and z: "rounded (w + y) z" and "0 \<le> y"
  shows "\<bar>z - (w + x)\<bar> \<le> (w + x) / 2 ^ 51"
proof -
  note bounds = rounded_bounds [OF y assms(2)] rounded_bounds [OF z add_nonneg_nonneg [OF assms(1,5)]]
  have "z - (w + x) \<le> (w + x) / 2251799813685248"
    using bounds assms(1,2) unfolding add_divide_distrib by linarith
  moreover have "w + x - z \<le> (w + x) / 2251799813685248"
    using bounds assms(1,2) unfolding add_divide_distrib by linarith
  moreover have "(2 :: real) ^ 51 = 2251799813685248" by simp
  ultimately show ?thesis by (intro abs_leI) (simp_all only: minus_diff_eq)
qed

lemma coins_close:
  assumes laws: "f64_laws F val"
  defines "P \<equiv> piconeros_per_xmr"
  shows "\<bar>val (f64_add F (f64_of_u64 F (n div P)) (f64_divide F (f64_of_u64 F (n mod P)) (f64_of_u64 F P))) -
      real (unat n) / 10 ^ 12\<bar> \<le> real (unat n) / 10 ^ 12 / 2 ^ 51"
proof -
  let ?w = "unat n div 10 ^ 12" and ?f = "unat n mod 10 ^ 12"
  have P: "unat P = 10 ^ 12" by (simp add: P_def piconeros_per_xmr_def)
  have parts: "unat (n div P) = ?w" "unat (n mod P) = ?f" by (simp_all add: unat_div unat_mod P)
  have "?w \<le> 2 ^ 64 div 10 ^ 12" using unsigned_less [of n, where ?'a = nat] by (intro div_le_mono) simp
  then have w: "?w \<le> 18446744" by simp
  have f: "?f < 10 ^ 12" by simp
  have vals: "val (f64_of_u64 F (n div P)) = real ?w" "val (f64_of_u64 F (n mod P)) = real ?f"
    "val (f64_of_u64 F P) = 10 ^ 12"
    using laws w f by (simp_all add: f64_laws_def parts P del: of_nat_unat)
  define x where "x = real ?f / 10 ^ 12"
  define y where "y = val (f64_divide F (f64_of_u64 F (n mod P)) (f64_of_u64 F P))"
  have small: "1 / 2 ^ 1022 \<le> (1 :: real) / 10 ^ 12 / 2" by simp
  have x: "x = 0 \<or> 1 / 10 ^ 12 \<le> x" "0 \<le> x" "x < 1" using f by (auto simp: x_def)
  have "normal x" using x small by (auto simp: normal_def)
  moreover have "\<And>a b. val b \<noteq> 0 \<Longrightarrow> normal (val a / val b) \<Longrightarrow> rounded (val a / val b) (val (f64_divide F a b))"
    using laws unfolding f64_laws_def by blast
  from this [of "f64_of_u64 F P" "f64_of_u64 F (n mod P)"] have "normal x \<Longrightarrow> rounded x y"
    unfolding vals x_def y_def by simp
  ultimately have y: "rounded x y" by blast
  have "x / 2 \<le> y" using rounded_bounds [OF y x(2)] x(2) by linarith
  moreover have "y \<le> 2 * x" using rounded_bounds [OF y x(2)] x(2) by linarith
  ultimately have y_bounds: "x / 2 \<le> y" "y \<le> 2 * x" by simp_all
  have "normal (real ?w + y)"
  proof (cases "?w = 0 \<and> x = 0")
    case True
    then show ?thesis using y_bounds by (simp add: normal_def)
  next
    case False
    then have "1 / 10 ^ 12 / 2 \<le> real ?w + y"
      using y_bounds x by (cases "?w = 0") (auto simp: field_simps intro: order_trans)
    moreover have "real ?w + y < 2 ^ 1023" using y_bounds x(3) w by simp
    ultimately show ?thesis using small by (simp add: normal_def)
  qed
  moreover have "\<And>a b. normal (val a + val b) \<Longrightarrow> rounded (val a + val b) (val (f64_add F a b))"
    using laws unfolding f64_laws_def by blast
  from this [of "f64_of_u64 F (n div P)"]
  have "normal (real ?w + y) \<Longrightarrow> rounded (real ?w + y) (val (f64_add F (f64_of_u64 F (n div P))
      (f64_divide F (f64_of_u64 F (n mod P)) (f64_of_u64 F P))))" unfolding vals y_def .
  ultimately have z: "rounded (real ?w + y) (val (f64_add F (f64_of_u64 F (n div P))
      (f64_divide F (f64_of_u64 F (n mod P)) (f64_of_u64 F P))))"
    by blast
  have "unat n = ?w * 10 ^ 12 + ?f" by simp
  then have "real (unat n) = real ?w * 10 ^ 12 + real ?f" by (metis of_nat_add of_nat_mult of_nat_power of_nat_numeral)
  then have sum: "real ?w + x = real (unat n) / 10 ^ 12" by (simp add: x_def field_simps)
  have "0 \<le> y" using y_bounds x(2) by linarith
  from sum_rounded [OF of_nat_0_le_iff x(2) y z this] show ?thesis unfolding sum .
qed

lemma xmr_close:
  assumes "f64_laws F val"
  shows "\<bar>val (xmr_requested F i) - real (unat (amount_requested i)) / 10 ^ 12\<bar>
      \<le> real (unat (amount_requested i)) / 10 ^ 12 / 2 ^ 51"
    and "\<bar>val (xmr_paid F i) - real (unat (amount_paid i)) / 10 ^ 12\<bar>
      \<le> real (unat (amount_paid i)) / 10 ^ 12 / 2 ^ 51"
  using coins_close [OF assms] by (simp_all add: xmr_requested_def xmr_paid_def Let_def)

end
