(* ===== verification/Errors.thy ===== *)
theory Errors
  imports Invoice
begin

text \<open>
  The error types of \<open>src/src/lib.rs\<close>, \<open>src/src/rpc/mod.rs\<close>, \<open>src/src/rpc/authentication.rs\<close> and
  \<open>src/src/pubsub.rs\<close>. An error of a third-party crate is carried by its message.
\<close>

datatype auth_error =
    Unauthorized
  | InvalidHeader string
  | HeaderConstruction string
  | Unsupported

datatype rpc_error =
    Http string
  | Request string
  | Timeout string
  | HexDecode string
  | Serialization string
  | MissingData string
  | DataType string string
  | InvalidJson string
  | Auth auth_error

datatype try_recv_error = ChannelEmpty | ChannelDisconnected

datatype subscriber_error =
    RecvTimeout string
  | TryRecv try_recv_error

datatype 'e accept_xmr_error =
    Rpc rpc_error
  | InvoiceStorage 'e
  | Subscriber subscriber_error
  | Unblind sub_index
  | Parse string string string
  | OwnedOutputCheck string
  | ScanningThreadPanic
  | AlreadyRunning
  | Threading string
  | StopSignal string

text \<open>\<open>map_err(AcceptXmrError::InvoiceStorage)\<close> on a result that does not change its store.\<close>

definition storage_result :: "'e + 'a \<Rightarrow> ('st, 'e accept_xmr_error fault, 'a) act" where
  "storage_result r =
     (case r of Inl e \<Rightarrow> stop (Raise (InvoiceStorage e)) | Inr x \<Rightarrow> ret x)"

lemma storage_result_simps [simp]:
  "storage_result (Inl e) s = (Inl (Raise (InvoiceStorage e)), s)"
  "storage_result (Inr x) s = (Inr x, s)"
  by (simp_all add: storage_result_def)

end
