(* ===== verification/Storage.thy ===== *)
theory Storage
  imports Errors
begin

text \<open>
  \<open>src/src/storage/mod.rs\<close> and \<open>src/src/storage/stores/in_memory.rs\<close>: the \<open>InvoiceStorage\<close>
  trait as a record of operations, its default methods, its contract as the locale
  \<open>invoice_storage\<close>, and the \<open>InMemory\<close> store, which is shown to meet the contract. The \<open>Store\<close>
  wrapper, which takes a lock around each operation, is in \<open>Store_Lock\<close>.
\<close>

section \<open>The trait\<close>

record ('s, 'e) storage_ops =
  st_insert :: "invoice \<Rightarrow> ('s, 'e, unit) act"
  st_remove :: "invoice_id \<Rightarrow> ('s, 'e, invoice option) act"
  st_update :: "invoice \<Rightarrow> ('s, 'e, invoice option) act"
  st_get :: "invoice_id \<Rightarrow> 's \<Rightarrow> 'e + invoice option"
  st_contains_sub_index :: "sub_index \<Rightarrow> 's \<Rightarrow> 'e + bool"
  st_try_iter :: "'s \<Rightarrow> 'e + ('e + invoice) list"
  st_lowest_height :: "'s \<Rightarrow> 'e + u64 option"
  st_is_empty :: "'s \<Rightarrow> 'e + bool"
  st_flush :: "'s \<Rightarrow> 'e + unit"

subsection \<open>Default methods\<close>

text \<open>\<open>Iterator::min_by\<close>: the accumulator is replaced only when it compares greater.\<close>

fun min_by :: "('a \<Rightarrow> 'a \<Rightarrow> ordering) \<Rightarrow> 'a list \<Rightarrow> 'a option" where
  "min_by c [] = None"
| "min_by c (x # xs) = Some (foldl (\<lambda>a b. if c a b = Greater then b else a) x xs)"

fun height_cmp :: "'e + invoice \<Rightarrow> 'e + invoice \<Rightarrow> ordering" where
  "height_cmp (Inl _) _ = Greater"
| "height_cmp _ (Inl _) = Less"
| "height_cmp (Inr inv1) (Inr inv2) = cmp (current_height inv1) (current_height inv2)"

definition default_lowest_height ::
  "('s \<Rightarrow> 'e + ('e + invoice) list) \<Rightarrow> 's \<Rightarrow> 'e + u64 option" where
  "default_lowest_height try_iter s =
     (case try_iter s of
        Inl e \<Rightarrow> Inl e
      | Inr items \<Rightarrow>
          (case min_by height_cmp items of
             None \<Rightarrow> Inr None
           | Some (Inl e) \<Rightarrow> Inl e
           | Some (Inr i) \<Rightarrow> Inr (Some (current_height i))))"

definition default_is_empty :: "('s \<Rightarrow> 'e + ('e + invoice) list) \<Rightarrow> 's \<Rightarrow> 'e + bool" where
  "default_is_empty try_iter s =
     (case try_iter s of Inl e \<Rightarrow> Inl e | Inr items \<Rightarrow> Inr (items = []))"

definition default_flush :: "'s \<Rightarrow> 'e + unit" where
  "default_flush s = Inr ()"

subsection \<open>What the default height search returns\<close>

definition ok_items :: "('e + 'a) list \<Rightarrow> 'a list" where
  "ok_items items = concat (map (\<lambda>x. case x of Inl _ \<Rightarrow> [] | Inr a \<Rightarrow> [a]) items)"

lemma ok_items_simps [simp]:
  "ok_items [] = []"
  "ok_items (Inl e # items) = ok_items items"
  "ok_items (Inr a # items) = a # ok_items items"
  "ok_items (map Inr xs) = xs"
  by (simp_all add: ok_items_def o_def)

lemma fold_height_min:
  "foldl (\<lambda>a b. if height_cmp a b = Greater then b else a) x items =
     (case ok_items (x # items) of
        [] \<Rightarrow> last (x # items)
      | i # is \<Rightarrow> Inr (foldl (\<lambda>a b. if current_height b < current_height a then b else a) i is))"
proof (induction items arbitrary: x)
  case Nil
  then show ?case by (cases x) auto
next
  case (Cons y items)
  show ?case
    by (cases x; cases y) (auto simp: Cons.IH split: list.splits)
qed

lemma foldl_min_height:
  "current_height (foldl (\<lambda>a b. if current_height b < current_height a then b else a) i is) =
     Min (current_height ` set (i # is))"
proof (induction "is" arbitrary: i)
  case Nil
  then show ?case by simp
next
  case (Cons j "is")
  show ?case by (cases "is = []") (auto simp: Cons.IH min_def)
qed

lemma default_lowest_height_items:
  "try_iter s = Inr items \<Longrightarrow>
   default_lowest_height try_iter s =
     (case ok_items items of
        [] \<Rightarrow> (if items = [] then Inr None
                else case last items of Inl e \<Rightarrow> Inl e | Inr i \<Rightarrow> Inr (Some (current_height i)))
      | i # is \<Rightarrow> Inr (Some (Min (current_height ` set (i # is)))))"
  by (cases items)
    (auto simp: default_lowest_height_def fold_height_min foldl_min_height split: list.splits)

text \<open>
  Entries that cannot be read are passed over whenever one can be read; their error appears only when
  all fail.
\<close>

lemma lowest_height_of_readable:
  assumes "try_iter s = Inr items"
  shows "default_lowest_height try_iter s =
    (case ok_items items of
       [] \<Rightarrow> (if items = [] then Inr None else map_sum id (\<lambda>i. Some (current_height i)) (last items))
     | i # is \<Rightarrow> Inr (Some (Min (current_height ` set (i # is)))))"
  unfolding default_lowest_height_items [of try_iter s items, OF assms]
  by (auto split: list.splits sum.splits)

section \<open>The contract\<close>

text \<open>
  What the gateway and the scanner rely on, for the states \<open>ok\<close> in which the storage layer works:
  \<open>lookup\<close> is the abstract content of the store. \<open>contains_sub_index\<close> must not miss a
  tracked subaddress; the trait's documentation also asks that it finds no other, and that is
  left out here since \<open>InMemory\<close> does not do it.
\<close>

locale invoice_storage =
  fixes S :: "('s, 'e) storage_ops"
    and ok :: "'s \<Rightarrow> bool"
    and lookup :: "'s \<Rightarrow> invoice_id \<rightharpoonup> invoice"
  assumes keyed: "ok s \<Longrightarrow> lookup s k = Some i \<Longrightarrow> invoice_id i = k"
    and insert_new: "ok s \<Longrightarrow> lookup s (invoice_id i) = None \<Longrightarrow>
      \<exists>s'. st_insert S i s = (Inr (), s') \<and> ok s' \<and> lookup s' = (lookup s)(invoice_id i \<mapsto> i)"
    and insert_existing: "ok s \<Longrightarrow> lookup s (invoice_id i) \<noteq> None \<Longrightarrow>
      \<exists>e. st_insert S i s = (Inl e, s)"
    and remove: "ok s \<Longrightarrow>
      \<exists>s'. st_remove S k s = (Inr (lookup s k), s') \<and> ok s' \<and> lookup s' = (lookup s)(k := None)"
    and update: "ok s \<Longrightarrow>
      \<exists>s'. st_update S i s = (Inr (lookup s (invoice_id i)), s') \<and> ok s' \<and>
        lookup s' = (if lookup s (invoice_id i) = None then lookup s
                     else (lookup s)(invoice_id i \<mapsto> i))"
    and get: "ok s \<Longrightarrow> st_get S k s = Inr (lookup s k)"
    and contains_total: "ok s \<Longrightarrow> \<exists>b. st_contains_sub_index S x s = Inr b"
    and contains_tracked: "ok s \<Longrightarrow> lookup s k \<noteq> None \<Longrightarrow>
      st_contains_sub_index S (sub_index k) s = Inr True"
    and iter: "ok s \<Longrightarrow>
      \<exists>is. st_try_iter S s = Inr (map Inr is) \<and> distinct (map invoice_id is) \<and>
        (\<forall>i. i \<in> set is \<longleftrightarrow> lookup s (invoice_id i) = Some i)"
    and lowest_height: "ok s \<Longrightarrow>
      st_lowest_height S s = default_lowest_height (st_try_iter S) s"
    and is_empty: "ok s \<Longrightarrow> st_is_empty S s = Inr (\<forall>k. lookup s k = None)"
    and flush: "ok s \<Longrightarrow> st_flush S s = Inr ()"
begin

definition tracked :: "'s \<Rightarrow> invoice set" where
  "tracked s = {i. lookup s (invoice_id i) = Some i}"

lemma lookup_tracked: "ok s \<Longrightarrow> lookup s k = Some i \<Longrightarrow> i \<in> tracked s"
  by (auto simp: tracked_def dest: keyed)

lemma iter_tracked:
  "ok s \<Longrightarrow> \<exists>is. st_try_iter S s = Inr (map Inr is) \<and> distinct (map invoice_id is) \<and>
     set is = tracked s"
  using iter [of s] by (auto simp: tracked_def)

lemma finite_tracked: "ok s \<Longrightarrow> finite (tracked s)"
  using iter_tracked by (metis List.finite_set)

lemma lowest_height_tracked:
  assumes "ok s"
  shows "st_lowest_height S s =
    Inr (if tracked s = {} then None else Some (Min (current_height ` tracked s)))"
proof -
  from iter_tracked [OF assms] obtain "is"
    where "is": "st_try_iter S s = Inr (map Inr is)" "set is = tracked s" by blast
  have "st_lowest_height S s = default_lowest_height (st_try_iter S) s"
    by (rule lowest_height [OF assms])
  also have "\<dots> = Inr (if is = [] then None else Some (Min (current_height ` set is)))"
    by (simp add: default_lowest_height_items [where items = "map Inr is"] "is"(1)
        split: list.splits)
  finally show ?thesis using "is"(2) by auto
qed

lemma insert_then_get:
  assumes "ok s" and "st_insert S i s = (Inr (), s')"
  shows "ok s'" and "st_get S k s' = Inr (if k = invoice_id i then Some i else lookup s k)"
    and "lookup s (invoice_id i) = None"
proof -
  show new: "lookup s (invoice_id i) = None"
    using insert_existing [of s i] assms by (cases "lookup s (invoice_id i)") auto
  from insert_new [OF assms(1) new] assms(2)
  have s': "ok s'" "lookup s' = (lookup s)(invoice_id i \<mapsto> i)" by auto
  then show "ok s'" and "st_get S k s' = Inr (if k = invoice_id i then Some i else lookup s k)"
    by (auto simp: get)
qed

lemma update_keeps_ids:
  "ok s \<Longrightarrow> st_update S i s = (r, s') \<Longrightarrow> ok s' \<and> dom (lookup s') = dom (lookup s)"
  using update [of s i] by (auto split: if_splits)

end

section \<open>The in-memory store\<close>

datatype in_memory_error = DuplicateEntry

type_synonym in_memory = "(invoice_id, invoice) btree_map"

definition in_memory_new :: in_memory where
  "in_memory_new = []"

definition in_memory_insert :: "invoice \<Rightarrow> (in_memory, in_memory_error, unit) act" where
  "in_memory_insert i =
     (\<lambda>m. if map_of m (invoice_id i) \<noteq> None then (Inl DuplicateEntry, m)
          else (Inr (), bt_insert (invoice_id i) i m))"

definition in_memory_remove ::
  "invoice_id \<Rightarrow> (in_memory, in_memory_error, invoice option) act" where
  "in_memory_remove k = (\<lambda>m. (Inr (map_of m k), bt_remove k m))"

definition in_memory_update :: "invoice \<Rightarrow> (in_memory, in_memory_error, invoice option) act" where
  "in_memory_update i =
     (\<lambda>m. case map_of m (invoice_id i) of
            Some old \<Rightarrow> (Inr (Some old), bt_insert (invoice_id i) i m)
          | None \<Rightarrow> (Inr None, m))"

definition in_memory_get :: "invoice_id \<Rightarrow> in_memory \<Rightarrow> in_memory_error + invoice option" where
  "in_memory_get k m = Inr (map_of m k)"

definition in_memory_contains_sub_index ::
  "sub_index \<Rightarrow> in_memory \<Rightarrow> in_memory_error + bool" where
  "in_memory_contains_sub_index x m = Inr (bt_range_from (InvoiceId x 0) m \<noteq> [])"

definition in_memory_try_iter ::
  "in_memory \<Rightarrow> in_memory_error + (in_memory_error + invoice) list" where
  "in_memory_try_iter m = Inr (map (\<lambda>(_, i). Inr i) m)"

definition in_memory :: "(in_memory, in_memory_error) storage_ops" where
  "in_memory =
     \<lparr>st_insert = in_memory_insert, st_remove = in_memory_remove, st_update = in_memory_update,
      st_get = in_memory_get, st_contains_sub_index = in_memory_contains_sub_index,
      st_try_iter = in_memory_try_iter,
      st_lowest_height = default_lowest_height in_memory_try_iter,
      st_is_empty = default_is_empty in_memory_try_iter, st_flush = default_flush\<rparr>"

lemmas in_memory_defs =
  in_memory_insert_def in_memory_remove_def in_memory_update_def in_memory_get_def
  in_memory_contains_sub_index_def in_memory_try_iter_def

definition in_memory_ok :: "in_memory \<Rightarrow> bool" where
  "in_memory_ok m \<longleftrightarrow> bt_wf m \<and> list_all (\<lambda>(k, i). invoice_id i = k) m"

lemma in_memory_ok_insert:
  "in_memory_ok m \<Longrightarrow> in_memory_ok (bt_insert (invoice_id i) i m)"
proof -
  have "list_all (\<lambda>(k, j). invoice_id j = k) m \<Longrightarrow>
    list_all (\<lambda>(k, j). invoice_id j = k) (bt_insert (invoice_id i) i m)"
    by (induction "invoice_id i" i m rule: bt_insert.induct) auto
  then show "in_memory_ok m \<Longrightarrow> ?thesis" by (simp add: in_memory_ok_def)
qed

lemma in_memory_ok_remove: "in_memory_ok m \<Longrightarrow> in_memory_ok (bt_remove k m)"
  by (simp add: in_memory_ok_def bt_remove_def list_all_iff)
    (metis bt_remove_def bt_wf_remove)

lemma in_memory_keyed: "in_memory_ok m \<Longrightarrow> map_of m k = Some i \<Longrightarrow> invoice_id i = k"
  by (auto simp: in_memory_ok_def list_all_iff dest!: map_of_SomeD)

lemma in_memory_iter:
  assumes "in_memory_ok m"
  shows "distinct (map invoice_id (map snd m))"
    and "i \<in> set (map snd m) \<longleftrightarrow> map_of m (invoice_id i) = Some i"
proof -
  have "map invoice_id (map snd m) = map fst m"
    using assms by (auto simp: in_memory_ok_def list_all_iff)
  with assms show "distinct (map invoice_id (map snd m))"
    by (simp only: in_memory_ok_def bt_wf_distinct)
  have d: "distinct (map fst m)" using assms by (simp add: in_memory_ok_def bt_wf_distinct)
  show "i \<in> set (map snd m) \<longleftrightarrow> map_of m (invoice_id i) = Some i"
    using assms d by (force simp: in_memory_ok_def list_all_iff dest: map_of_SomeD)
qed

lemma in_memory_contains_iff:
  "in_memory_contains_sub_index x m = Inr (\<exists>k \<in> fst ` set m. x \<le> sub_index k)"
proof -
  have "InvoiceId x 0 \<le> k \<longleftrightarrow> x \<le> sub_index k" for k
    by (auto simp: invoice_id_le_iff)
  then show ?thesis
    by (simp only: in_memory_contains_sub_index_def bt_range_from_nonempty_iff)
qed

interpretation mem: invoice_storage in_memory in_memory_ok map_of
proof unfold_locales
  fix s :: in_memory and k i
  show "in_memory_ok s \<Longrightarrow> map_of s k = Some i \<Longrightarrow> invoice_id i = k" by (rule in_memory_keyed)
next
  fix s :: in_memory and i
  assume "in_memory_ok s" "map_of s (invoice_id i) = None"
  then show "\<exists>s'. st_insert in_memory i s = (Inr (), s') \<and> in_memory_ok s' \<and>
      map_of s' = (map_of s)(invoice_id i \<mapsto> i)"
    by (simp add: in_memory_def in_memory_defs in_memory_ok_insert)
next
  fix s :: in_memory and k i
  assume ok: "in_memory_ok s"
  show "\<exists>s'. st_remove in_memory k s = (Inr (map_of s k), s') \<and> in_memory_ok s' \<and>
      map_of s' = (map_of s)(k := None)"
    using ok by (simp add: in_memory_def in_memory_defs in_memory_ok_remove)
  show "\<exists>s'. st_update in_memory i s = (Inr (map_of s (invoice_id i)), s') \<and> in_memory_ok s' \<and>
      map_of s' = (if map_of s (invoice_id i) = None then map_of s
                   else (map_of s)(invoice_id i \<mapsto> i))"
    using ok by (auto simp: in_memory_def in_memory_defs in_memory_ok_insert split: option.splits)
  show "\<exists>is. st_try_iter in_memory s = Inr (map Inr is) \<and> distinct (map invoice_id is) \<and>
      (\<forall>i. i \<in> set is \<longleftrightarrow> map_of s (invoice_id i) = Some i)"
    using in_memory_iter [OF ok]
    by (intro exI [of _ "map snd s"]) (auto simp: in_memory_def in_memory_defs)
next
  fix s :: in_memory and k
  assume "map_of s k \<noteq> None"
  then show "st_contains_sub_index in_memory (sub_index k) s = Inr True"
    by (force simp: in_memory_def in_memory_contains_iff dest: map_of_SomeD)
next
  fix s :: in_memory
  show "st_is_empty in_memory s = Inr (\<forall>k. map_of s k = None)"
    by (cases s) (auto simp: in_memory_def default_is_empty_def in_memory_defs)
qed (auto simp: in_memory_def in_memory_defs default_flush_def)

end
