(* ===== verification/Rpc_Ops.thy ===== *)
theory Rpc_Ops
  imports Errors
begin

text \<open>
  The operations of \<open>RpcClient\<close> (\<open>src/src/rpc/mod.rs\<close>) that the caches call, as a record, so that
  the caches are modelled for any client and any daemon. An operation acts on a world \<open>'w\<close>: the
  daemon, the network and the client's own state, all of which may change with each call.
  \<open>'tx\<close> is \<open>monero::Transaction\<close>. Of \<open>monero::Block\<close> the code reads two fields.
\<close>

type_synonym hash = "256 word"

text \<open>A call ends with an error, or with a panic that ends the thread.\<close>

datatype rpc_failure = Failed rpc_error | Crashed

fun rpc_fault :: "rpc_failure \<Rightarrow> 'e accept_xmr_error fault" where
  "rpc_fault (Failed e) = Raise (Rpc e)"
| "rpc_fault Crashed = Panic"

lemma rpc_fault_not_Blocked [simp]: "rpc_fault e \<noteq> Blocked"
  by (cases e) simp_all

record block =
  prev_id :: hash
  tx_hashes :: "hash list"

record ('w, 'tx) rpc_ops =
  rpc_daemon_height :: "('w, rpc_failure, u64) act"
  rpc_block :: "u64 \<Rightarrow> ('w, rpc_failure, hash \<times> block) act"
  rpc_block_transactions :: "block \<Rightarrow> ('w, rpc_failure, 'tx list) act"
  rpc_txpool :: "('w, rpc_failure, 'tx list) act"
  rpc_txpool_hashes :: "('w, rpc_failure, hash list) act"
  rpc_transactions_by_hashes :: "hash list \<Rightarrow> ('w, rpc_failure, 'tx list) act"

text \<open>
  A component with its own state \<open>'c\<close> calling the client: an error is converted by \<open>?\<close> into
  \<open>AcceptXmrError::Rpc\<close>, and the component's state is untouched by the call.
\<close>

definition rpc_call ::
  "('w, rpc_failure, 'a) act \<Rightarrow> ('c \<times> 'w, 'e accept_xmr_error fault, 'a) act" where
  "rpc_call m = (\<lambda>(c, w). case m w of
       (Inl e, w') \<Rightarrow> (Inl (rpc_fault e), (c, w'))
     | (Inr x, w') \<Rightarrow> (Inr x, (c, w')))"

definition read_state :: "('c \<Rightarrow> 'a) \<Rightarrow> ('c \<times> 'w, 'e, 'a) act" where
  "read_state f = (\<lambda>(c, w). (Inr (f c), (c, w)))"

definition write_state :: "('c \<Rightarrow> 'c) \<Rightarrow> ('c \<times> 'w, 'e, unit) act" where
  "write_state f = (\<lambda>(c, w). (Inr (), (f c, w)))"

lemma rpc_call_apply:
  "rpc_call m (c, w) = (case m w of
       (Inl e, w') \<Rightarrow> (Inl (rpc_fault e), (c, w'))
     | (Inr x, w') \<Rightarrow> (Inr x, (c, w')))"
  by (simp add: rpc_call_def)

lemma rpc_call_Inr [simp]: "m w = (Inr x, w') \<Longrightarrow> rpc_call m (c, w) = (Inr x, (c, w'))"
  and rpc_call_Inl [simp]: "m w = (Inl e, w') \<Longrightarrow> rpc_call m (c, w) = (Inl (rpc_fault e), (c, w'))"
  by (simp_all add: rpc_call_def)

lemma rpc_call_state: "rpc_call m (c, w) = (r, (c', w')) \<Longrightarrow> c' = c"
  by (auto simp: rpc_call_def split: prod.splits sum.splits)

lemma rpc_call_InrD: "rpc_call m (c, w) = (Inr x, (c', w')) \<Longrightarrow> c' = c \<and> m w = (Inr x, w')"
  by (auto simp: rpc_call_def split: prod.splits sum.splits)

lemma read_state_apply [simp]: "read_state f (c, w) = (Inr (f c), (c, w))"
  by (simp add: read_state_def)

lemma write_state_apply [simp]: "write_state f (c, w) = (Inr (), (f c, w))"
  by (simp add: write_state_def)

lemma wp_rpc_call [wp_simps]:
  "wp (rpc_call m) Q E (c, w) = wp m (\<lambda>x w'. Q x (c, w')) (\<lambda>e w'. E (rpc_fault e) (c, w')) w"
  by (auto simp: wp_def rpc_call_def split: prod.splits sum.splits)

lemma wp_read_state [wp_simps]: "wp (read_state f) Q E (c, w) = Q (f c) (c, w)"
  by (simp add: wp_def)

lemma wp_write_state [wp_simps]: "wp (write_state f) Q E (c, w) = Q () (f c, w)"
  by (simp add: wp_def)

end
