(* ===== verification/Block_Cache.thy ===== *)
theory Block_Cache
  imports Rpc_Ops
begin

text \<open>
  \<open>src/src/caching/block_cache.rs\<close>: the newest blocks of the chain, top block first, with their
  transactions. \<open>update\<close> advances the cache by one block, \<open>skip_ahead\<close> to the tip, and both then
  follow the hash links down the cache and replace the blocks a reorganisation has removed.
\<close>

section \<open>State and operations\<close>

text \<open>Block id, height, block and transactions.\<close>

type_synonym 'tx cached_block = "hash \<times> u64 \<times> block \<times> 'tx list"

abbreviation cb_id :: "'tx cached_block \<Rightarrow> hash" where "cb_id b \<equiv> fst b"
abbreviation cb_height :: "'tx cached_block \<Rightarrow> u64" where "cb_height b \<equiv> fst (snd b)"
abbreviation cb_block :: "'tx cached_block \<Rightarrow> block" where "cb_block b \<equiv> fst (snd (snd b))"
abbreviation cb_txs :: "'tx cached_block \<Rightarrow> 'tx list" where "cb_txs b \<equiv> snd (snd (snd b))"

record 'tx block_cache =
  bc_height :: u64
  bc_daemon_height :: u64
  bc_blocks :: "'tx cached_block list"
  bc_cache_size :: nat

type_synonym ('w, 'tx, 'e, 'a) block_cache_act =
  "('tx block_cache \<times> 'w, 'e accept_xmr_error fault, 'a) act"

definition fetch_block ::
  "('w, 'tx) rpc_ops \<Rightarrow> u64 \<Rightarrow> ('w, rpc_failure, 'tx cached_block) act" where
  "fetch_block R height =
     bind (rpc_block R height) (\<lambda>(block_id, block).
     bind (rpc_block_transactions R block) (\<lambda>transactions.
     ret (block_id, height, block, transactions)))"

definition block_cache_init ::
  "('w, 'tx) rpc_ops \<Rightarrow> nat \<Rightarrow> u64 \<Rightarrow> u64 \<Rightarrow> ('w, rpc_failure, 'tx block_cache) act" where
  "block_cache_init R cache_size initial_height daemon_height =
     bind (for_loop
             (\<lambda>i blocks. bind (fetch_block R (initial_height - of_nat i)) (\<lambda>b. ret (blocks @ [b])))
             [0..<cache_size] [])
       (\<lambda>blocks. ret \<lparr>bc_height = initial_height, bc_daemon_height = daemon_height,
                      bc_blocks = blocks, bc_cache_size = cache_size\<rparr>)"

text \<open>\<open>blocks.insert(0, b); blocks.remove(blocks.len() - 1)\<close>.\<close>

definition push_block :: "'tx cached_block \<Rightarrow> 'tx block_cache \<Rightarrow> 'tx block_cache" where
  "push_block b c = c\<lparr>bc_blocks := butlast (b # bc_blocks c)\<rparr>"

definition set_block :: "nat \<Rightarrow> 'tx cached_block \<Rightarrow> 'tx block_cache \<Rightarrow> 'tx block_cache" where
  "set_block i b c = c\<lparr>bc_blocks := (bc_blocks c)[i := b]\<rparr>"

text \<open>One round of the loop in \<open>check_and_fix_reorg\<close>; indexing past the end panics.\<close>

definition fix_step ::
  "('w, 'tx) rpc_ops \<Rightarrow> u64 \<Rightarrow> nat \<Rightarrow> nat \<Rightarrow> ('w, 'tx, 'e, nat) block_cache_act" where
  "fix_step R cache_height i updated =
     bind (read_state bc_blocks) (\<lambda>blocks.
       if Suc i < length blocks then
         if prev_id (cb_block (blocks ! i)) \<noteq> cb_id (blocks ! Suc i) then
           bind (rpc_call (fetch_block R (cache_height - 1 - of_nat i))) (\<lambda>b.
           bind (write_state (set_block (Suc i) b)) (\<lambda>_.
           ret (max updated 1 + 1)))
         else ret updated
       else stop Panic)"

definition check_and_fix_reorg :: "('w, 'tx) rpc_ops \<Rightarrow> ('w, 'tx, 'e, nat) block_cache_act" where
  "check_and_fix_reorg R =
     bind (read_state (\<lambda>c. (bc_height c, length (bc_blocks c)))) (\<lambda>(cache_height, len).
       if len = 0 then stop Panic
       else for_loop (fix_step R cache_height) [0..<len - 1] 0)"

definition block_cache_update :: "('w, 'tx) rpc_ops \<Rightarrow> ('w, 'tx, 'e, nat) block_cache_act" where
  "block_cache_update R =
     bind (rpc_call (rpc_daemon_height R)) (\<lambda>blockchain_height.
     bind (write_state (\<lambda>c. c\<lparr>bc_daemon_height := blockchain_height\<rparr>)) (\<lambda>_.
     bind (read_state bc_height) (\<lambda>height.
     bind (if height < blockchain_height - 1 then
             bind (rpc_call (fetch_block R (height + 1))) (\<lambda>b.
             bind (write_state (push_block b)) (\<lambda>_.
             bind (write_state (\<lambda>c. c\<lparr>bc_height := height + 1\<rparr>)) (\<lambda>_.
             ret 1)))
           else ret 0) (\<lambda>updated.
     bind (check_and_fix_reorg R) (\<lambda>fixed.
     ret (max updated fixed))))))"

definition skip_step ::
  "('w, 'tx) rpc_ops \<Rightarrow> u64 \<Rightarrow> nat \<Rightarrow> nat \<Rightarrow> ('w, 'tx, 'e, nat) block_cache_act" where
  "skip_step R blockchain_height i updated =
     (let height = blockchain_height - 1 - of_nat i in
      bind (rpc_call (fetch_block R height)) (\<lambda>b.
      bind (write_state (push_block b)) (\<lambda>_.
      bind (write_state (\<lambda>c. c\<lparr>bc_height := height\<rparr>)) (\<lambda>_.
      ret (updated + 1)))))"

definition block_cache_skip_ahead :: "('w, 'tx) rpc_ops \<Rightarrow> ('w, 'tx, 'e, nat) block_cache_act" where
  "block_cache_skip_ahead R =
     bind (read_state (\<lambda>c. (bc_height c, bc_cache_size c))) (\<lambda>(cache_height, cache_size).
     bind (rpc_call (rpc_daemon_height R)) (\<lambda>blockchain_height.
     bind (write_state (\<lambda>c. c\<lparr>bc_daemon_height := blockchain_height\<rparr>)) (\<lambda>_.
       if cache_height < blockchain_height - 1 then
         bind (for_loop (skip_step R blockchain_height)
                (rev [0..<unat (min (saturating_sub blockchain_height (cache_height + 1))
                                    (of_nat cache_size))]) 0) (\<lambda>updated.
         bind (check_and_fix_reorg R) (\<lambda>fixed.
         ret (max updated fixed)))
       else ret 0)))"

lemmas block_cache_defs =
  block_cache_update_def block_cache_skip_ahead_def check_and_fix_reorg_def

section \<open>For any daemon: shape and heights of the cache\<close>

definition heights_ok :: "u64 \<Rightarrow> 'tx cached_block list \<Rightarrow> bool" where
  "heights_ok h bs \<longleftrightarrow> (\<forall>i < length bs. cb_height (bs ! i) = h - of_nat i)"

definition bc_wf :: "'tx block_cache \<Rightarrow> bool" where
  "bc_wf c \<longleftrightarrow> 0 < bc_cache_size c \<and> length (bc_blocks c) = bc_cache_size c \<and>
     heights_ok (bc_height c) (bc_blocks c)"

lemma upt_split: "[0..<n] = pre @ i # post \<Longrightarrow> i = length pre \<and> i < n \<and> pre = [0..<i]"
proof -
  assume eq: "[0..<n] = pre @ i # post"
  then have len: "length pre < n" by (metis add_Suc_right diff_zero length_Cons length_append
        length_upt less_add_Suc1)
  then have "i = length pre"
    by (metis add_0 eq nth_append_length nth_upt)
  moreover from eq len have "pre = take (length pre) [0..<n]" by simp
  ultimately show ?thesis using len by simp
qed

lemma wp_fetch_block:
  assumes "\<And>b w'. cb_height b = h \<Longrightarrow> Q b w'" and "\<And>e w'. E e w'"
  shows "wp (fetch_block R h) Q E w"
  using assms
  by (auto simp: fetch_block_def wp_def bind_apply split: prod.splits sum.splits)

lemma length_push_block [simp]: "length (bc_blocks (push_block b c)) = length (bc_blocks c)"
  by (simp add: push_block_def)

lemma push_block_sel [simp]:
  "bc_height (push_block b c) = bc_height c"
  "bc_cache_size (push_block b c) = bc_cache_size c"
  "bc_daemon_height (push_block b c) = bc_daemon_height c"
  by (simp_all add: push_block_def)

lemma set_block_sel [simp]:
  "bc_height (set_block i b c) = bc_height c"
  "bc_cache_size (set_block i b c) = bc_cache_size c"
  "bc_daemon_height (set_block i b c) = bc_daemon_height c"
  "bc_blocks (set_block i b c) = (bc_blocks c)[i := b]"
  by (simp_all add: set_block_def)

lemma heights_ok_push:
  "heights_ok h bs \<Longrightarrow> cb_height b = h + 1 \<Longrightarrow> heights_ok (h + 1) (butlast (b # bs))"
  by (auto simp: heights_ok_def nth_butlast nth_Cons' less_diff_conv of_nat_diff)

lemma heights_ok_set:
  "heights_ok h bs \<Longrightarrow> cb_height b = h - of_nat i \<Longrightarrow> heights_ok h (bs[i := b])"
  unfolding heights_ok_def by (metis length_list_update nth_list_update_eq nth_list_update_neq)

text \<open>
  The repair keeps the shape and the heights whatever the daemon answers, fails only with the
  client's error, and reports at most as many blocks as the cache holds.
\<close>

lemma wp_check_and_fix_reorg_wf:
  fixes R :: "('w, 'tx) rpc_ops"
  assumes "bc_wf c"
  shows "wp (check_and_fix_reorg R)
           (\<lambda>n (c', w'). bc_wf c' \<and> bc_height c' = bc_height c \<and> n \<le> bc_cache_size c' \<and>
              bc_cache_size c' = bc_cache_size c)
           (\<lambda>e (c', w'). bc_wf c' \<and> bc_height c' = bc_height c \<and> bc_cache_size c' = bc_cache_size c \<and>
              (\<exists>e'. e = rpc_fault e'))
           (c, w)"
proof -
  let ?n = "length (bc_blocks c)" and ?h = "bc_height c"
  let ?J = "\<lambda>c'. bc_wf c' \<and> bc_height c' = ?h \<and> bc_cache_size c' = bc_cache_size c"
  have n: "?n = bc_cache_size c" "0 < ?n" using assms by (auto simp: bc_wf_def)
  have "wp (for_loop (fix_step R ?h) [0..<?n - 1] 0)
      (\<lambda>n (c', w'). ?J c' \<and> n \<le> bc_cache_size c')
      (\<lambda>e (c', w'). ?J c' \<and> (\<exists>e'. e = rpc_fault e')) (c, w)"
  proof (rule wp_for_loop [where I = "\<lambda>pre b (c', w'). ?J c' \<and> b \<le> Suc (length pre)"])
    show "case (c, w) of (c', w') \<Rightarrow> ?J c' \<and> 0 \<le> Suc (length [])" using assms by simp
  next
    fix pre i post b and s :: "'tx block_cache \<times> 'w"
    assume "[0..<?n - 1] = pre @ i # post"
      and "case s of (c', w') \<Rightarrow> ?J c' \<and> b \<le> Suc (length pre)"
    moreover obtain c' w' where s: "s = (c', w')" by (cases s)
    ultimately have i: "Suc i < ?n" "i = length pre" and J: "?J c'" and b: "b \<le> Suc i"
      by (auto dest: upt_split)
    have i': "Suc i < length (bc_blocks c')" using i(1) J n by (simp add: bc_wf_def)
    show "wp (fix_step R ?h i b)
        (\<lambda>b (c', w'). ?J c' \<and> b \<le> Suc (length (pre @ [i])))
        (\<lambda>e (c', w'). ?J c' \<and> (\<exists>e'. e = rpc_fault e')) s"
      using i' J b i(2)
      by (auto simp: s fix_step_def wp_simps bc_wf_def diff_diff_eq
          intro!: wp_fetch_block heights_ok_set)
  next
    fix b and s :: "'tx block_cache \<times> 'w"
    assume "case s of (c', w') \<Rightarrow> ?J c' \<and> b \<le> Suc (length [0..<?n - 1])"
    then show "case s of (c', w') \<Rightarrow> ?J c' \<and> b \<le> bc_cache_size c'" using n by auto
  qed
  then have "wp (for_loop (fix_step R ?h) [0..<?n - 1] 0)
      (\<lambda>n (c', w'). bc_wf c' \<and> bc_height c' = bc_height c \<and> n \<le> bc_cache_size c' \<and>
              bc_cache_size c' = bc_cache_size c)
      (\<lambda>e (c', w'). bc_wf c' \<and> bc_height c' = bc_height c \<and> bc_cache_size c' = bc_cache_size c \<and>
              (\<exists>e'. e = rpc_fault e')) (c, w)"
    by (rule wp_mono) auto
  with n(2) show ?thesis by (simp add: check_and_fix_reorg_def wp_simps)
qed

lemma wp_block_cache_update_wf:
  fixes R :: "('w, 'tx) rpc_ops"
  assumes "bc_wf c"
  shows "wp (block_cache_update R)
           (\<lambda>n (c', w'). bc_wf c' \<and> n \<le> bc_cache_size c' \<and> bc_cache_size c' = bc_cache_size c)
           (\<lambda>e (c', w'). bc_wf c' \<and> bc_cache_size c' = bc_cache_size c \<and> (\<exists>e'. e = rpc_fault e'))
           (c, w)"
proof -
  have repair: "wp (check_and_fix_reorg R) Q
      (\<lambda>e (c', w'). bc_wf c' \<and> bc_cache_size c' = bc_cache_size c \<and> (\<exists>e'. e = rpc_fault e'))
      (c1, w1)"
    if "bc_wf c1" "bc_cache_size c1 = bc_cache_size c"
      "\<And>n c' w'. bc_wf c' \<Longrightarrow> n \<le> bc_cache_size c' \<Longrightarrow> bc_cache_size c' = bc_cache_size c \<Longrightarrow> Q n (c', w')"
    for c1 w1 Q
    by (rule wp_mono [OF wp_check_and_fix_reorg_wf [OF that(1)]]) (use that in auto)
  have daemon: "bc_wf (c\<lparr>bc_daemon_height := H\<rparr>)" for H
    using assms by (simp add: bc_wf_def)
  have pushed: "bc_wf (push_block b (c\<lparr>bc_daemon_height := H\<rparr>)\<lparr>bc_height := bc_height c + 1\<rparr>)"
    if "cb_height b = bc_height c + 1" for b :: "'tx cached_block" and H
    using assms that heights_ok_push [of "bc_height c" "bc_blocks c" b]
    by (auto simp: bc_wf_def push_block_def)
  have "0 < bc_cache_size c" using assms by (simp add: bc_wf_def)
  then show ?thesis
    using assms daemon
    by (auto simp: block_cache_update_def wp_simps
        intro!: wp_I [of "rpc_daemon_height R"] wp_fetch_block repair pushed)
qed

section \<open>Against a daemon that serves one chain\<close>

text \<open>
  \<open>chain x\<close> is the block at height \<open>x\<close> of the daemon's main chain of height \<open>H\<close> (its top block is
  at \<open>H - 1\<close>). Blocks link to their predecessor's id, and while the world stays in \<open>W\<close> the
  daemon answers from this chain. A cached block is \<open>honest\<close> when the id of the chain's block
  at its height identifies it: block ids are hashes of the blocks.
\<close>

definition valid_chain :: "(u64 \<Rightarrow> 'tx cached_block) \<Rightarrow> u64 \<Rightarrow> bool" where
  "valid_chain chain H \<longleftrightarrow>
     (\<forall>x < H. cb_height (chain x) = x) \<and>
     (\<forall>x < H. 0 < x \<longrightarrow> prev_id (cb_block (chain x)) = cb_id (chain (x - 1)))"

definition serves ::
  "('w, 'tx) rpc_ops \<Rightarrow> 'w set \<Rightarrow> (u64 \<Rightarrow> 'tx cached_block) \<Rightarrow> u64 \<Rightarrow> bool" where
  "serves R W chain H \<longleftrightarrow>
     (\<forall>w \<in> W. \<exists>w' \<in> W. rpc_daemon_height R w = (Inr H, w')) \<and>
     (\<forall>x < H. \<forall>w \<in> W. \<exists>w' \<in> W.
        rpc_block R x w = (Inr (cb_id (chain x), cb_block (chain x)), w')) \<and>
     (\<forall>x < H. \<forall>w \<in> W. \<exists>w' \<in> W.
        rpc_block_transactions R (cb_block (chain x)) w = (Inr (cb_txs (chain x)), w'))"

definition honest :: "(u64 \<Rightarrow> 'tx cached_block) \<Rightarrow> u64 \<Rightarrow> 'tx cached_block \<Rightarrow> bool" where
  "honest chain H b \<longleftrightarrow>
     (cb_height b < H \<longrightarrow> cb_id b = cb_id (chain (cb_height b)) \<longrightarrow> b = chain (cb_height b))"

text \<open>The \<open>n\<close> blocks of the chain from height \<open>h\<close> down, as the cache holds them.\<close>

definition chain_top :: "(u64 \<Rightarrow> 'tx cached_block) \<Rightarrow> u64 \<Rightarrow> nat \<Rightarrow> 'tx cached_block list" where
  "chain_top chain h n = map (\<lambda>i. chain (h - of_nat i)) [0..<n]"

definition linked_from :: "nat \<Rightarrow> 'tx cached_block list \<Rightarrow> bool" where
  "linked_from k bs \<longleftrightarrow>
     (\<forall>i. k \<le> i \<longrightarrow> Suc i < length bs \<longrightarrow> prev_id (cb_block (bs ! i)) = cb_id (bs ! Suc i))"

lemma length_chain_top [simp]: "length (chain_top chain h n) = n"
  by (simp add: chain_top_def)

lemma nth_chain_top [simp]: "i < n \<Longrightarrow> chain_top chain h n ! i = chain (h - of_nat i)"
  by (simp add: chain_top_def)

lemma unat_sub_of_nat: "k \<le> unat h \<Longrightarrow> unat (h - of_nat k) = unat h - k" for h :: u64
proof -
  assume k: "k \<le> unat h"
  then have "unat (of_nat k :: u64) = k"
    using unsigned_less [of h, where ?'a = nat] by (simp add: unat_of_nat)
  with k show ?thesis by (simp add: unat_sub word_le_nat_alt)
qed

lemma pred_less: "x < H \<Longrightarrow> 0 < x \<Longrightarrow> x - 1 < H" for x H :: u64
proof -
  assume "x < H" "0 < x"
  moreover from \<open>0 < x\<close> have "unat (x - 1) = unat x - 1" by (intro unat_minus_one) auto
  ultimately show ?thesis by (simp add: word_less_nat_alt)
qed

lemma wp_fetch_served:
  assumes "serves R W chain H" and "valid_chain chain H" and "w \<in> W" and "x < H"
    and "\<And>w'. w' \<in> W \<Longrightarrow> Q (chain x) w'"
  shows "wp (fetch_block R x) Q E w"
proof -
  obtain w1 where w1: "w1 \<in> W" "rpc_block R x w = (Inr (cb_id (chain x), cb_block (chain x)), w1)"
    using assms(1,3,4) unfolding serves_def by blast
  obtain w2 where w2: "w2 \<in> W" "rpc_block_transactions R (cb_block (chain x)) w1 =
      (Inr (cb_txs (chain x)), w2)"
    using assms(1,4) w1(1) unfolding serves_def by blast
  have "chain x = (cb_id (chain x), x, cb_block (chain x), cb_txs (chain x))"
    using assms(2,4) by (simp add: valid_chain_def prod_eq_iff)
  then have "fetch_block R x w = (Inr (chain x), w2)"
    using w1(2) w2(2) by (simp add: fetch_block_def)
  with w2(1) assms(5) show ?thesis by (simp add: wp_def)
qed

lemma chain_top_overlay:
  assumes "Suc k < length bs"
  shows "(chain_top chain h (Suc k) @ drop (Suc k) bs)[Suc k := chain (h - of_nat (Suc k))] =
      chain_top chain h (Suc (Suc k)) @ drop (Suc (Suc k)) bs"
    and "bs ! Suc k = chain (h - of_nat (Suc k)) \<Longrightarrow>
      chain_top chain h (Suc k) @ drop (Suc k) bs =
      chain_top chain h (Suc (Suc k)) @ drop (Suc (Suc k)) bs"
  using Cons_nth_drop_Suc [OF assms]
  by (auto simp: list_update_append chain_top_def simp flip: Cons_nth_drop_Suc [OF assms]
      simp del: upt_Suc of_nat_Suc simp add: upt_Suc_append)

text \<open>
  The counter of repaired blocks: \<open>P j\<close> says that block \<open>j + 1\<close> is not on the chain, and once a
  block is on the chain all blocks below it are.
\<close>

lemma repair_count_step:
  fixes P :: "nat \<Rightarrow> bool"
  assumes stays: "\<And>j. \<not> P j \<Longrightarrow> Suc (Suc j) < n \<Longrightarrow> \<not> P (Suc j)" and k: "Suc k < n"
    and count: "\<forall>j < k. P j \<longrightarrow> Suc j < upd" "(\<exists>j < k. \<not> P j) \<or> k = 0 \<or> k < upd"
  shows "P k \<Longrightarrow> (\<forall>j < Suc k. P j \<longrightarrow> Suc j < max upd 1 + 1) \<and> Suc k < max upd 1 + 1"
    and "\<not> P k \<Longrightarrow> (\<forall>j < Suc k. P j \<longrightarrow> Suc j < upd) \<and> (\<exists>j < Suc k. \<not> P j)"
proof -
  have down: "\<not> P j \<Longrightarrow> j \<le> i \<Longrightarrow> i \<le> k \<Longrightarrow> \<not> P i" for i j
  proof (induction i)
    case (Suc i)
    then show ?case using stays [of i] k by (cases "j = Suc i") auto
  qed simp
  show "P k \<Longrightarrow> (\<forall>j < Suc k. P j \<longrightarrow> Suc j < max upd 1 + 1) \<and> Suc k < max upd 1 + 1"
  proof -
    assume "P k"
    then have "\<forall>j < k. P j" using down [of _ k] by (meson less_imp_le order_refl)
    then show ?thesis using count \<open>P k\<close> by (auto simp: less_Suc_eq less_max_iff_disj)
  qed
  show "\<not> P k \<Longrightarrow> (\<forall>j < Suc k. P j \<longrightarrow> Suc j < upd) \<and> (\<exists>j < Suc k. \<not> P j)"
    using count(1) by (auto simp: less_Suc_eq)
qed

text \<open>
  The repair loop after \<open>k\<close> steps: the first \<open>k + 1\<close> blocks are those of the chain, and as long as the
  blocks below the top were linked, \<open>upd\<close> counts past the last one that was not on the chain.
\<close>

definition off_chain :: "(u64 \<Rightarrow> 'tx cached_block) \<Rightarrow> u64 \<Rightarrow> 'tx cached_block list \<Rightarrow> nat \<Rightarrow> bool" where
  "off_chain chain h bs j \<longleftrightarrow> bs ! Suc j \<noteq> chain (h - of_nat (Suc j))"

definition repair_count :: "(u64 \<Rightarrow> 'tx cached_block) \<Rightarrow> u64 \<Rightarrow> 'tx cached_block list \<Rightarrow> nat \<Rightarrow> nat \<Rightarrow> bool" where
  "repair_count chain h bs k upd \<longleftrightarrow> (linked_from 1 bs \<longrightarrow>
     (\<forall>j < k. off_chain chain h bs j \<longrightarrow> Suc j < upd) \<and>
     ((\<exists>j < k. \<not> off_chain chain h bs j) \<or> k = 0 \<or> k < upd))"

definition repair_inv ::
  "'w set \<Rightarrow> (u64 \<Rightarrow> 'tx cached_block) \<Rightarrow> u64 \<Rightarrow> 'tx cached_block list \<Rightarrow> 'tx block_cache \<Rightarrow> nat \<Rightarrow> nat \<Rightarrow>
   'tx block_cache \<times> 'w \<Rightarrow> bool" where
  "repair_inv W chain h bs c k upd = (\<lambda>(c', w'). w' \<in> W \<and> repair_count chain h bs k upd \<and>
     c' = c\<lparr>bc_blocks := chain_top chain h (Suc k) @ drop (Suc k) bs\<rparr>)"

lemma step_below:
  fixes h H :: u64
  assumes "h < H" and "length bs \<le> Suc (unat h)" and "Suc k < length bs"
  shows "h - of_nat (Suc k) = h - of_nat k - 1" and "h - 1 - of_nat k = h - of_nat k - 1"
    and "h - of_nat k < H" and "0 < h - of_nat k" and "h - of_nat k - 1 < H"
proof -
  have "k \<le> unat h" using assms(2,3) by linarith
  then have x: "unat (h - of_nat k) = unat h - k" by (rule unat_sub_of_nat)
  show "h - of_nat (Suc k) = h - of_nat k - 1" "h - 1 - of_nat k = h - of_nat k - 1"
    by (simp_all add: diff_diff_eq)
  show range: "h - of_nat k < H" "0 < h - of_nat k"
    using assms x by (auto simp: word_less_nat_alt)
  show "h - of_nat k - 1 < H" by (rule pred_less [OF range])
qed

text \<open>A linked block below one on the chain is on the chain.\<close>

lemma on_chain_stays:
  assumes valid: "valid_chain chain H" and heights: "heights_ok h bs" and h: "h < H" "length bs \<le> Suc (unat h)"
    and honest: "\<forall>b \<in> set bs. honest chain H b"
    and j: "linked_from 1 bs" "\<not> off_chain chain h bs j" "Suc (Suc j) < length bs"
  shows "\<not> off_chain chain h bs (Suc j)"
proof -
  define x where "x = h - of_nat (Suc j)"
  note x = step_below [OF h j(3), folded x_def]
  have "prev_id (cb_block (bs ! Suc j)) = cb_id (bs ! Suc (Suc j))"
    using j(1,3) by (simp add: linked_from_def)
  moreover have "bs ! Suc j = chain x" using j(2) by (simp add: off_chain_def x_def)
  ultimately have "cb_id (bs ! Suc (Suc j)) = cb_id (chain (x - 1))"
    using valid x(3,4) by (simp add: valid_chain_def)
  moreover have "cb_height (bs ! Suc (Suc j)) = x - 1"
    using heights j(3) x(1) by (simp add: heights_ok_def del: of_nat_Suc)
  moreover have "honest chain H (bs ! Suc (Suc j))" using honest j(3) by simp
  ultimately have "bs ! Suc (Suc j) = chain (x - 1)" using x(5) by (simp add: honest_def)
  then show ?thesis unfolding off_chain_def by (simp only: x(1)) simp
qed

lemma wp_fix_step_chain:
  fixes R :: "('w, 'tx) rpc_ops"
  assumes serves: "serves R W chain H" and valid: "valid_chain chain H"
    and heights: "heights_ok h bs" and h: "h < H" "length bs \<le> Suc (unat h)"
    and honest: "\<forall>b \<in> set bs. honest chain H b"
    and I: "repair_inv W chain h bs c k upd s" and k: "Suc k < length bs"
  shows "wp (fix_step R h k upd :: ('w, 'tx, 'e, nat) block_cache_act)
    (repair_inv W chain h bs c (Suc k)) (\<lambda>_ _. False) s"
proof -
  define x where "x = h - of_nat k"
  note x = step_below [OF h k, folded x_def]
  define bs' where "bs' = chain_top chain h (Suc k) @ drop (Suc k) bs"
  obtain w' where s: "s = (c\<lparr>bc_blocks := bs'\<rparr>, w')" and w': "w' \<in> W" and count: "repair_count chain h bs k upd"
    using I by (cases s) (auto simp: repair_inv_def bs'_def)
  have link: "prev_id (cb_block (chain x)) = cb_id (chain (x - 1))"
    using valid x(3,4) by (simp add: valid_chain_def)
  have "cb_height (bs ! Suc k) = x - 1" "honest chain H (bs ! Suc k)"
    using heights honest k x(1) by (simp_all add: heights_ok_def del: of_nat_Suc)
  then have same: "cb_id (bs ! Suc k) = cb_id (chain (x - 1)) \<longleftrightarrow> \<not> off_chain chain h bs k"
    using x(5,1) by (auto simp: off_chain_def honest_def simp del: of_nat_Suc)
  have count': "off_chain chain h bs k \<Longrightarrow> repair_count chain h bs (Suc k) (max upd 1 + 1)"
    "\<not> off_chain chain h bs k \<Longrightarrow> repair_count chain h bs (Suc k) upd"
    using count repair_count_step [where P = "off_chain chain h bs",
        OF on_chain_stays [OF valid heights h honest] k]
    unfolding repair_count_def by blast+
  have bs': "length bs' = length bs" "bs' ! k = chain x" "bs' ! Suc k = bs ! Suc k"
    using k by (auto simp: bs'_def x_def nth_append)
  show ?thesis
  proof (cases "off_chain chain h bs k")
    case True
    have "repair_inv W chain h bs c (Suc k) (max upd 1 + 1) (set_block (Suc k) (chain (x - 1)) (c\<lparr>bc_blocks := bs'\<rparr>), w1)"
      if "w1 \<in> W" for w1
      using that count'(1) [OF True] chain_top_overlay(1) [OF k, of chain h]
      by (simp add: repair_inv_def bs'_def set_block_def x(1) del: of_nat_Suc)
    then have "wp (fetch_block R (x - 1)) (\<lambda>b w1. repair_inv W chain h bs c (Suc k) (max upd 1 + 1)
        (set_block (Suc k) b (c\<lparr>bc_blocks := bs'\<rparr>), w1)) (\<lambda>_ _. False) w'"
      by (rule wp_fetch_served [OF serves valid w' x(5)])
    with True same k bs' link show ?thesis
      by (simp only: s fix_step_def x(2) [folded x_def]) (simp add: wp_simps del: of_nat_Suc)
  next
    case False
    with same k bs' link have "(fix_step R h k upd :: ('w, 'tx, 'e, nat) block_cache_act) s = (Inr upd, s)"
      by (simp add: s fix_step_def bind_apply del: of_nat_Suc)
    moreover have "repair_inv W chain h bs c (Suc k) upd s"
      using False w' count'(2) chain_top_overlay(2) [OF k, of chain h]
      by (simp add: repair_inv_def off_chain_def s bs'_def del: of_nat_Suc)
    ultimately show ?thesis by (simp add: wp_def)
  qed
qed

lemma wp_repair_chain:
  fixes R :: "('w, 'tx) rpc_ops"
  assumes serves: "serves R W chain H" and valid: "valid_chain chain H" and w: "w \<in> W"
    and heights: "heights_ok h bs" and h: "h < H" "length bs \<le> Suc (unat h)"
    and top: "bs \<noteq> []" "bs ! 0 = chain h" and honest: "\<forall>b \<in> set bs. honest chain H b"
    and c: "bc_height c = h" "bc_blocks c = bs"
  shows "wp (check_and_fix_reorg R :: ('w, 'tx, 'e, nat) block_cache_act)
    (\<lambda>n (c', w'). w' \<in> W \<and> c' = c\<lparr>bc_blocks := chain_top chain h (length bs)\<rparr> \<and>
       (linked_from 1 bs \<longrightarrow> (\<forall>i < length bs. n \<le> i \<longrightarrow> bs ! i = chain (h - of_nat i))))
    (\<lambda>_ _. False) (c, w)"
proof -
  let ?n = "length bs" and ?I = "repair_inv W chain h bs c"
  have "wp (for_loop (fix_step R h) [0..<?n - 1] 0 :: ('w, 'tx, 'e, nat) block_cache_act)
    (?I (?n - 1)) (\<lambda>_ _. False) (c, w)"
  proof (rule wp_for_loop [where I = "\<lambda>pre. ?I (length pre)"])
    show "?I (length []) 0 (c, w)"
      using w top c by (cases bs) (auto simp: repair_inv_def repair_count_def chain_top_def)
  next
    fix pre k post upd and s :: "'tx block_cache \<times> 'w"
    assume split: "[0..<?n - 1] = pre @ k # post" and I: "?I (length pre) upd s"
    then have k: "length pre = k" "Suc k < ?n" by (auto dest: upt_split)
    from wp_fix_step_chain [OF serves valid heights h honest I [unfolded k(1)] k(2)]
    show "wp (fix_step R h k upd :: ('w, 'tx, 'e, nat) block_cache_act) (?I (length (pre @ [k]))) (\<lambda>_ _. False) s"
      by (simp add: k(1))
  qed simp
  then have "wp (for_loop (fix_step R h) [0..<?n - 1] 0 :: ('w, 'tx, 'e, nat) block_cache_act)
    (\<lambda>n (c', w'). w' \<in> W \<and> c' = c\<lparr>bc_blocks := chain_top chain h ?n\<rparr> \<and>
       (linked_from 1 bs \<longrightarrow> (\<forall>i < ?n. n \<le> i \<longrightarrow> bs ! i = chain (h - of_nat i))))
    (\<lambda>_ _. False) (c, w)"
  proof (rule wp_mono)
    fix n and s :: "'tx block_cache \<times> 'w"
    assume I: "?I (?n - 1) n s"
    have "bs ! i = chain (h - of_nat i)" if "linked_from 1 bs" "i < ?n" "n \<le> i" for i
    proof (cases i)
      case 0
      with top show ?thesis by simp
    next
      case (Suc j)
      with I that show ?thesis
        by (cases s) (auto simp: repair_inv_def repair_count_def off_chain_def less_diff_conv not_less)
    qed
    with I top(1) show "case s of (c', w') \<Rightarrow> w' \<in> W \<and> c' = c\<lparr>bc_blocks := chain_top chain h ?n\<rparr> \<and>
        (linked_from 1 bs \<longrightarrow> (\<forall>i < ?n. n \<le> i \<longrightarrow> bs ! i = chain (h - of_nat i)))"
      by (cases s) (auto simp: repair_inv_def)
  qed simp
  with top(1) c show ?thesis by (simp add: check_and_fix_reorg_def wp_simps)
qed

text \<open>
  What \<open>update\<close> needs of a cache to follow the chain: the shape, hash links from a time when the
  cache was consistent, honest blocks, heights above genesis, and a top block the daemon still
  has unless there is a newer one to fetch. The links may be those of a chain the daemon has
  left behind.
\<close>

definition can_follow :: "(u64 \<Rightarrow> 'tx cached_block) \<Rightarrow> u64 \<Rightarrow> 'tx block_cache \<Rightarrow> bool" where
  "can_follow chain H c \<longleftrightarrow>
     bc_wf c \<and> linked_from 0 (bc_blocks c) \<and> list_all (honest chain H) (bc_blocks c) \<and>
     bc_height c < H \<and> bc_cache_size c \<le> Suc (unat (bc_height c)) \<and>
     (bc_height c + 1 < H \<or> bc_blocks c ! 0 = chain (bc_height c))"

definition next_height :: "u64 \<Rightarrow> u64 \<Rightarrow> u64" where
  "next_height h H = (if h + 1 < H then h + 1 else h)"

lemma unat_succ: "h < H \<Longrightarrow> unat (h + 1) = unat h + 1" for h H :: u64
  using unsigned_less [of H, where ?'a = nat] by (simp add: unat_word_ariths word_less_nat_alt)

lemma less_pred_iff: "h < H \<Longrightarrow> h < H - 1 \<longleftrightarrow> h + 1 < H" for h H :: u64
proof -
  assume h: "h < H"
  moreover have "unat (H - 1) = unat H - 1"
    using h by (intro unat_minus_one) (auto simp: word_less_nat_alt)
  ultimately show ?thesis
    using unat_succ [OF h] by (simp add: word_less_nat_alt) linarith
qed

text \<open>The repair after a new block has been pushed.\<close>

lemma wp_repair_pushed:
  fixes R :: "('w, 'tx) rpc_ops"
  assumes serves: "serves R W chain H" and valid: "valid_chain chain H" and w: "w2 \<in> W"
    and c: "can_follow chain H c" and more: "bc_height c + 1 < H"
  shows "wp (check_and_fix_reorg R :: ('w, 'tx, 'e, nat) block_cache_act)
    (\<lambda>f (c', w'). w' \<in> W \<and>
       c' = c\<lparr>bc_daemon_height := H, bc_height := bc_height c + 1,
              bc_blocks := chain_top chain (bc_height c + 1) (bc_cache_size c)\<rparr> \<and>
       (\<forall>i. max 1 f \<le> i \<longrightarrow> i < bc_cache_size c \<longrightarrow> bc_blocks c' ! i \<in> set (bc_blocks c)))
    (\<lambda>_ _. False) (push_block (chain (bc_height c + 1)) (c\<lparr>bc_daemon_height := H\<rparr>)\<lparr>bc_height := bc_height c + 1\<rparr>, w2)"
proof -
  let ?h = "bc_height c" and ?bs = "bc_blocks c" and ?n = "bc_cache_size c"
  let ?bs' = "butlast (chain (?h + 1) # ?bs)"
  let ?c' = "push_block (chain (?h + 1)) (c\<lparr>bc_daemon_height := H\<rparr>)\<lparr>bc_height := ?h + 1\<rparr>"
  have h: "?h < H" "?n \<le> Suc (unat ?h)" and n: "length ?bs = ?n" "0 < ?n"
    and heights: "heights_ok ?h ?bs" and honest: "\<forall>b \<in> set ?bs. honest chain H b"
    and linked: "linked_from 0 ?bs"
    using c by (auto simp: can_follow_def bc_wf_def list_all_iff)
  have top: "cb_height (chain (?h + 1)) = ?h + 1" using valid more by (simp add: valid_chain_def)
  have link': "linked_from 1 ?bs'"
    using linked by (auto simp: linked_from_def nth_butlast nth_Cons')
  have honest': "\<forall>b \<in> set ?bs'. honest chain H b"
    using honest top by (auto simp: honest_def dest: in_set_butlastD)
  have length': "length ?bs' \<le> Suc (unat (?h + 1))"
    using h(2) n unat_succ [OF h(1)] by auto
  have heights': "heights_ok (?h + 1) ?bs'" by (rule heights_ok_push [OF heights top])
  have top': "?bs' \<noteq> []" "?bs' ! 0 = chain (?h + 1)" using n by (cases ?bs; simp)+
  have "wp (check_and_fix_reorg R :: ('w, 'tx, 'e, nat) block_cache_act)
    (\<lambda>n (c', w'). w' \<in> W \<and> c' = ?c'\<lparr>bc_blocks := chain_top chain (?h + 1) (length ?bs')\<rparr> \<and>
       (\<forall>i < length ?bs'. n \<le> i \<longrightarrow> ?bs' ! i = chain (?h + 1 - of_nat i)))
    (\<lambda>_ _. False) (?c', w2)"
    by (rule wp_mono [OF wp_repair_chain [OF serves valid w heights' more length' top' honest']])
      (use link' in \<open>auto simp: push_block_def\<close>)
  then show ?thesis
  proof (rule wp_mono)
    fix f and s :: "'tx block_cache \<times> 'w"
    assume post: "case s of (c', w') \<Rightarrow> w' \<in> W \<and>
      c' = ?c'\<lparr>bc_blocks := chain_top chain (?h + 1) (length ?bs')\<rparr> \<and>
      (\<forall>i < length ?bs'. f \<le> i \<longrightarrow> ?bs' ! i = chain (?h + 1 - of_nat i))"
    have "chain (?h + 1 - of_nat i) \<in> set ?bs" if i: "max 1 f \<le> i" "i < ?n" for i
    proof -
      have "?bs' ! i = chain (?h + 1 - of_nat i)" using post i n(1) by (cases s) auto
      moreover have "?bs' ! i \<in> set ?bs" using i n by (auto simp: nth_butlast nth_Cons')
      ultimately show ?thesis by simp
    qed
    with post n show "case s of (c', w') \<Rightarrow> w' \<in> W \<and>
        c' = c\<lparr>bc_daemon_height := H, bc_height := ?h + 1,
               bc_blocks := chain_top chain (?h + 1) ?n\<rparr> \<and>
        (\<forall>i. max 1 f \<le> i \<longrightarrow> i < ?n \<longrightarrow> bc_blocks c' ! i \<in> set ?bs)"
      by (cases s) (simp add: push_block_def del: butlast.simps)
  qed simp
qed

lemma wp_block_cache_update_chain:
  fixes R :: "('w, 'tx) rpc_ops"
  assumes serves: "serves R W chain H" and valid: "valid_chain chain H" and w: "w \<in> W"
    and c: "can_follow chain H c"
  shows "wp (block_cache_update R :: ('w, 'tx, 'e, nat) block_cache_act)
    (\<lambda>n (c', w'). w' \<in> W \<and>
       c' = c\<lparr>bc_daemon_height := H, bc_height := next_height (bc_height c) H,
              bc_blocks := chain_top chain (next_height (bc_height c) H) (bc_cache_size c)\<rparr> \<and>
       (\<forall>i. n \<le> i \<longrightarrow> i < bc_cache_size c \<longrightarrow> bc_blocks c' ! i \<in> set (bc_blocks c)))
    (\<lambda>_ _. False) (c, w)"
proof -
  let ?h = "bc_height c" and ?bs = "bc_blocks c" and ?n = "bc_cache_size c"
  have h: "?h < H" "?n \<le> Suc (unat ?h)" and n: "length ?bs = ?n" "0 < ?n"
    and heights: "heights_ok ?h ?bs" and honest: "\<forall>b \<in> set ?bs. honest chain H b"
    and linked: "linked_from 0 ?bs"
    using c by (auto simp: can_follow_def bc_wf_def list_all_iff)
  from serves w obtain w1 where w1: "w1 \<in> W" "rpc_daemon_height R w = (Inr H, w1)"
    unfolding serves_def by blast
  show ?thesis
  proof (cases "?h + 1 < H")
    case True
    then show ?thesis
      using w1 less_pred_iff [OF h(1)] wp_repair_pushed [OF serves valid _ c True]
      by (auto simp: block_cache_update_def next_height_def wp_simps wp_def [of "rpc_daemon_height R"]
          intro!: wp_fetch_served [OF serves valid])
  next
    case False
    have "wp (check_and_fix_reorg R :: ('w, 'tx, 'e, nat) block_cache_act)
      (\<lambda>f (c', w'). w' \<in> W \<and>
         c' = c\<lparr>bc_daemon_height := H, bc_height := ?h,
                bc_blocks := chain_top chain ?h ?n\<rparr> \<and>
         (\<forall>i. max 0 f \<le> i \<longrightarrow> i < ?n \<longrightarrow> bc_blocks c' ! i \<in> set ?bs))
      (\<lambda>_ _. False) (c\<lparr>bc_daemon_height := H\<rparr>, w1)"
      by (rule wp_mono [OF wp_repair_chain [OF serves valid w1(1) heights h(1)]])
        (use c False honest linked h n in \<open>auto simp: can_follow_def linked_from_def in_set_conv_nth\<close>)
    with w1(2) False less_pred_iff [OF h(1)] show ?thesis
      by (simp add: block_cache_update_def next_height_def wp_simps wp_def [of "rpc_daemon_height R"])
  qed
qed

text \<open>A cache whose blocks are linked is left alone by the repair, whatever the daemon's chain is.\<close>

lemma check_and_fix_reorg_linked:
  fixes R :: "('w, 'tx) rpc_ops"
  assumes "linked_from 0 (bc_blocks c)" and "bc_blocks c \<noteq> []"
  shows "check_and_fix_reorg R (c, w) = (Inr 0 :: 'e accept_xmr_error fault + nat, (c, w))"
proof -
  let ?n = "length (bc_blocks c) - 1"
  have "wp (for_loop (fix_step R h) [0..<?n] 0 :: ('w, 'tx, 'e, nat) block_cache_act)
    (\<lambda>n s. n = 0 \<and> s = (c, w)) (\<lambda>_ _. False) (c, w)" for h
  proof (rule wp_for_loop [where I = "\<lambda>_ n s. n = 0 \<and> s = (c, w)"])
    fix pre i post and n :: nat and s :: "'tx block_cache \<times> 'w"
    assume "[0..<?n] = pre @ i # post" and s: "n = 0 \<and> s = (c, w)"
    then have "Suc i < length (bc_blocks c)" by (auto dest: upt_split)
    with assms(1) s show "wp (fix_step R h i n :: ('w, 'tx, 'e, nat) block_cache_act)
        (\<lambda>n s. n = 0 \<and> s = (c, w)) (\<lambda>_ _. False) s"
      by (simp add: fix_step_def wp_simps linked_from_def)
  qed simp_all
  from wp_total [OF this] assms(2) show ?thesis by (auto simp: check_and_fix_reorg_def)
qed

text \<open>
  So without a newer block at the daemon an update changes nothing but the daemon's height, also
  when the daemon has replaced the top block or has a shorter chain.
\<close>

lemma block_cache_update_no_new_block:
  fixes R :: "('w, 'tx) rpc_ops"
  assumes height: "rpc_daemon_height R w = (Inr H, w')" and old: "\<not> bc_height c < H - 1"
    and c: "linked_from 0 (bc_blocks c)" "bc_blocks c \<noteq> []"
  shows "block_cache_update R (c, w) =
    (Inr 0 :: 'e accept_xmr_error fault + nat, (c\<lparr>bc_daemon_height := H\<rparr>, w'))"
proof -
  have "check_and_fix_reorg R (c\<lparr>bc_daemon_height := H\<rparr>, w') =
      (Inr 0 :: 'e accept_xmr_error fault + nat, (c\<lparr>bc_daemon_height := H\<rparr>, w'))"
    using c by (intro check_and_fix_reorg_linked) simp_all
  with height old show ?thesis by (simp add: block_cache_update_def)
qed

section \<open>Catching up\<close>

lemma honest_chain: "valid_chain chain H \<Longrightarrow> x < H \<Longrightarrow> honest chain H (chain x)"
  by (simp add: honest_def valid_chain_def)

lemma linked_chain_top:
  assumes valid: "valid_chain chain H" and h: "h < H" and n: "n \<le> Suc (unat h)"
  shows "linked_from 0 (chain_top chain h n)"
  unfolding linked_from_def
proof (intro allI impI)
  fix i assume i: "Suc i < length (chain_top chain h n)"
  then have "i \<le> unat h" "i < unat h" using n by simp_all
  then have x: "h - of_nat i < H" "0 < h - of_nat i"
    using h by (simp_all add: word_less_nat_alt unat_sub_of_nat)
  have "chain (h - of_nat (Suc i)) = chain (h - of_nat i - 1)" by (simp add: algebra_simps)
  with i x valid show "prev_id (cb_block (chain_top chain h n ! i)) = cb_id (chain_top chain h n ! Suc i)"
    by (simp add: valid_chain_def del: of_nat_Suc)
qed

lemma can_follow_chain_top:
  assumes valid: "valid_chain chain H" and h: "h < H" and n: "0 < n" "n \<le> Suc (unat h)"
    and c: "bc_height c = h" "bc_cache_size c = n" "bc_blocks c = chain_top chain h n"
  shows "can_follow chain H c"
proof -
  have le: "h - of_nat i < H" if "i < n" for i
    using that n h by (simp add: word_less_nat_alt unat_sub_of_nat)
  have "heights_ok h (chain_top chain h n)"
    using valid le by (simp add: heights_ok_def valid_chain_def)
  moreover have "list_all (honest chain H) (chain_top chain h n)"
    using valid le by (auto simp: chain_top_def list_all_iff intro: honest_chain)
  moreover note linked_chain_top [OF valid h n(2)]
  ultimately show ?thesis using n h c by (simp add: can_follow_def bc_wf_def)
qed

text \<open>
  A cache that holds the top of the daemon's chain counts one updated block for a new block, and
  none without one.
\<close>

lemma wp_block_cache_update_count:
  fixes R :: "('w, 'tx) rpc_ops"
  assumes serves: "serves R W chain H" and valid: "valid_chain chain H" and w: "w \<in> W"
    and c: "can_follow chain H c" and top: "bc_blocks c = chain_top chain (bc_height c) (bc_cache_size c)"
  shows "wp (block_cache_update R :: ('w, 'tx, 'e, nat) block_cache_act)
    (\<lambda>n _. n = (if bc_height c + 1 < H then 1 else 0)) (\<lambda>_ _. False) (c, w)"
proof -
  let ?h = "bc_height c" and ?n = "bc_cache_size c"
  have h: "?h < H" "?n \<le> Suc (unat ?h)" and n: "length (bc_blocks c) = ?n" "0 < ?n"
    using c by (auto simp: can_follow_def bc_wf_def)
  from serves w obtain w1 where w1: "w1 \<in> W" "rpc_daemon_height R w = (Inr H, w1)"
    unfolding serves_def by blast
  show ?thesis
  proof (cases "?h + 1 < H")
    case False
    have "linked_from 0 (bc_blocks c)" unfolding top by (rule linked_chain_top [OF valid h])
    moreover have "bc_blocks c \<noteq> []" using n by auto
    moreover have "\<not> ?h < H - 1" using False less_pred_iff [OF h(1)] by simp
    ultimately have "block_cache_update R (c, w) =
        (Inr 0 :: 'e accept_xmr_error fault + nat, (c\<lparr>bc_daemon_height := H\<rparr>, w1))"
      by (intro block_cache_update_no_new_block w1(2))
    with False show ?thesis by (simp add: wp_def)
  next
    case True
    let ?c' = "push_block (chain (?h + 1)) (c\<lparr>bc_daemon_height := H\<rparr>)\<lparr>bc_height := ?h + 1\<rparr>"
    have ne: "bc_blocks c \<noteq> []" using n by auto
    have old: "bc_blocks c ! j = chain (?h - of_nat j)" if "j < ?n" for j
      unfolding top using that by simp
    have blocks: "bc_blocks ?c' = chain_top chain (?h + 1) ?n"
    proof (rule nth_equalityI)
      fix i assume "i < length (bc_blocks ?c')"
      then have i: "i < ?n" using n by (simp add: push_block_def split: if_splits)
      show "bc_blocks ?c' ! i = chain_top chain (?h + 1) ?n ! i"
        using i n old by (cases i) (simp_all add: push_block_def nth_butlast ne)
    qed (use n in \<open>simp add: push_block_def ne\<close>)
    have "linked_from 0 (bc_blocks ?c')"
      unfolding blocks by (rule linked_chain_top [OF valid True]) (use h(2) unat_succ [OF h(1)] in simp)
    moreover have "bc_blocks ?c' \<noteq> []"
      unfolding blocks using n(2) length_chain_top [of chain "?h + 1" ?n] by fastforce
    ultimately have "check_and_fix_reorg R (?c', w2) = (Inr 0 :: 'e accept_xmr_error fault + nat, (?c', w2))" for w2
      by (rule check_and_fix_reorg_linked)
    then have repair: "wp (check_and_fix_reorg R :: ('w, 'tx, 'e, nat) block_cache_act)
        (\<lambda>f _. f = 0) (\<lambda>_ _. False) (?c', w2)" for w2
      by (simp add: wp_def)
    show ?thesis
      using w1 True less_pred_iff [OF h(1)]
      by (auto simp: block_cache_update_def wp_simps wp_def [of "rpc_daemon_height R"]
          intro!: wp_fetch_served [OF serves valid] wp_mono [OF repair])
  qed
qed

text \<open>
  Once the cache can follow the chain, \<open>k\<close> updates raise it by \<open>k\<close> blocks, or to the tip, and
  leave exactly the chain's blocks in it.
\<close>

lemma wp_catch_up:
  fixes R :: "('w, 'tx) rpc_ops"
  assumes serves: "serves R W chain H" and valid: "valid_chain chain H" and w: "w \<in> W"
    and c: "can_follow chain H c" and k: "0 < k" "unat (bc_height c) + k < unat H"
  shows "wp (for_loop (\<lambda>_ _. block_cache_update R :: ('w, 'tx, 'e, nat) block_cache_act) [0..<k] u)
    (\<lambda>_ (c', w'). w' \<in> W \<and> can_follow chain H c' \<and>
       bc_height c' = bc_height c + of_nat k \<and> bc_cache_size c' = bc_cache_size c \<and>
       bc_blocks c' = chain_top chain (bc_height c + of_nat k) (bc_cache_size c))
    (\<lambda>_ _. False) (c, w)"
proof -
  let ?h = "bc_height c" and ?n = "bc_cache_size c"
  let ?I = "\<lambda>j (c', w'). w' \<in> W \<and> can_follow chain H c' \<and>
       bc_height c' = ?h + of_nat j \<and> bc_cache_size c' = ?n \<and>
       (0 < j \<longrightarrow> bc_blocks c' = chain_top chain (?h + of_nat j) ?n)"
  have n: "0 < ?n" "?n \<le> Suc (unat ?h)" using c by (auto simp: can_follow_def bc_wf_def)
  have small: "unat (?h + of_nat j) = unat ?h + j" if "j \<le> k" for j
    using that k(2) unsigned_less [of H, where ?'a = nat]
    by (simp add: unat_word_ariths unat_of_nat)
  have "wp (for_loop (\<lambda>_ _. block_cache_update R :: ('w, 'tx, 'e, nat) block_cache_act) [0..<k] u)
    (\<lambda>_. ?I k) (\<lambda>_ _. False) (c, w)"
  proof (rule wp_for_loop [where I = "\<lambda>pre _. ?I (length pre)"])
    show "?I (length []) (c, w)" using w c by simp
  next
    fix pre i post b and s :: "'tx block_cache \<times> 'w"
    assume "[0..<k] = pre @ i # post" and "?I (length pre) s"
    then obtain c1 w1 where s: "s = (c1, w1)" and i: "length pre = i" "i < k"
      and w1: "w1 \<in> W" and c1: "can_follow chain H c1" "bc_height c1 = ?h + of_nat i"
        "bc_cache_size c1 = ?n"
      by (cases s) (auto dest: upt_split)
    let ?h' = "?h + of_nat (Suc i)"
    have h': "next_height (bc_height c1) H = ?h'" "?h' < H" "?n \<le> Suc (unat ?h')"
      using small [of "Suc i"] i(2) k(2) n(2)
      by (simp_all add: next_height_def c1(2) word_less_nat_alt algebra_simps)
    show "wp (block_cache_update R :: ('w, 'tx, 'e, nat) block_cache_act)
        (\<lambda>_. ?I (length (pre @ [i]))) (\<lambda>_ _. False) s"
      unfolding s
      by (rule wp_mono [OF wp_block_cache_update_chain [OF serves valid w1 c1(1)]])
        (use i h' c1(3) n(1) in \<open>auto intro!: can_follow_chain_top [OF valid h'(2)]\<close>)
  qed simp
  then show ?thesis by (rule wp_mono) (use k(1) in auto)
qed

end
