(* ===== verification/Txpool_Cache.thy ===== *)
theory Txpool_Cache
  imports Rpc_Ops
begin

text \<open>
  \<open>src/src/caching/txpool_cache.rs\<close>: the transactions of the daemon's txpool by hash, and the
  transfers found in them so far. \<open>tx_hash\<close> is the hash function of \<open>monero\<close>. In \<open>update\<close> the
  pruning of the cache and the request for the new transactions are joined futures; both run to
  their end, so the pruning happens also when the request fails.
\<close>

record 'tx txpool_cache =
  tp_transactions :: "(hash, 'tx) hash_map"
  tp_discovered :: "(hash, (sub_index \<times> transfer) list) hash_map"

type_synonym ('w, 'tx, 'e, 'a) txpool_cache_act =
  "('tx txpool_cache \<times> 'w, 'e accept_xmr_error fault, 'a) act"

definition by_hash :: "('tx \<Rightarrow> hash) \<Rightarrow> 'tx list \<Rightarrow> (hash \<times> 'tx) list" where
  "by_hash tx_hash txs = map (\<lambda>tx. (tx_hash tx, tx)) txs"

definition txpool_cache_init ::
  "('w, 'tx) rpc_ops \<Rightarrow> ('tx \<Rightarrow> hash) \<Rightarrow> ('w, rpc_failure, 'tx txpool_cache) act" where
  "txpool_cache_init R tx_hash =
     bind (rpc_txpool R) (\<lambda>txs.
     ret \<lparr>tp_transactions = hm_extend [] (by_hash tx_hash txs), tp_discovered = []\<rparr>)"

definition retain_hashes :: "hash list \<Rightarrow> 'tx txpool_cache \<Rightarrow> 'tx txpool_cache" where
  "retain_hashes txpool_hashes c =
     c\<lparr>tp_transactions := hm_retain (\<lambda>k. k \<in> set txpool_hashes) (tp_transactions c),
       tp_discovered := hm_retain (\<lambda>k. k \<in> set txpool_hashes) (tp_discovered c)\<rparr>"

definition txpool_cache_update ::
  "('w, 'tx) rpc_ops \<Rightarrow> ('tx \<Rightarrow> hash) \<Rightarrow> ('w, 'tx, 'e, 'tx list) txpool_cache_act" where
  "txpool_cache_update R tx_hash =
     bind (rpc_call (rpc_txpool_hashes R)) (\<lambda>txpool_hashes.
     bind (read_state (\<lambda>c. filter (\<lambda>h. \<not> hm_contains_key (tp_transactions c) h) txpool_hashes))
       (\<lambda>new_hashes.
     bind (write_state (retain_hashes txpool_hashes)) (\<lambda>_.
     bind (rpc_call (rpc_transactions_by_hashes R new_hashes)) (\<lambda>new_transactions.
     bind (write_state (\<lambda>c. c\<lparr>tp_transactions :=
             hm_extend (tp_transactions c) (by_hash tx_hash new_transactions)\<rparr>)) (\<lambda>_.
     ret new_transactions)))))"

definition insert_transfers ::
  "(hash, (sub_index \<times> transfer) list) hash_map \<Rightarrow> 'tx txpool_cache \<Rightarrow> 'tx txpool_cache" where
  "insert_transfers found c = c\<lparr>tp_discovered := hm_extend (tp_discovered c) found\<rparr>"

section \<open>Facts\<close>

definition tp_wf :: "'tx txpool_cache \<Rightarrow> bool" where
  "tp_wf c \<longleftrightarrow> hm_wf (tp_transactions c) \<and> hm_wf (tp_discovered c)"

abbreviation cached_hashes :: "'tx txpool_cache \<Rightarrow> hash set" where
  "cached_hashes c \<equiv> fst ` set (tp_transactions c)"

lemma keys_by_hash [simp]: "fst ` set (by_hash tx_hash txs) = tx_hash ` set txs"
  by (force simp: by_hash_def)

lemma cached_hashes_init:
  assumes "txpool_cache_init R tx_hash w = (Inr c, w')" and "rpc_txpool R w = (Inr txs, w1)"
  shows "cached_hashes c = tx_hash ` set txs" and "tp_discovered c = []" and "tp_wf c"
proof -
  have "c = \<lparr>tp_transactions = hm_extend [] (by_hash tx_hash txs), tp_discovered = []\<rparr>"
    using assms by (auto simp: txpool_cache_init_def)
  then show "cached_hashes c = tx_hash ` set txs" and "tp_discovered c = []" and "tp_wf c"
    by (simp_all add: keys_hm_extend tp_wf_def)
qed

text \<open>
  A refresh that succeeds has asked for the hashes of the pool it did not have, and for no other,
  and has dropped what has left the pool.
\<close>

lemma txpool_cache_update_eq:
  assumes hashes: "rpc_txpool_hashes R w = (Inr pool, w1)"
    and new: "new = filter (\<lambda>h. h \<notin> cached_hashes c) pool"
    and txs: "rpc_transactions_by_hashes R new w1 = (r, w2)"
  shows "txpool_cache_update R tx_hash (c, w) =
    (case r of
       Inl e \<Rightarrow> (Inl (rpc_fault e), (retain_hashes pool c, w2))
     | Inr got \<Rightarrow> (Inr got, ((retain_hashes pool c)\<lparr>tp_transactions :=
          hm_extend (tp_transactions (retain_hashes pool c)) (by_hash tx_hash got)\<rparr>, w2)))"
proof -
  have "filter (\<lambda>h. \<not> hm_contains_key (tp_transactions c) h) pool = new"
    by (simp add: new hm_contains_key_iff)
  with hashes txs show ?thesis
    by (simp add: txpool_cache_update_def bind_apply rpc_call_apply split: sum.splits)
qed

lemma cached_hashes_update:
  assumes "rpc_txpool_hashes R w = (Inr pool, w1)"
    and "rpc_transactions_by_hashes R (filter (\<lambda>h. h \<notin> cached_hashes c) pool) w1 = (Inr got, w2)"
    and "tx_hash ` set got = set pool - cached_hashes c"
  shows "\<exists>c'. txpool_cache_update R tx_hash (c, w) = (Inr got, (c', w2)) \<and>
    cached_hashes c' = set pool \<and>
    tp_discovered c' = hm_retain (\<lambda>k. k \<in> set pool) (tp_discovered c)"
proof -
  have "{k \<in> cached_hashes c. k \<in> set pool} \<union> (set pool - cached_hashes c) = set pool" by blast
  with assms(3) show ?thesis
    by (simp add: txpool_cache_update_eq [OF assms(1) refl assms(2)] retain_hashes_def
        keys_hm_extend keys_hm_retain)
qed

lemma txpool_cache_update_wf:
  fixes R :: "('w, 'tx) rpc_ops"
  assumes "tp_wf c"
    and "(txpool_cache_update R tx_hash :: ('w, 'tx, 'e, 'tx list) txpool_cache_act) (c, w) = (r, (c', w'))"
  shows "tp_wf c'"
proof -
  have "wp (txpool_cache_update R tx_hash :: ('w, 'tx, 'e, 'tx list) txpool_cache_act) (\<lambda>_ (c', w'). tp_wf c') (\<lambda>_ (c', w'). tp_wf c') (c, w)"
    using assms(1)
    by (auto simp: txpool_cache_update_def wp_simps tp_wf_def retain_hashes_def intro!: wp_I)
  with assms(2) show ?thesis by (auto simp: wp_def split: sum.splits)
qed

end
