(* ===== verification/Pubsub.thy ===== *)
theory Pubsub
  imports Errors
begin

text \<open>
  \<open>src/src/pubsub.rs\<close>: publishing invoice updates to subscribers. A subscription is a bounded
  FIFO channel; the publisher keeps the senders, per invoice and for all invoices, in the order
  of an \<open>IndexMap\<close>, and the subscriber keeps the receiver. The channels live in a store addressed
  by their number, since sender and receiver share them. Random sender ids are arguments.
\<close>

section \<open>Channels\<close>

definition subscription_buffer_len :: nat where
  "subscription_buffer_len = 2048"

record channel =
  ch_queue :: "invoice list"
  ch_open :: bool

definition new_channel :: channel where
  "new_channel = \<lparr>ch_queue = [], ch_open = True\<rparr>"

type_synonym sender_id = "128 word"
type_synonym address = nat

record publisher =
  pb_invoice_subs :: "(invoice_id, (sender_id, address) index_map) hash_map"
  pb_global_subs :: "(sender_id, address) index_map"
  pb_channels :: "channel list"

text \<open>
  \<open>Sender::send\<close>: an error when the receiver is gone, else the value is queued, once there is
  room for it.
\<close>

datatype send_result = Sent publisher | Closed | Full

definition channel_send :: "invoice \<Rightarrow> address \<Rightarrow> publisher \<Rightarrow> send_result" where
  "channel_send ivc a p =
     (let ch = pb_channels p ! a in
      if \<not> ch_open ch then Closed
      else if subscription_buffer_len \<le> length (ch_queue ch) then Full
      else Sent (p\<lparr>pb_channels := (pb_channels p)[a := ch\<lparr>ch_queue := ch_queue ch @ [ivc]\<rparr>]\<rparr>))"

section \<open>The publisher\<close>

definition publisher_new :: publisher where
  "publisher_new = \<lparr>pb_invoice_subs = [], pb_global_subs = [], pb_channels = []\<rparr>"

definition subscribe :: "sender_id \<Rightarrow> invoice_id \<Rightarrow> publisher \<Rightarrow> address option \<times> publisher" where
  "subscribe sid k p =
     (case map_of (pb_invoice_subs p) k of
        None \<Rightarrow> (None, p)
      | Some subs \<Rightarrow>
          (let a = length (pb_channels p) in
           (Some a, p\<lparr>pb_channels := pb_channels p @ [new_channel],
                      pb_invoice_subs := hm_insert k (im_insert sid a subs) (pb_invoice_subs p)\<rparr>)))"

definition subscribe_all :: "sender_id \<Rightarrow> publisher \<Rightarrow> address \<times> publisher" where
  "subscribe_all sid p =
     (let a = length (pb_channels p) in
      (a, p\<lparr>pb_channels := pb_channels p @ [new_channel],
            pb_global_subs := im_insert sid a (pb_global_subs p)\<rparr>))"

definition publisher_insert_invoice :: "invoice_id \<Rightarrow> publisher \<Rightarrow> publisher" where
  "publisher_insert_invoice k p = p\<lparr>pb_invoice_subs := hm_insert k [] (pb_invoice_subs p)\<rparr>"

definition publisher_remove_invoice :: "invoice_id \<Rightarrow> publisher \<Rightarrow> publisher" where
  "publisher_remove_invoice k p = p\<lparr>pb_invoice_subs := AList.delete k (pb_invoice_subs p)\<rparr>"

text \<open>The senders of an invoice, or the global ones.\<close>

definition subs_of :: "invoice_id option \<Rightarrow> publisher \<Rightarrow> (sender_id, address) index_map" where
  "subs_of key p =
     (case key of
        None \<Rightarrow> pb_global_subs p
      | Some k \<Rightarrow> (case map_of (pb_invoice_subs p) k of None \<Rightarrow> [] | Some subs \<Rightarrow> subs))"

definition get_sender_by_index ::
  "invoice_id option \<Rightarrow> nat \<Rightarrow> publisher \<Rightarrow> (sender_id \<times> address) option" where
  "get_sender_by_index key i p = im_get_index (subs_of key p) i"

definition remove_sender :: "invoice_id option \<Rightarrow> sender_id \<Rightarrow> publisher \<Rightarrow> publisher" where
  "remove_sender key sid p =
     (case key of
        None \<Rightarrow> p\<lparr>pb_global_subs := im_remove sid (pb_global_subs p)\<rparr>
      | Some k \<Rightarrow>
          (case map_of (pb_invoice_subs p) k of
             None \<Rightarrow> p
           | Some subs \<Rightarrow>
               p\<lparr>pb_invoice_subs := hm_insert k (im_remove sid subs) (pb_invoice_subs p)\<rparr>))"

lemma subs_of_remove_sender:
  "subs_of key' (remove_sender key sid p) =
     (if key' = key then im_remove sid (subs_of key p) else subs_of key' p)"
  by (auto simp: subs_of_def remove_sender_def update_conv' im_remove_def split: option.splits)

lemma pb_channels_remove_sender [simp]: "pb_channels (remove_sender key sid p) = pb_channels p"
  by (auto simp: remove_sender_def split: option.splits)

lemma subs_of_pb_channels [simp]: "subs_of key (p\<lparr>pb_channels := chs\<rparr>) = subs_of key p"
  by (simp add: subs_of_def split: option.splits)

lemma channel_send_Sent:
  "channel_send ivc a p = Sent p' \<Longrightarrow>
   p' = p\<lparr>pb_channels := (pb_channels p)[a := (pb_channels p ! a)\<lparr>ch_queue :=
           ch_queue (pb_channels p ! a) @ [ivc]\<rparr>]\<rparr>"
  by (auto simp: channel_send_def Let_def split: if_splits)

lemma get_sender_Some:
  "get_sender_by_index key i p = Some (sid, a) \<longleftrightarrow>
     i < length (subs_of key p) \<and> subs_of key p ! i = (sid, a)"
  by (auto simp: get_sender_by_index_def im_get_index_def)

lemma removed_less:
  assumes "i < length subs" and "subs ! i = (sid, a)"
  shows "length (im_remove sid subs) - i < length subs - i"
proof -
  from assms have "sid \<in> fst ` set subs"
    by (metis fst_conv image_eqI nth_mem)
  then show ?thesis using assms(1) by (simp add: length_im_remove)
qed

text \<open>
  One of the two loops of \<open>send_updates\<close>. \<open>closed\<close> is set by the first failing send and never
  reset, as in the code.
\<close>

function send_loop ::
  "invoice \<Rightarrow> invoice_id option \<Rightarrow> nat \<Rightarrow> bool \<Rightarrow> publisher \<Rightarrow> ('e fault + unit) \<times> publisher" where
  "send_loop ivc key i closed p =
     (case get_sender_by_index key i p of
        None \<Rightarrow> (Inr (), p)
      | Some (sid, a) \<Rightarrow>
          (case channel_send ivc a p of
             Full \<Rightarrow> (Inl Blocked, p)
           | Closed \<Rightarrow> send_loop ivc key i True (remove_sender key sid p)
           | Sent p' \<Rightarrow>
               if closed then send_loop ivc key i closed (remove_sender key sid p')
               else send_loop ivc key (Suc i) closed p'))"
  by pat_completeness auto
termination
  by (relation "measure (\<lambda>(ivc, key, i, closed, p). length (subs_of key p) - i)")
    (auto simp: subs_of_remove_sender get_sender_Some dest!: channel_send_Sent intro: removed_less)

declare send_loop.simps [simp del]

definition send_updates :: "invoice \<Rightarrow> (publisher, 'e fault, unit) act" where
  "send_updates ivc =
     bind (send_loop ivc (Some (invoice_id ivc)) 0 False) (\<lambda>_. send_loop ivc None 0 False)"

section \<open>The subscriber\<close>

text \<open>
  \<open>Subscriber\<close>: taking the oldest update; with none waiting, the channel is disconnected once the
  publisher has dropped the sender. Dropping the subscriber closes the channel.
\<close>

definition sender_alive :: "address \<Rightarrow> publisher \<Rightarrow> bool" where
  "sender_alive a p \<longleftrightarrow>
     list_ex (\<lambda>(_, subs). a \<in> snd ` set subs) (pb_invoice_subs p) \<or> a \<in> snd ` set (pb_global_subs p)"

definition try_recv :: "address \<Rightarrow> (publisher, subscriber_error, invoice) act" where
  "try_recv a p =
     (case ch_queue (pb_channels p ! a) of
        ivc # q \<Rightarrow> (Inr ivc, p\<lparr>pb_channels := (pb_channels p)[a := (pb_channels p ! a)\<lparr>ch_queue := q\<rparr>]\<rparr>)
      | [] \<Rightarrow> (Inl (TryRecv (if sender_alive a p then ChannelEmpty else ChannelDisconnected)), p))"

text \<open>
  The waiting receives. A receive that has to wait is \<open>Pending\<close>; awaited with no one to send, it is
  \<open>Blocked\<close>, and within a time limit in which nothing is sent it fails.
\<close>

datatype 'a poll = Pending | Ready 'a

definition subscriber_poll :: "address \<Rightarrow> publisher \<Rightarrow> invoice option poll \<times> publisher" where
  "subscriber_poll a p =
     (case ch_queue (pb_channels p ! a) of
        ivc # q \<Rightarrow> (Ready (Some ivc), p\<lparr>pb_channels := (pb_channels p)[a := (pb_channels p ! a)\<lparr>ch_queue := q\<rparr>]\<rparr>)
      | [] \<Rightarrow> (if sender_alive a p then Pending else Ready None, p))"

definition recv :: "address \<Rightarrow> (publisher, subscriber_error fault, invoice option) act" where
  "recv a p = (case subscriber_poll a p of
       (Pending, p') \<Rightarrow> (Inl Blocked, p')
     | (Ready r, p') \<Rightarrow> (Inr r, p'))"

definition blocking_recv :: "bool \<Rightarrow> address \<Rightarrow> (publisher, subscriber_error fault, invoice option) act" where
  "blocking_recv in_async_context a p = (if in_async_context then (Inl Panic, p) else recv a p)"

definition recv_timeout :: "address \<Rightarrow> (publisher, subscriber_error fault, invoice option) act" where
  "recv_timeout a p = (case subscriber_poll a p of
       (Pending, p') \<Rightarrow> (Inl (Raise (RecvTimeout ''deadline has elapsed'')), p')
     | (Ready r, p') \<Rightarrow> (Inr r, p'))"

text \<open>However an update is received, the channels are left as \<open>try_recv\<close> leaves them.\<close>

lemma receive_effect:
  "snd (subscriber_poll a p) = snd (try_recv a p)" "snd (recv a p) = snd (try_recv a p)"
  "snd (recv_timeout a p) = snd (try_recv a p)"
  by (auto simp: try_recv_def subscriber_poll_def recv_def recv_timeout_def split: list.split)

definition drop_subscriber :: "address \<Rightarrow> publisher \<Rightarrow> publisher" where
  "drop_subscriber a p =
     p\<lparr>pb_channels := (pb_channels p)[a := (pb_channels p ! a)\<lparr>ch_queue := [], ch_open := False\<rparr>]\<rparr>"

section \<open>Well-formed publishers\<close>

text \<open>
  No two senders share a channel, and sender ids and invoice ids are keys. Random sender ids may
  collide: then the earlier sender is dropped, and the invariant still holds.
\<close>

definition subs_ok :: "nat \<Rightarrow> (sender_id, address) index_map \<Rightarrow> bool" where
  "subs_ok n subs \<longleftrightarrow> hm_wf subs \<and> distinct (map snd subs) \<and> (\<forall>a \<in> snd ` set subs. a < n)"

definition pub_wf :: "publisher \<Rightarrow> bool" where
  "pub_wf p \<longleftrightarrow>
     (\<forall>key. subs_ok (length (pb_channels p)) (subs_of key p)) \<and>
     (\<forall>key key'. key \<noteq> key' \<longrightarrow> snd ` set (subs_of key p) \<inter> snd ` set (subs_of key' p) = {})"

lemma subs_ok_Nil [simp]: "subs_ok n []"
  by (simp add: subs_ok_def)

lemma subs_ok_mono: "subs_ok n subs \<Longrightarrow> n \<le> n' \<Longrightarrow> subs_ok n' subs"
  by (auto simp: subs_ok_def)

lemma snd_set_update: "snd ` set (AList.update k a m) \<subseteq> insert a (snd ` set m)"
  by (induction m) auto

lemma distinct_snd_update:
  "distinct (map snd m) \<Longrightarrow> a \<notin> snd ` set m \<Longrightarrow> distinct (map snd (AList.update k a m))"
proof (induction m)
  case (Cons p m)
  then show ?case using snd_set_update [of k a m] by auto
qed simp

lemma subs_ok_insert:
  assumes "subs_ok n subs"
  shows "subs_ok (Suc n) (im_insert sid n subs)"
proof -
  have "n \<notin> snd ` set subs" using assms by (auto simp: subs_ok_def)
  moreover have "b < Suc n" if "b \<in> snd ` set (im_insert sid n subs)" for b
    using that assms snd_set_update [of sid n subs] unfolding subs_ok_def less_Suc_eq by blast
  ultimately show ?thesis
    using assms by (simp add: subs_ok_def distinct_update distinct_snd_update)
qed

lemma pub_wf_subs_ok: "pub_wf p \<Longrightarrow> subs_ok (length (pb_channels p)) (subs_of key p)"
  by (simp add: pub_wf_def)

text \<open>Changes of a publisher that preserve it.\<close>

lemma pub_wf_shrink:
  assumes "pub_wf p" and "length (pb_channels p') = length (pb_channels p)"
    and "\<And>key. subs_ok (length (pb_channels p)) (subs_of key p')"
    and "\<And>key. snd ` set (subs_of key p') \<subseteq> snd ` set (subs_of key p)"
  shows "pub_wf p'"
  using assms unfolding pub_wf_def by (metis (no_types, lifting) disjoint_iff subsetD)

lemma grow_disjoint:
  fixes A A' :: "'k \<Rightarrow> 'a set"
  assumes "\<And>k. A' k \<subseteq> (if k = key then insert n (A k) else A k)" and "\<And>k. n \<notin> A k"
    and "k \<noteq> k'" and "A k \<inter> A k' = {}"
  shows "A' k \<inter> A' k' = {}"
  using assms(1) [of k] assms(1) [of k'] assms(2) [of k] assms(2) [of k'] assms(3,4)
  by (auto split: if_splits)

lemma pub_wf_grow:
  assumes wf: "pub_wf p" and len: "length (pb_channels p') = Suc (length (pb_channels p))"
    and new: "subs_of key p' = im_insert sid (length (pb_channels p)) (subs_of key p)"
    and old: "\<And>key'. key' \<noteq> key \<Longrightarrow> subs_of key' p' = subs_of key' p"
  shows "pub_wf p'"
proof -
  let ?n = "length (pb_channels p)"
  have ok: "subs_ok (Suc ?n) (subs_of key' p')" for key'
    using subs_ok_insert [OF pub_wf_subs_ok [OF wf]] subs_ok_mono [OF pub_wf_subs_ok [OF wf]]
    by (cases "key' = key") (auto simp: new old)
  have sub: "snd ` set (subs_of k p') \<subseteq>
      (if k = key then insert ?n (snd ` set (subs_of k p)) else snd ` set (subs_of k p))" for k
    using snd_set_update [of sid ?n "subs_of key p"] by (auto simp: new old)
  have fresh: "?n \<notin> snd ` set (subs_of k p)" for k
    using pub_wf_subs_ok [OF wf, of k] by (auto simp: subs_ok_def)
  have "snd ` set (subs_of k p') \<inter> snd ` set (subs_of k' p') = {}" if "k \<noteq> k'" for k k'
  proof -
    have "snd ` set (subs_of k p) \<inter> snd ` set (subs_of k' p) = {}"
      using wf that unfolding pub_wf_def by blast
    from sub fresh that this show ?thesis
      by (rule grow_disjoint)
  qed
  then show ?thesis using ok unfolding pub_wf_def len by blast
qed

lemma pub_wf_new: "pub_wf publisher_new"
  by (simp add: pub_wf_def subs_of_def publisher_new_def split: option.splits)

lemma subs_of_hm_insert:
  "pb_invoice_subs p' = hm_insert k subs (pb_invoice_subs p) \<Longrightarrow>
   pb_global_subs p' = pb_global_subs p \<Longrightarrow>
   subs_of key p' = (if key = Some k then subs else subs_of key p)"
  by (cases key) (simp_all add: subs_of_def update_conv')

lemma subs_of_subscribe:
  assumes "subscribe sid k p = (Some a, p')"
  shows "subs_of (Some k) p' = im_insert sid (length (pb_channels p)) (subs_of (Some k) p)"
    and "key \<noteq> Some k \<Longrightarrow> subs_of key p' = subs_of key p"
    and "pb_channels p' = pb_channels p @ [new_channel]" and "a = length (pb_channels p)"
  using assms
  by (auto simp: subscribe_def Let_def split: option.splits intro!: trans [OF subs_of_hm_insert])
    (simp add: subs_of_def)

lemma pub_wf_subscribe:
  assumes "pub_wf p" and "subscribe sid k p = (r, p')"
  shows "pub_wf p'"
proof (cases r)
  case None
  then show ?thesis using assms by (auto simp: subscribe_def Let_def split: option.splits)
next
  case (Some a)
  note s = subs_of_subscribe [OF assms(2) [unfolded Some]]
  show ?thesis by (rule pub_wf_grow [OF assms(1) _ s(1) s(2)]) (simp_all add: s(3))
qed

lemma pub_wf_subscribe_all:
  assumes "pub_wf p"
  shows "pub_wf (snd (subscribe_all sid p))"
  by (rule pub_wf_grow [OF assms, where key = None and sid = sid])
    (auto simp: subscribe_all_def subs_of_def Let_def split: option.splits)

lemma subs_of_publisher_insert_invoice:
  "subs_of key (publisher_insert_invoice k p) = (if key = Some k then [] else subs_of key p)"
  by (rule subs_of_hm_insert) (simp_all add: publisher_insert_invoice_def)

lemma subs_of_publisher_remove_invoice:
  "subs_of key (publisher_remove_invoice k p) = (if key = Some k then [] else subs_of key p)"
  by (auto simp: subs_of_def publisher_remove_invoice_def delete_conv' split: option.splits)

lemma length_publisher_invoice:
  "pb_channels (publisher_insert_invoice k p) = pb_channels p"
  "pb_channels (publisher_remove_invoice k p) = pb_channels p"
  by (simp_all add: publisher_insert_invoice_def publisher_remove_invoice_def)

lemma pub_wf_insert_invoice: "pub_wf p \<Longrightarrow> pub_wf (publisher_insert_invoice k p)"
  by (rule pub_wf_shrink)
    (auto simp: subs_of_publisher_insert_invoice pub_wf_subs_ok length_publisher_invoice
      split: if_splits)

lemma pub_wf_remove_invoice: "pub_wf p \<Longrightarrow> pub_wf (publisher_remove_invoice k p)"
  by (rule pub_wf_shrink)
    (auto simp: subs_of_publisher_remove_invoice pub_wf_subs_ok length_publisher_invoice
      split: if_splits)

section \<open>What \<open>send_updates\<close> delivers\<close>

definition is_open :: "publisher \<Rightarrow> sender_id \<times> address \<Rightarrow> bool" where
  "is_open p s \<longleftrightarrow> ch_open (pb_channels p ! snd s)"

definition has_room :: "publisher \<Rightarrow> sender_id \<times> address \<Rightarrow> bool" where
  "has_room p s \<longleftrightarrow>
     is_open p s \<longrightarrow> length (ch_queue (pb_channels p ! snd s)) < subscription_buffer_len"

text \<open>The channels after one copy of the update is put in each open channel of a set.\<close>

definition deliver :: "invoice \<Rightarrow> address set \<Rightarrow> channel list \<Rightarrow> channel list" where
  "deliver ivc A chs =
     map (\<lambda>(a, ch). if a \<in> A \<and> ch_open ch then ch\<lparr>ch_queue := ch_queue ch @ [ivc]\<rparr> else ch)
       (zip [0..<length chs] chs)"

lemma length_deliver [simp]: "length (deliver ivc A chs) = length chs"
  by (simp add: deliver_def)

lemma nth_deliver:
  "a < length chs \<Longrightarrow> deliver ivc A chs ! a =
     (if a \<in> A \<and> ch_open (chs ! a)
      then (chs ! a)\<lparr>ch_queue := ch_queue (chs ! a) @ [ivc]\<rparr> else chs ! a)"
  by (simp add: deliver_def)

lemma deliver_empty [simp]: "deliver ivc {} chs = chs"
  by (rule nth_equalityI) (simp_all add: nth_deliver)

lemma deliver_deliver:
  "A \<inter> B = {} \<Longrightarrow> deliver ivc A (deliver ivc B chs) = deliver ivc (A \<union> B) chs"
  by (rule nth_equalityI) (auto simp: nth_deliver)

lemma deliver_closed:
  "\<not> ch_open (chs ! a) \<Longrightarrow> deliver ivc (insert a A) chs = deliver ivc A chs"
  by (rule nth_equalityI) (auto simp: nth_deliver)

lemma deliver_one:
  "a < length chs \<Longrightarrow> ch_open (chs ! a) \<Longrightarrow>
   chs[a := (chs ! a)\<lparr>ch_queue := ch_queue (chs ! a) @ [ivc]\<rparr>] = deliver ivc {a} chs"
  by (rule nth_equalityI) (auto simp: nth_deliver nth_list_update)

lemma ch_open_deliver [simp]:
  "a < length chs \<Longrightarrow> ch_open (deliver ivc A chs ! a) = ch_open (chs ! a)"
  by (simp add: nth_deliver)

lemma channel_send_closed: "\<not> is_open p (sid, a) \<Longrightarrow> channel_send ivc a p = Closed"
  by (simp add: channel_send_def is_open_def Let_def)

lemma channel_send_open:
  assumes "is_open p (sid, a)" and "has_room p (sid, a)" and "a < length (pb_channels p)"
  shows "channel_send ivc a p = Sent (p\<lparr>pb_channels := deliver ivc {a} (pb_channels p)\<rparr>)"
  using assms by (simp add: channel_send_def is_open_def has_room_def Let_def deliver_one)

text \<open>
  What the loops may do to a publisher: one list of senders changes, and the channels are
  delivered to.
\<close>

definition sent_to ::
  "invoice \<Rightarrow> invoice_id option \<Rightarrow> address set \<Rightarrow> (sender_id, address) index_map \<Rightarrow>
   publisher \<Rightarrow> publisher \<Rightarrow> bool" where
  "sent_to ivc key A subs p p' \<longleftrightarrow>
     pb_channels p' = deliver ivc A (pb_channels p) \<and>
     (\<forall>key'. subs_of key' p' = (if key' = key then subs else subs_of key' p))"

lemma sent_to_trans:
  "sent_to ivc key A subs p p' \<Longrightarrow> sent_to ivc key B subs' p' p'' \<Longrightarrow> A \<inter> B = {} \<Longrightarrow>
   sent_to ivc key (A \<union> B) subs' p p''"
  by (simp add: sent_to_def deliver_deliver Int_commute Un_commute)

definition can_take :: "publisher \<Rightarrow> (sender_id, address) index_map \<Rightarrow> bool" where
  "can_take p ys \<longleftrightarrow>
     distinct (map snd ys) \<and> (\<forall>s \<in> set ys. snd s < length (pb_channels p) \<and> has_room p s)"

lemma can_take_Cons:
  assumes "can_take p (s # ys)" and "pb_channels p' = deliver ivc {snd s} (pb_channels p)"
  shows "can_take p' ys"
proof -
  have "snd t \<noteq> snd s" if "t \<in> set ys" for t
    using assms(1) that
    by (metis can_take_def distinct.simps(2) imageI list.simps(9) list.set_map)
  then show ?thesis
    using assms by (auto simp: can_take_def has_room_def is_open_def nth_deliver)
qed

lemma can_take_tl: "can_take p (s # ys) \<Longrightarrow> can_take p ys"
  by (simp add: can_take_def)

lemma can_take_mset: "mset ys = mset zs \<Longrightarrow> can_take p ys \<longleftrightarrow> can_take p zs"
  by (metis can_take_def mset_eq_imp_distinct_iff mset_eq_setD mset_map)

lemma can_take_remove_sender [simp]: "can_take (remove_sender key sid p) ys = can_take p ys"
  by (simp add: can_take_def has_room_def is_open_def)

lemma subs_at:
  "subs_of key p = xs @ (sid, a) # ys \<Longrightarrow> get_sender_by_index key (length xs) p = Some (sid, a)"
  by (simp add: get_sender_Some)

lemma snd_set_mset: "mset ys = mset zs \<Longrightarrow> snd ` set ys = snd ` set zs"
  by (metis mset_eq_setD)

text \<open>Once \<open>closed\<close> is set, every further sender still gets the update and is dropped.\<close>

lemma send_loop_closed:
  fixes m :: nat
  assumes "length ys = m" and "subs_of key p = xs @ ys" and "hm_wf (xs @ ys)" and "can_take p ys"
  shows "\<exists>p'. send_loop ivc key (length xs) True p = (Inr () :: 'e fault + unit, p') \<and>
    sent_to ivc key (snd ` set ys) xs p p'"
  using assms
proof (induction m arbitrary: ys p)
  case 0
  then show ?case
    by (subst send_loop.simps) (auto simp: get_sender_by_index_def im_get_index_def sent_to_def)
next
  case (Suc m)
  obtain sid a zs where ys: "ys = (sid, a) # zs" using Suc.prems(1) by (cases ys) auto
  define ws where "ws = (if zs = [] then [] else last zs # butlast zs)"
  have ws: "mset ws = mset zs" by (simp add: ws_def mset_last_butlast)
  define q where "q = (if is_open p (sid, a)
    then p\<lparr>pb_channels := deliver ivc {a} (pb_channels p)\<rparr> else p)"
  have chq: "pb_channels q = deliver ivc {a} (pb_channels p)"
    using deliver_closed [of "pb_channels p" a ivc "{}"] by (simp add: q_def is_open_def)
  have subs: "subs_of key (remove_sender key sid q) = xs @ ws"
    using im_remove_append [OF Suc.prems(3) [unfolded ys]] Suc.prems(2)
    by (simp only: subs_of_remove_sender ws_def ys q_def subs_of_pb_channels if_distrib cong: if_cong)
      simp
  have "can_take q zs" using can_take_Cons [of p "(sid, a)" zs q ivc] Suc.prems(4) chq ys by simp
  then have take_ws: "can_take (remove_sender key sid q) ws"
    using can_take_mset [OF ws] by simp
  have wf: "hm_wf (xs @ ws)"
    using Suc.prems(3) hm_wf_mset [of "xs @ ws" "xs @ zs"] ws ys by simp
  have "length ws = m" using Suc.prems(1) ys mset_eq_length [OF ws] by simp
  from Suc.IH [OF this subs wf take_ws] obtain p' where
    run: "send_loop ivc key (length xs) True (remove_sender key sid q) =
      (Inr () :: 'e fault + unit, p')" and
    to: "sent_to ivc key (snd ` set ws) xs (remove_sender key sid q) p'" by blast
  have step: "send_loop ivc key (length xs) True p =
      (send_loop ivc key (length xs) True (remove_sender key sid q) :: ('e fault + unit) \<times> _)"
    using Suc.prems(4) channel_send_open [of p sid a ivc]
    by (subst send_loop.simps)
      (simp add: subs_at [OF Suc.prems(2) [unfolded ys]] channel_send_closed q_def can_take_def ys)
  have "sent_to ivc key {a} (xs @ ws) p (remove_sender key sid q)"
    using subs by (auto simp: sent_to_def chq subs_of_remove_sender) (simp add: q_def)
  from sent_to_trans [OF this to] have "sent_to ivc key (snd ` set ys) xs p p'"
    using Suc.prems(4) by (simp add: snd_set_mset [OF ws] ys can_take_def)
  with run step show ?case by simp
qed

text \<open>Before that, the sender stays and the loop goes on with the next one.\<close>

lemma send_loop_open:
  assumes "subs_of key p = xs @ ys" and "hm_wf (xs @ ys)" and "can_take p ys"
  shows "\<exists>p'. send_loop ivc key (length xs) False p = (Inr () :: 'e fault + unit, p') \<and>
    sent_to ivc key (snd ` set ys) (xs @ takeWhile (is_open p) ys) p p'"
  using assms
proof (induction ys arbitrary: xs p)
  case Nil
  then show ?case
    by (subst send_loop.simps) (auto simp: get_sender_by_index_def im_get_index_def sent_to_def)
next
  case (Cons s zs)
  obtain sid a where s: "s = (sid, a)" by (cases s)
  show ?case
  proof (cases "is_open p s")
    case False
    then have step: "send_loop ivc key (length xs) False p =
        (send_loop ivc key (length xs) True p :: ('e fault + unit) \<times> _)"
      by (subst (1 2) send_loop.simps)
        (simp add: subs_at [OF Cons.prems(1) [unfolded s]] s channel_send_closed)
    show ?thesis
      using send_loop_closed [OF refl Cons.prems, of ivc] False by (simp add: step)
  next
    case True
    define q where "q = p\<lparr>pb_channels := deliver ivc {a} (pb_channels p)\<rparr>"
    have step: "send_loop ivc key (length xs) False p =
        (send_loop ivc key (length (xs @ [s])) False q :: ('e fault + unit) \<times> _)"
      using Cons.prems(3) True
      by (subst send_loop.simps)
        (simp add: subs_at [OF Cons.prems(1) [unfolded s]] s channel_send_open can_take_def q_def)
    have "can_take q zs"
      using can_take_Cons [OF Cons.prems(3), of q ivc] by (simp add: q_def s)
    then obtain p' where
      run: "send_loop ivc key (length (xs @ [s])) False q = (Inr () :: 'e fault + unit, p')" and
      to: "sent_to ivc key (snd ` set zs) ((xs @ [s]) @ takeWhile (is_open q) zs) q p'"
      using Cons.IH [of q "xs @ [s]"] Cons.prems(1,2) by (auto simp: q_def)
    have "is_open q t = is_open p t" if "t \<in> set zs" for t
      using Cons.prems(3) that by (simp add: is_open_def q_def can_take_def)
    then have tw: "takeWhile (is_open q) zs = takeWhile (is_open p) zs"
      by (rule takeWhile_cong [OF refl])
    have "sent_to ivc key {a} (subs_of key p) p q"
      by (auto simp: sent_to_def q_def)
    from sent_to_trans [OF this to]
    have "sent_to ivc key (snd ` set (s # zs)) (xs @ takeWhile (is_open p) (s # zs)) p p'"
      using Cons.prems(3) True by (simp add: tw s can_take_def)
    with run step show ?thesis by simp
  qed
qed

text \<open>
  A whole publication: every open channel of the invoice and of the global senders gets the
  update once, and of each list the senders before the first closed channel remain.
\<close>

definition addresses :: "invoice_id option \<Rightarrow> publisher \<Rightarrow> address set" where
  "addresses key p = snd ` set (subs_of key p)"

definition roomy :: "invoice_id option \<Rightarrow> publisher \<Rightarrow> bool" where
  "roomy key p \<longleftrightarrow> list_all (has_room p) (subs_of key p)"

lemma can_take_subs: "pub_wf p \<Longrightarrow> roomy key p \<Longrightarrow> can_take p (subs_of key p)"
  using pub_wf_subs_ok [of p key] by (auto simp: can_take_def subs_ok_def roomy_def list_all_iff)

lemma send_updates_delivers:
  assumes wf: "pub_wf p" and room: "roomy (Some (invoice_id ivc)) p" "roomy None p"
  shows "\<exists>p'. send_updates ivc p = (Inr () :: 'e fault + unit, p') \<and>
    pb_channels p' =
      deliver ivc (addresses (Some (invoice_id ivc)) p \<union> addresses None p) (pb_channels p) \<and>
    (\<forall>key. subs_of key p' =
      (if key = Some (invoice_id ivc) \<or> key = None then takeWhile (is_open p) (subs_of key p)
       else subs_of key p))"
proof -
  let ?key = "Some (invoice_id ivc)"
  have wfs: "hm_wf (subs_of key p)" for key
    using pub_wf_subs_ok [OF wf] by (simp add: subs_ok_def)
  have dis: "addresses ?key p \<inter> addresses None p = {}"
    using wf unfolding pub_wf_def addresses_def by blast
  obtain p1 where run1: "send_loop ivc ?key 0 False p = (Inr () :: 'e fault + unit, p1)"
    and to1: "sent_to ivc ?key (addresses ?key p) (takeWhile (is_open p) (subs_of ?key p)) p p1"
    using send_loop_open [of ?key p "[]" "subs_of ?key p" ivc, where ?'e = 'e]
      can_take_subs [OF wf room(1)] wfs by (auto simp: addresses_def)
  have subs1: "subs_of None p1 = subs_of None p" using to1 by (simp add: sent_to_def)
  have same: "snd s < length (pb_channels p) \<and> pb_channels p1 ! snd s = pb_channels p ! snd s"
    if "s \<in> set (subs_of None p)" for s
  proof -
    have "snd s \<in> addresses None p" using that by (simp add: addresses_def)
    then have "snd s \<notin> addresses ?key p" using dis by blast
    moreover have "snd s < length (pb_channels p)"
      using that can_take_subs [OF wf room(2)] by (simp add: can_take_def)
    ultimately show ?thesis using to1 by (simp add: sent_to_def nth_deliver)
  qed
  have len1: "length (pb_channels p1) = length (pb_channels p)" using to1 by (simp add: sent_to_def)
  have "can_take p1 (subs_of None p)"
    using can_take_subs [OF wf room(2)] same
    by (simp add: can_take_def has_room_def is_open_def len1)
  then obtain p2 where run2: "send_loop ivc None 0 False p1 = (Inr () :: 'e fault + unit, p2)"
    and to2: "sent_to ivc None (addresses None p)
      (takeWhile (is_open p1) (subs_of None p)) p1 p2"
    using send_loop_open [of None p1 "[]" "subs_of None p" ivc, where ?'e = 'e] wfs subs1
    by (auto simp: addresses_def)
  have tw: "takeWhile (is_open p1) (subs_of None p) = takeWhile (is_open p) (subs_of None p)"
    using same by (intro takeWhile_cong) (auto simp: is_open_def)
  have "send_updates ivc p = (Inr () :: 'e fault + unit, p2)"
    by (simp add: send_updates_def bind_apply run1 run2)
  then show ?thesis
    using to1 to2 dis by (auto simp: sent_to_def tw deliver_deliver Int_commute Un_commute)
qed

text \<open>Well-formedness survives every publication, also one that blocks half-way.\<close>

lemma subs_ok_mset:
  assumes "mset m = mset m'"
  shows "subs_ok n m \<longleftrightarrow> subs_ok n m'"
proof -
  have "mset (map snd m) = mset (map snd m')" using assms by simp
  then have "distinct (map snd m) \<longleftrightarrow> distinct (map snd m')" by (rule mset_eq_imp_distinct_iff)
  then show ?thesis
    unfolding subs_ok_def hm_wf_mset [OF assms] mset_eq_setD [OF assms] by blast
qed

lemma subs_ok_im_remove:
  assumes "subs_ok n m"
  shows "subs_ok n (im_remove k m) \<and> set (im_remove k m) \<subseteq> set m"
proof (cases "k \<in> fst ` set m")
  case True
  then obtain v xs ys where m: "m = xs @ (k, v) # ys"
    by (metis (no_types, opaque_lifting) imageE prod.collapse split_list)
  define ws where "ws = (if ys = [] then [] else last ys # butlast ys)"
  have rm: "im_remove k m = xs @ ws"
    using assms unfolding m ws_def by (intro im_remove_append) (simp add: subs_ok_def)
  have ws: "mset (xs @ ws) = mset (xs @ ys)" by (simp add: ws_def mset_last_butlast)
  have "subs_ok n (xs @ ys)" using assms unfolding m by (auto simp: subs_ok_def)
  then show ?thesis
    using subs_ok_mset [OF ws] mset_eq_setD [OF ws] unfolding rm by (auto simp: m)
next
  case False
  then have "im_remove k m = m" by (simp add: im_remove_def im_index_of_None_iff [symmetric])
  then show ?thesis using assms by simp
qed

lemma pub_wf_remove_sender:
  assumes "pub_wf p"
  shows "pub_wf (remove_sender key sid p)"
proof (rule pub_wf_shrink [OF assms])
  fix key'
  have "subs_ok (length (pb_channels p)) (subs_of key' (remove_sender key sid p)) \<and>
      set (subs_of key' (remove_sender key sid p)) \<subseteq> set (subs_of key' p)"
    using subs_ok_im_remove [OF pub_wf_subs_ok [OF assms]] pub_wf_subs_ok [OF assms]
    by (simp add: subs_of_remove_sender)
  then show "subs_ok (length (pb_channels p)) (subs_of key' (remove_sender key sid p))"
    and "snd ` set (subs_of key' (remove_sender key sid p)) \<subseteq> snd ` set (subs_of key' p)"
    by blast+
qed simp

lemma pub_wf_channels:
  "pub_wf p \<Longrightarrow> length chs = length (pb_channels p) \<Longrightarrow> pub_wf (p\<lparr>pb_channels := chs\<rparr>)"
  by (simp add: pub_wf_def)

lemma pub_wf_send_loop: "pub_wf p \<Longrightarrow> send_loop ivc key i closed p = (r, p') \<Longrightarrow> pub_wf p'"
proof (induction ivc key i closed p arbitrary: r p' rule: send_loop.induct)
  case (1 ivc key i closed p)
  show ?case
  proof (cases "get_sender_by_index key i p")
    case None
    then show ?thesis using "1.prems" by (simp add: send_loop.simps [of ivc key i closed p])
  next
    case (Some s)
    obtain sid a where s: "s = (sid, a)" by (cases s)
    note at = Some [unfolded s]
    show ?thesis
    proof (cases "channel_send ivc a p")
      case (Sent q)
      have q: "pub_wf q"
        using channel_send_Sent [OF Sent] pub_wf_channels [OF "1.prems"(1)] by simp
      show ?thesis
        using "1.prems"(2) "1.IH"(1) [OF Some s [symmetric] Sent _ pub_wf_remove_sender [OF q]]
          "1.IH"(2) [OF Some s [symmetric] Sent _ q]
        by (simp add: send_loop.simps [of ivc key i closed p] at Sent split: if_splits)
    next
      case Closed
      show ?thesis
        using "1.prems"(2) "1.IH"(3) [OF Some s [symmetric] Closed pub_wf_remove_sender [OF "1.prems"(1)]]
        by (simp add: send_loop.simps [of ivc key i closed p] at Closed)
    next
      case Full
      then show ?thesis
        using "1.prems" by (simp add: send_loop.simps [of ivc key i closed p] at)
    qed
  qed
qed

lemma pub_wf_send_updates:
  "pub_wf p \<Longrightarrow> send_updates ivc p = (r, p') \<Longrightarrow> pub_wf p'"
  by (auto simp: send_updates_def bind_apply split: prod.splits sum.splits dest: pub_wf_send_loop)

section \<open>A full channel\<close>

text \<open>The channel at \<open>a\<close> is full and its receiver is alive.\<close>

definition stuffed :: "publisher \<Rightarrow> address \<Rightarrow> bool" where
  "stuffed p a \<longleftrightarrow> a < length (pb_channels p) \<and> ch_open (pb_channels p ! a) \<and>
     subscription_buffer_len \<le> length (ch_queue (pb_channels p ! a))"

lemma channel_send_stuffed: "stuffed p a \<Longrightarrow> channel_send ivc a p = Full"
  by (simp add: stuffed_def channel_send_def Let_def)

lemma stuffed_sent:
  "channel_send ivc a' p = Sent p' \<Longrightarrow> stuffed p a \<Longrightarrow> a \<noteq> a' \<Longrightarrow> stuffed p' a"
  by (auto simp: stuffed_def dest!: channel_send_Sent)

lemma stuffed_remove_sender [simp]: "stuffed (remove_sender key sid p) a \<longleftrightarrow> stuffed p a"
  by (simp add: stuffed_def)

lemma set_im_remove: "set (im_remove k m) \<subseteq> set m"
proof (cases "im_index_of k m")
  case (Some i)
  then have "m \<noteq> []" by (auto dest: im_index_of_Some)
  then have "set ((butlast m)[i := last m]) \<subseteq> set m"
    using set_update_subset_insert [of "butlast m" i "last m"] by (auto dest: in_set_butlastD)
  with Some show ?thesis by (auto simp: im_remove_def dest: in_set_butlastD)
qed (simp add: im_remove_def)

lemma drop_im_remove:
  assumes "hm_wf m" and "i < length m" and "m ! i = (sid, b)"
  shows "mset (drop i (im_remove sid m)) = mset (drop (Suc i) m)"
proof -
  have m: "m = take i m @ (sid, b) # drop (Suc i) m" using assms(2,3) by (metis id_take_nth_drop)
  define ys where "ys = drop (Suc i) m"
  have "im_remove sid m = take i m @ (if ys = [] then [] else last ys # butlast ys)"
    using im_remove_append [of "take i m" sid b ys] assms(1) m unfolding ys_def by metis
  then show ?thesis
    using assms(2) unfolding ys_def [symmetric] by (simp add: mset_last_butlast)
qed

text \<open>The loop does not get past it, wherever it stands in the list.\<close>

lemma send_loop_stuffed:
  assumes "subs_ok n (subs_of key p)" and "a \<in> snd ` set (drop i (subs_of key p))" and "stuffed p a"
  shows "fst (send_loop ivc key i closed p :: ('e fault + unit) \<times> _) = Inl Blocked"
  using assms
proof (induction ivc key i closed p rule: send_loop.induct)
  case (1 ivc key i closed p)
  let ?subs = "subs_of key p"
  have i: "i < length ?subs" using "1.prems"(2) by (cases "i < length ?subs") auto
  obtain sid b where b: "?subs ! i = (sid, b)" by (cases "?subs ! i")
  have at: "get_sender_by_index key i p = Some (sid, b)" using i b by (simp add: get_sender_Some)
  have wf: "hm_wf ?subs" using "1.prems"(1) by (simp add: subs_ok_def)
  show ?case
  proof (cases "b = a")
    case True
    then show ?thesis
      using at channel_send_stuffed [OF "1.prems"(3)] by (simp add: send_loop.simps [of ivc key i closed p])
  next
    case False
    have rest: "a \<in> snd ` set (drop (Suc i) ?subs)"
      using "1.prems"(2) False b by (simp add: Cons_nth_drop_Suc [OF i, symmetric])
    have removed: "a \<in> snd ` set (drop i (im_remove sid ?subs))"
      using rest mset_eq_setD [OF drop_im_remove [OF wf i b]] by simp
    have small: "subs_ok n (im_remove sid ?subs)" using subs_ok_im_remove [OF "1.prems"(1)] by blast
    show ?thesis
    proof (cases "channel_send ivc b p")
      case (Sent q)
      have q: "subs_of key q = ?subs" "stuffed q a"
        using channel_send_Sent [OF Sent] stuffed_sent [OF Sent "1.prems"(3)] False by auto
      show ?thesis
        using "1.IH"(1) [OF at refl Sent] "1.IH"(2) [OF at refl Sent] q rest removed small "1.prems"(1)
        by (simp add: send_loop.simps [of ivc key i closed p] at Sent subs_of_remove_sender)
    next
      case Closed
      show ?thesis
        using "1.IH"(3) [OF at refl Closed] removed small "1.prems"(3)
        by (simp add: send_loop.simps [of ivc key i closed p] at Closed subs_of_remove_sender)
    next
      case Full
      then show ?thesis by (simp add: send_loop.simps [of ivc key i closed p] at)
    qed
  qed
qed

text \<open>A loop over other senders leaves it as it is.\<close>

lemma send_loop_beside:
  assumes "send_loop ivc key i closed p = (r, p')" and "stuffed p a" and "a \<notin> snd ` set (subs_of key p)"
  shows "stuffed p' a \<and> (\<forall>key'. key' \<noteq> key \<longrightarrow> subs_of key' p' = subs_of key' p)"
  using assms
proof (induction ivc key i closed p arbitrary: r p' rule: send_loop.induct)
  case (1 ivc key i closed p)
  show ?case
  proof (cases "get_sender_by_index key i p")
    case None
    then show ?thesis using "1.prems" by (simp add: send_loop.simps [of ivc key i closed p])
  next
    case (Some s)
    obtain sid b where s: "s = (sid, b)" by (cases s)
    note at = Some [unfolded s]
    have "b \<in> snd ` set (subs_of key p)"
      using at by (metis get_sender_Some nth_mem image_eqI snd_conv)
    then have b: "a \<noteq> b" using "1.prems"(3) by auto
    have gone: "a \<notin> snd ` set (im_remove sid (subs_of key p))" using "1.prems"(3) set_im_remove by fast
    show ?thesis
    proof (cases "channel_send ivc b p")
      case (Sent q)
      have q: "\<And>key'. subs_of key' q = subs_of key' p" "stuffed q a"
        using channel_send_Sent [OF Sent] stuffed_sent [OF Sent "1.prems"(2) b] by auto
      show ?thesis
        using "1.prems"(1) "1.IH"(1) [OF Some s [symmetric] Sent, of r p'] "1.IH"(2) [OF Some s [symmetric] Sent, of r p']
          q gone "1.prems"(3)
        by (auto simp: send_loop.simps [of ivc key i closed p] at Sent subs_of_remove_sender split: if_splits)
    next
      case Closed
      show ?thesis
        using "1.prems"(1,2) "1.IH"(3) [OF Some s [symmetric] Closed, of r p'] gone
        by (auto simp: send_loop.simps [of ivc key i closed p] at Closed subs_of_remove_sender)
    next
      case Full
      then show ?thesis
        using "1.prems" by (simp add: send_loop.simps [of ivc key i closed p] at)
    qed
  qed
qed

text \<open>A publication that does not return waits for a channel.\<close>

lemma send_loop_only_blocks:
  "send_loop ivc key i closed p = (Inl e, p') \<Longrightarrow> e = Blocked"
proof (induction ivc key i closed p rule: send_loop.induct)
  case (1 ivc key i closed p)
  then show ?case
    by (subst (asm) send_loop.simps)
      (auto split: option.splits prod.splits send_result.splits if_splits)
qed

text \<open>So a publication to it blocks, and one to others leaves its subscription in place.\<close>

lemma send_updates_stuffed:
  assumes wf: "pub_wf p" and full: "stuffed p a"
    and a: "a \<in> addresses (Some (invoice_id ivc)) p \<union> addresses None p"
  shows "fst (send_updates ivc p :: ('e fault + unit) \<times> _) = Inl Blocked"
proof (cases "a \<in> addresses (Some (invoice_id ivc)) p")
  case True
  then show ?thesis
    using send_loop_stuffed [OF pub_wf_subs_ok [OF wf] _ full, where i = 0 and key = "Some (invoice_id ivc)" and ivc = ivc and closed = False and ?'e = 'e]
    by (auto simp: send_updates_def bind_apply addresses_def split: prod.splits sum.splits)
next
  case False
  obtain r p1 where run: "send_loop ivc (Some (invoice_id ivc)) 0 False p = (r :: 'e fault + unit, p1)" by fastforce
  note beside = send_loop_beside [OF run full, unfolded addresses_def [symmetric], OF False]
  show ?thesis
  proof (cases r)
    case (Inl e)
    then show ?thesis using run send_loop_only_blocks [OF run [unfolded Inl]] by (simp add: send_updates_def)
  next
    case (Inr u)
    have "a \<in> snd ` set (drop 0 (subs_of None p1))" using a False beside by (simp add: addresses_def)
    from send_loop_stuffed [OF pub_wf_subs_ok [OF pub_wf_send_loop [OF wf run]] this, where ivc = ivc and closed = False and ?'e = 'e] beside run Inr
    show ?thesis by (simp add: send_updates_def bind_apply)
  qed
qed

lemma send_updates_beside:
  assumes wf: "pub_wf p" and full: "stuffed p a" and a: "a \<in> addresses (Some k) p" "k \<noteq> invoice_id ivc"
    and run: "send_updates ivc p = (Inr () :: 'e fault + unit, p')"
  shows "stuffed p' a \<and> a \<in> addresses (Some k) p'"
proof -
  obtain p1 where p1: "send_loop ivc (Some (invoice_id ivc)) 0 False p = (Inr () :: 'e fault + unit, p1)"
    and p2: "send_loop ivc None 0 False p1 = (Inr () :: 'e fault + unit, p')"
    using run by (auto simp: send_updates_def bind_Inr_iff)
  have other: "a \<notin> addresses key p" if "key \<noteq> Some k" for key
    using wf a(1) that unfolding pub_wf_def addresses_def by blast
  note b1 = send_loop_beside [OF p1 full, unfolded addresses_def [symmetric], OF other]
  have "a \<notin> addresses None p1" using b1 other [of None] a(2) by (simp add: addresses_def)
  from send_loop_beside [OF p2 _ this [unfolded addresses_def]] b1 a show ?thesis
    by (simp add: addresses_def)
qed

end
