(* ===== verification/Scanner.thy ===== *)
theory Scanner
  imports Storage Block_Cache Txpool_Cache Pubsub
begin

text \<open>
  \<open>src/src/scanner.rs\<close>: one scan brings the caches up to date, looks for outputs of tracked
  subaddresses in the updated blocks and the new pool transactions, recomputes every tracked
  invoice, saves the changed ones and publishes them.

  What the code uses of the \<open>monero\<close> crate is the record \<open>monero_ops\<close>: the hash and the time lock
  of a transaction, and the outputs that belong to the wallet of a key checker \<open>'k\<close>. The loops
  of a scan run without a call of the gateway in between; such calls are interleaved between the
  three parts of a scan, where the code waits for the network or a channel.
\<close>

section \<open>Transactions\<close>

record owned_output =
  oo_sub_index :: sub_index
  oo_amount :: "u64 option"

record ('tx, 'k) monero_ops =
  mo_hash :: "'tx \<Rightarrow> hash"
  mo_unlock_time :: "'tx \<Rightarrow> u64"
  mo_check_outputs :: "'tx \<Rightarrow> 'k \<Rightarrow> string + owned_output list"

record owned_amount =
  oa_sub_index :: sub_index
  oa_amount :: u64

type_synonym amounts_received = "(hash, owned_amount list) hash_map"

definition query :: "('s \<Rightarrow> 'e + 'a) \<Rightarrow> ('s, 'e accept_xmr_error fault, 'a) act" where
  "query f = (\<lambda>s. storage_result (f s) s)"

definition hm_push :: "'a \<Rightarrow> 'b \<Rightarrow> ('a, 'b list) hash_map \<Rightarrow> ('a, 'b list) hash_map" where
  "hm_push k x m = hm_insert k (case map_of m k of None \<Rightarrow> [x] | Some xs \<Rightarrow> xs @ [x]) m"

text \<open>
  The outputs of one transaction. The amount recorded for each of them is the one of the first,
  \<open>transfers[0]\<close>, as in the code.
\<close>

definition scan_output ::
  "('s, 'e) storage_ops \<Rightarrow> hash \<Rightarrow> owned_output list \<Rightarrow> owned_output \<Rightarrow> amounts_received \<Rightarrow>
   ('s, 'e accept_xmr_error fault, amounts_received) act" where
  "scan_output S h outputs out amounts =
     bind (query (st_contains_sub_index S (oo_sub_index out))) (\<lambda>found.
       if found then
         (case oo_amount (outputs ! 0) of
            None \<Rightarrow> stop (Raise (Unblind (oo_sub_index out)))
          | Some a \<Rightarrow>
              ret (hm_push h \<lparr>oa_sub_index = oo_sub_index out, oa_amount = a\<rparr> amounts))
       else ret amounts)"

definition scan_transaction ::
  "('s, 'e) storage_ops \<Rightarrow> ('tx, 'k) monero_ops \<Rightarrow> 'k \<Rightarrow> 'tx \<Rightarrow> amounts_received \<Rightarrow>
   ('s, 'e accept_xmr_error fault, amounts_received) act" where
  "scan_transaction S M checker tx amounts =
     (if mo_unlock_time M tx \<noteq> 0 then ret amounts
      else
        (case mo_check_outputs M tx checker of
           Inl e \<Rightarrow> stop (Raise (OwnedOutputCheck e))
         | Inr outputs \<Rightarrow> for_loop (scan_output S (mo_hash M tx) outputs) outputs amounts))"

definition scan_transactions ::
  "('s, 'e) storage_ops \<Rightarrow> ('tx, 'k) monero_ops \<Rightarrow> 'k \<Rightarrow> 'tx list \<Rightarrow>
   ('s, 'e accept_xmr_error fault, amounts_received) act" where
  "scan_transactions S M checker txs = for_loop (scan_transaction S M checker) txs []"

section \<open>The scanner's state\<close>

record ('tx, 's, 'w) scan_state =
  sn_store :: 's
  sn_block_cache :: "'tx block_cache"
  sn_txpool_cache :: "'tx txpool_cache"
  sn_publisher :: publisher
  sn_first_scan :: bool
  sn_world :: 'w

type_synonym ('tx, 's, 'w, 'e, 'a) scan_act =
  "(('tx, 's, 'w) scan_state, 'e accept_xmr_error fault, 'a) act"

definition on_store ::
  "('s, 'e accept_xmr_error fault, 'a) act \<Rightarrow> ('tx, 's, 'w, 'e, 'a) scan_act" where
  "on_store m = (\<lambda>\<sigma>. case m (sn_store \<sigma>) of (r, s) \<Rightarrow> (r, \<sigma>\<lparr>sn_store := s\<rparr>))"

definition on_publisher ::
  "(publisher, 'e accept_xmr_error fault, 'a) act \<Rightarrow> ('tx, 's, 'w, 'e, 'a) scan_act" where
  "on_publisher m = (\<lambda>\<sigma>. case m (sn_publisher \<sigma>) of (r, p) \<Rightarrow> (r, \<sigma>\<lparr>sn_publisher := p\<rparr>))"

definition on_block_cache ::
  "('w, 'tx, 'e, 'a) block_cache_act \<Rightarrow> ('tx, 's, 'w, 'e, 'a) scan_act" where
  "on_block_cache m = (\<lambda>\<sigma>. case m (sn_block_cache \<sigma>, sn_world \<sigma>) of
     (r, (c, w)) \<Rightarrow> (r, \<sigma>\<lparr>sn_block_cache := c, sn_world := w\<rparr>))"

definition on_txpool_cache ::
  "('w, 'tx, 'e, 'a) txpool_cache_act \<Rightarrow> ('tx, 's, 'w, 'e, 'a) scan_act" where
  "on_txpool_cache m = (\<lambda>\<sigma>. case m (sn_txpool_cache \<sigma>, sn_world \<sigma>) of
     (r, (c, w)) \<Rightarrow> (r, \<sigma>\<lparr>sn_txpool_cache := c, sn_world := w\<rparr>))"

definition get_scan :: "(('tx, 's, 'w) scan_state \<Rightarrow> 'a) \<Rightarrow> ('tx, 's, 'w, 'e, 'a) scan_act" where
  "get_scan f = (\<lambda>\<sigma>. (Inr (f \<sigma>), \<sigma>))"

definition put_scan ::
  "(('tx, 's, 'w) scan_state \<Rightarrow> ('tx, 's, 'w) scan_state) \<Rightarrow> ('tx, 's, 'w, 'e, unit) scan_act" where
  "put_scan f = (\<lambda>\<sigma>. (Inr (), f \<sigma>))"

section \<open>Finding transfers\<close>

definition update_caches ::
  "('w, 'tx) rpc_ops \<Rightarrow> ('s, 'e) storage_ops \<Rightarrow> ('tx, 'k) monero_ops \<Rightarrow>
   ('tx, 's, 'w, 'e, nat \<times> 'tx list) scan_act" where
  "update_caches R S M =
     bind (on_store (query (st_is_empty S))) (\<lambda>empty.
     bind (on_block_cache (if empty then block_cache_skip_ahead R else block_cache_update R))
       (\<lambda>blocks_updated.
     bind (on_txpool_cache (txpool_cache_update R (mo_hash M))) (\<lambda>new_transactions.
     ret (blocks_updated, new_transactions))))"

definition found_transfers ::
  "u64 option \<Rightarrow> amounts_received \<Rightarrow> (hash \<times> (sub_index \<times> transfer) list) list" where
  "found_transfers h amounts =
     map (\<lambda>(k, as). (k, map (\<lambda>a. (oa_sub_index a, Transfer (oa_amount a) h)) as)) amounts"

text \<open>\<open>flat_map(|(_, amounts)| amounts)\<close>; the order of the hash map is not specified.\<close>

definition flat_transfers ::
  "(hash \<times> (sub_index \<times> transfer) list) list \<Rightarrow> (sub_index \<times> transfer) list" where
  "flat_transfers m = concat (map snd m)"

definition scan_block ::
  "('s, 'e) storage_ops \<Rightarrow> ('tx, 'k) monero_ops \<Rightarrow> 'k \<Rightarrow> nat \<Rightarrow> (sub_index \<times> transfer) list \<Rightarrow>
   ('tx, 's, 'w, 'e, (sub_index \<times> transfer) list) scan_act" where
  "scan_block S M checker i acc =
     bind (get_scan (\<lambda>\<sigma>. (bc_blocks (sn_block_cache \<sigma>), bc_height (sn_block_cache \<sigma>))))
       (\<lambda>(blocks, height).
       if i < length blocks then
         bind (on_store (scan_transactions S M checker (cb_txs (blocks ! i)))) (\<lambda>amounts.
         ret (acc @ flat_transfers (found_transfers (Some (height - of_nat i)) amounts)))
       else stop Panic)"

definition scan_blocks ::
  "('s, 'e) storage_ops \<Rightarrow> ('tx, 'k) monero_ops \<Rightarrow> 'k \<Rightarrow> nat \<Rightarrow>
   ('tx, 's, 'w, 'e, (sub_index \<times> transfer) list) scan_act" where
  "scan_blocks S M checker blocks_updated =
     bind (get_scan (\<lambda>\<sigma>. if sn_first_scan \<sigma> then length (bc_blocks (sn_block_cache \<sigma>))
                         else blocks_updated)) (\<lambda>n.
     for_loop (scan_block S M checker) (rev [0..<n]) [])"

definition scan_txpool ::
  "('s, 'e) storage_ops \<Rightarrow> ('tx, 'k) monero_ops \<Rightarrow> 'k \<Rightarrow> 'tx list \<Rightarrow>
   ('tx, 's, 'w, 'e, (sub_index \<times> transfer) list) scan_act" where
  "scan_txpool S M checker new_transactions =
     bind (get_scan (\<lambda>\<sigma>. tp_discovered (sn_txpool_cache \<sigma>))) (\<lambda>discovered.
     bind (on_store (scan_transactions S M checker new_transactions)) (\<lambda>amounts.
     bind (put_scan (\<lambda>\<sigma>. \<sigma>\<lparr>sn_txpool_cache :=
             insert_transfers (found_transfers None amounts) (sn_txpool_cache \<sigma>)\<rparr>)) (\<lambda>_.
     ret (flat_transfers (hm_extend (found_transfers None amounts) discovered)))))"

text \<open>
  \<open>join!\<close> of the two scans: neither waits, so they run one after the other; the second also runs
  after an error of the first, and the first error is the one returned.
\<close>

definition join_acts ::
  "('st, 'e fault, 'a) act \<Rightarrow> ('st, 'e fault, 'b) act \<Rightarrow> ('st, 'e fault, 'a \<times> 'b) act" where
  "join_acts m n = (\<lambda>\<sigma>.
     case m \<sigma> of
       (Inr x, \<sigma>1) \<Rightarrow> bind n (\<lambda>y. ret (x, y)) \<sigma>1
     | (Inl (Raise e), \<sigma>1) \<Rightarrow> bind n (\<lambda>_. stop (Raise e)) \<sigma>1
     | (Inl f, \<sigma>1) \<Rightarrow> (Inl f, \<sigma>1))"

section \<open>Recomputing an invoice\<close>

definition push_transfers :: "(sub_index \<times> transfer) list \<Rightarrow> invoice \<Rightarrow> transfer list" where
  "push_transfers found i =
     map snd (filter (\<lambda>(x, t). x = index i \<and>
       cmp_by_height t (Transfer 0 (Some (creation_height i - 1))) = Greater) found)"

fun add_up :: "transfer list \<Rightarrow> invoice \<Rightarrow> invoice" where
  "add_up [] i = i"
| "add_up (t # ts) i =
     (let paid = amount_paid i + t_amount t;
          i' = i\<lparr>amount_paid := paid\<rparr>
      in add_up ts
           (if amount_requested i \<le> paid \<and> paid_height i = None
            then i'\<lparr>paid_height := t_height t\<rparr> else i'))"

definition update_invoice ::
  "u64 \<Rightarrow> u64 \<Rightarrow> (sub_index \<times> transfer) list \<Rightarrow> invoice \<Rightarrow> invoice option" where
  "update_invoice block_cache_height deepest_update found old =
     (let retained = filter (\<lambda>t. cmp_by_height t (Transfer 0 (Some deepest_update)) = Less)
                       (transfers old);
          i = old\<lparr>transfers := retained @ push_transfers found old,
                  current_height := block_cache_height + 1\<rparr>
      in if invoice_eq i old then None
         else Some (add_up (transfers i) (i\<lparr>paid_height := None, amount_paid := 0\<rparr>)))"

section \<open>A scan\<close>

definition scan_find ::
  "('w, 'tx) rpc_ops \<Rightarrow> ('s, 'e) storage_ops \<Rightarrow> ('tx, 'k) monero_ops \<Rightarrow> 'k \<Rightarrow>
   ('tx, 's, 'w, 'e, nat \<times> (sub_index \<times> transfer) list) scan_act" where
  "scan_find R S M checker =
     bind (update_caches R S M) (\<lambda>(blocks_updated, new_transactions).
     bind (join_acts (scan_blocks S M checker blocks_updated)
             (scan_txpool S M checker new_transactions)) (\<lambda>(blocks_amounts, txpool_amounts).
     bind (put_scan (\<lambda>\<sigma>. \<sigma>\<lparr>sn_first_scan := False\<rparr>)) (\<lambda>_.
     ret (blocks_updated, blocks_amounts @ txpool_amounts))))"

definition scan_prepare ::
  "('s, 'e) storage_ops \<Rightarrow> nat \<Rightarrow> (sub_index \<times> transfer) list \<Rightarrow>
   ('tx, 's, 'w, 'e, invoice list) scan_act" where
  "scan_prepare S blocks_updated found =
     bind (get_scan (\<lambda>\<sigma>. bc_height (sn_block_cache \<sigma>))) (\<lambda>block_cache_height.
     bind (on_store (query (st_try_iter S))) (\<lambda>items.
     ret (List.map_filter
            (update_invoice block_cache_height (block_cache_height - of_nat blocks_updated + 1) found)
            (ok_items items))))"

definition save_invoice ::
  "('s, 'e) storage_ops \<Rightarrow> invoice \<Rightarrow> unit \<Rightarrow> ('tx, 's, 'w, 'e, unit) scan_act" where
  "save_invoice S i _ = (\<lambda>\<sigma>.
     case st_update S i (sn_store \<sigma>) of
       (Inl e, s') \<Rightarrow> (Inr (), \<sigma>\<lparr>sn_store := s'\<rparr>)
     | (Inr _, s') \<Rightarrow> on_publisher (send_updates i) (\<sigma>\<lparr>sn_store := s'\<rparr>))"

definition scan_save ::
  "('s, 'e) storage_ops \<Rightarrow> invoice list \<Rightarrow> ('tx, 's, 'w, 'e, unit) scan_act" where
  "scan_save S updated_invoices =
     bind (for_loop (save_invoice S) updated_invoices ()) (\<lambda>_.
     on_store (query (st_flush S)))"

definition scan ::
  "('w, 'tx) rpc_ops \<Rightarrow> ('s, 'e) storage_ops \<Rightarrow> ('tx, 'k) monero_ops \<Rightarrow> 'k \<Rightarrow>
   ('tx, 's, 'w, 'e, unit) scan_act" where
  "scan R S M checker =
     bind (scan_find R S M checker) (\<lambda>(blocks_updated, found).
     bind (scan_prepare S blocks_updated found) (\<lambda>updated_invoices.
     scan_save S updated_invoices))"

section \<open>Starting a scanner\<close>

text \<open>
  \<open>Scanner::new\<close>. The two heights, shared with the gateway, are the state besides the world; they
  are set before the caches are filled.
\<close>

definition scanner_new ::
  "('w, 'tx) rpc_ops \<Rightarrow> ('s, 'e) storage_ops \<Rightarrow> ('tx, 'k) monero_ops \<Rightarrow> nat \<Rightarrow> 's \<Rightarrow>
   ((u64 \<times> u64) \<times> 'w, 'e accept_xmr_error fault, 'tx block_cache \<times> 'tx txpool_cache) act" where
  "scanner_new R S M block_cache_size s =
     bind (rpc_call (rpc_daemon_height R)) (\<lambda>daemon_height.
     bind (storage_result (st_lowest_height S s)) (\<lambda>lowest.
     let cache_height = (case lowest of Some h \<Rightarrow> h - 1 | None \<Rightarrow> daemon_height - 1) in
     bind (write_state (\<lambda>_. (cache_height, daemon_height))) (\<lambda>_.
     join_acts
       (rpc_call (block_cache_init R block_cache_size cache_height daemon_height))
       (rpc_call (txpool_cache_init R (mo_hash M))))))"

section \<open>Weakest preconditions of the lifted operations\<close>

lemma wp_query [wp_simps]:
  "wp (query f) Q E s = (case f s of Inl e \<Rightarrow> E (Raise (InvoiceStorage e)) s | Inr x \<Rightarrow> Q x s)"
  by (simp add: wp_def query_def split: sum.splits)

lemma wp_on_store [wp_simps]:
  "wp (on_store m) Q E \<sigma> =
     wp m (\<lambda>x s. Q x (\<sigma>\<lparr>sn_store := s\<rparr>)) (\<lambda>e s. E e (\<sigma>\<lparr>sn_store := s\<rparr>)) (sn_store \<sigma>)"
  by (simp add: wp_def on_store_def split: prod.splits sum.splits)

lemma wp_on_block_cache [wp_simps]:
  "wp (on_block_cache m) Q E \<sigma> =
     wp m (\<lambda>x (c, w). Q x (\<sigma>\<lparr>sn_block_cache := c, sn_world := w\<rparr>))
       (\<lambda>e (c, w). E e (\<sigma>\<lparr>sn_block_cache := c, sn_world := w\<rparr>)) (sn_block_cache \<sigma>, sn_world \<sigma>)"
  by (auto simp add: wp_def on_block_cache_def split: prod.splits sum.splits)

lemma wp_on_txpool_cache [wp_simps]:
  "wp (on_txpool_cache m) Q E \<sigma> =
     wp m (\<lambda>x (c, w). Q x (\<sigma>\<lparr>sn_txpool_cache := c, sn_world := w\<rparr>))
       (\<lambda>e (c, w). E e (\<sigma>\<lparr>sn_txpool_cache := c, sn_world := w\<rparr>)) (sn_txpool_cache \<sigma>, sn_world \<sigma>)"
  by (auto simp add: wp_def on_txpool_cache_def split: prod.splits sum.splits)

lemma wp_get_scan [wp_simps]: "wp (get_scan f) Q E = (\<lambda>\<sigma>. Q (f \<sigma>) \<sigma>)"
  by (simp add: wp_def get_scan_def fun_eq_iff)

lemma wp_put_scan [wp_simps]: "wp (put_scan f) Q E = (\<lambda>\<sigma>. Q () (f \<sigma>))"
  by (simp add: wp_def put_scan_def fun_eq_iff)

section \<open>What a scan of transactions finds\<close>

text \<open>
  The credits of one transaction, when the store tracks the subaddresses in \<open>P\<close>: one for each
  output to a tracked subaddress, of the amount of the first output.
\<close>

definition tx_credits ::
  "('tx, 'k) monero_ops \<Rightarrow> 'k \<Rightarrow> (sub_index \<Rightarrow> bool) \<Rightarrow> 'tx \<Rightarrow> owned_amount list" where
  "tx_credits M checker P tx =
     (if mo_unlock_time M tx \<noteq> 0 then []
      else
        (case mo_check_outputs M tx checker of
           Inl _ \<Rightarrow> []
         | Inr outputs \<Rightarrow>
             map (\<lambda>out. \<lparr>oa_sub_index = oo_sub_index out, oa_amount = the (oo_amount (outputs ! 0))\<rparr>)
               (filter (\<lambda>out. P (oo_sub_index out)) outputs)))"

definition scannable ::
  "('tx, 'k) monero_ops \<Rightarrow> 'k \<Rightarrow> (sub_index \<Rightarrow> bool) \<Rightarrow> 'tx \<Rightarrow> bool" where
  "scannable M checker P tx \<longleftrightarrow>
     (mo_unlock_time M tx = 0 \<longrightarrow>
        (case mo_check_outputs M tx checker of
           Inl _ \<Rightarrow> False
         | Inr outputs \<Rightarrow>
             list_ex (\<lambda>out. P (oo_sub_index out)) outputs \<longrightarrow> oo_amount (outputs ! 0) \<noteq> None))"

definition all_amounts :: "amounts_received \<Rightarrow> owned_amount list" where
  "all_amounts amounts = concat (map snd amounts)"

lemma hm_wf_push [simp]: "hm_wf m \<Longrightarrow> hm_wf (hm_push k x m)"
  by (simp add: hm_push_def)

lemma mset_hm_push:
  "hm_wf m \<Longrightarrow> mset (concat (map snd (hm_push k x m))) = add_mset x (mset (concat (map snd m)))"
proof (induction m)
  case Nil
  then show ?case by (simp add: hm_push_def)
next
  case (Cons kv m)
  show ?case
  proof (cases "fst kv = k")
    case True
    then have "k \<notin> fst ` set m" using Cons.prems by auto
    with True show ?thesis by (cases kv) (simp add: hm_push_def)
  next
    case False
    then have "hm_push k x (kv # m) = kv # hm_push k x m" by (cases kv) (simp add: hm_push_def)
    with Cons False show ?thesis by simp
  qed
qed

lemma wp_scan_output:
  assumes contains: "\<And>x. st_contains_sub_index S x s = Inr (P x)"
    and out: "P (oo_sub_index out) \<Longrightarrow> oo_amount (outputs ! 0) \<noteq> None"
    and wf: "hm_wf amounts"
  shows "wp (scan_output S h outputs out amounts)
    (\<lambda>amounts' s'. s' = s \<and> hm_wf amounts' \<and>
       mset (all_amounts amounts') = mset (all_amounts amounts) +
         mset (map (\<lambda>out. \<lparr>oa_sub_index = oo_sub_index out, oa_amount = the (oo_amount (outputs ! 0))\<rparr>)
               (filter (\<lambda>out. P (oo_sub_index out)) [out])))
    (\<lambda>_ _. False) s"
  using out wf
  by (cases "P (oo_sub_index out)"; cases "oo_amount (outputs ! 0)")
    (auto simp: scan_output_def wp_simps contains all_amounts_def mset_hm_push)

lemma wp_scan_transaction:
  assumes contains: "\<And>x. st_contains_sub_index S x s = Inr (P x)"
    and tx: "scannable M checker P tx" and wf: "hm_wf amounts"
  shows "wp (scan_transaction S M checker tx amounts)
    (\<lambda>amounts' s'. s' = s \<and> hm_wf amounts' \<and>
       mset (all_amounts amounts') = mset (all_amounts amounts) + mset (tx_credits M checker P tx))
    (\<lambda>_ _. False) s"
proof (cases "mo_unlock_time M tx = 0")
  case False
  then show ?thesis using wf by (simp add: scan_transaction_def tx_credits_def wp_simps)
next
  case True
  then obtain outputs where outs: "mo_check_outputs M tx checker = Inr outputs"
    using tx by (auto simp: scannable_def split: sum.splits)
  let ?credit = "\<lambda>out. \<lparr>oa_sub_index = oo_sub_index out, oa_amount = the (oo_amount (outputs ! 0))\<rparr>"
  let ?credits = "\<lambda>outs. map ?credit (filter (\<lambda>out. P (oo_sub_index out)) outs)"
  have first: "oo_amount (outputs ! 0) \<noteq> None" if "out \<in> set outputs" "P (oo_sub_index out)" for out
    using tx True outs that by (auto simp: scannable_def list_ex_iff)
  have "wp (for_loop (scan_output S (mo_hash M tx) outputs) outputs amounts)
    (\<lambda>amounts' s'. s' = s \<and> hm_wf amounts' \<and>
       mset (all_amounts amounts') = mset (all_amounts amounts) + mset (?credits outputs))
    (\<lambda>_ _. False) s"
  proof (rule wp_for_loop [where I = "\<lambda>pre amounts' s'. s' = s \<and> hm_wf amounts' \<and>
       mset (all_amounts amounts') = mset (all_amounts amounts) + mset (?credits pre)"])
    fix pre out post amounts' s'
    assume split: "outputs = pre @ out # post"
      and I: "s' = s \<and> hm_wf amounts' \<and>
        mset (all_amounts amounts') = mset (all_amounts amounts) + mset (?credits pre)"
    have "out \<in> set outputs" using split by simp
    from first [OF this]
    have "wp (scan_output S (mo_hash M tx) outputs out amounts')
      (\<lambda>amounts'' s''. s'' = s \<and> hm_wf amounts'' \<and>
         mset (all_amounts amounts'') = mset (all_amounts amounts') + mset (?credits [out]))
      (\<lambda>_ _. False) s"
      by (rule wp_scan_output [OF contains]) (use I in auto)
    with I show "wp (scan_output S (mo_hash M tx) outputs out amounts')
      (\<lambda>amounts' s'. s' = s \<and> hm_wf amounts' \<and>
         mset (all_amounts amounts') = mset (all_amounts amounts) + mset (?credits (pre @ [out])))
      (\<lambda>_ _. False) s'"
      by (auto elim!: wp_mono)
  qed (use wf in auto)
  with True show ?thesis by (simp add: scan_transaction_def tx_credits_def outs)
qed

lemma wp_scan_transactions:
  assumes contains: "\<And>x. st_contains_sub_index S x s = Inr (P x)"
    and txs: "\<forall>tx \<in> set txs. scannable M checker P tx"
  shows "wp (scan_transactions S M checker txs)
    (\<lambda>amounts s'. s' = s \<and> hm_wf amounts \<and>
       mset (all_amounts amounts) = mset (concat (map (tx_credits M checker P) txs)))
    (\<lambda>_ _. False) s"
  unfolding scan_transactions_def
proof (rule wp_for_loop [where I = "\<lambda>pre amounts s'. s' = s \<and> hm_wf amounts \<and>
       mset (all_amounts amounts) = mset (concat (map (tx_credits M checker P) pre))"])
  fix pre tx post amounts s'
  assume split: "txs = pre @ tx # post" and I: "s' = s \<and> hm_wf amounts \<and>
       mset (all_amounts amounts) = mset (concat (map (tx_credits M checker P) pre))"
  have "scannable M checker P tx" using txs split by simp
  from wp_scan_transaction [OF contains this, where amounts = amounts] I
  show "wp (scan_transaction S M checker tx amounts)
    (\<lambda>amounts s'. s' = s \<and> hm_wf amounts \<and>
       mset (all_amounts amounts) = mset (concat (map (tx_credits M checker P) (pre @ [tx]))))
    (\<lambda>_ _. False) s'"
    by (auto elim!: wp_mono)
qed (simp_all add: all_amounts_def)

text \<open>A scan of transactions never changes the store, whatever happens.\<close>

lemma scan_transactions_store:
  "scan_transactions S M checker txs s = (r, s') \<Longrightarrow> s' = s"
proof -
  have out: "wp (scan_output S h outputs out amounts) (\<lambda>_ s'. s' = s) (\<lambda>_ s'. s' = s) s"
    for h outputs out amounts
    by (auto simp: scan_output_def wp_simps split: sum.splits option.splits)
  have outs: "wp (for_loop (scan_output S h outputs) outs amounts) (\<lambda>_ s'. s' = s) (\<lambda>_ s'. s' = s) s"
    for h outputs outs amounts
    by (rule wp_for_loop_inv [where I = "\<lambda>_ s'. s' = s"]) (use out in auto)
  have tx: "wp (scan_transaction S M checker tx amounts) (\<lambda>_ s'. s' = s) (\<lambda>_ s'. s' = s) s"
    for tx amounts
    using outs by (auto simp: scan_transaction_def wp_simps split: sum.splits)
  have "wp (scan_transactions S M checker txs) (\<lambda>_ s'. s' = s) (\<lambda>_ s'. s' = s) s"
    unfolding scan_transactions_def
    by (rule wp_for_loop_inv [where I = "\<lambda>_ s'. s' = s"]) (use tx in auto)
  then show "scan_transactions S M checker txs s = (r, s') \<Longrightarrow> s' = s"
    by (auto simp: wp_def split: sum.splits)
qed

end
