(* ===== verification/Invoice_Totals.thy ===== *)
theory Invoice_Totals
  imports Scanner
begin

text \<open>
  What \<open>Scanner::scan\<close> makes of one invoice (\<open>update_invoice\<close>): its totals and paid height as a
  function of its transfers, and its transfers as a function of the payments of the chain.
\<close>

section \<open>Totals of an invoice\<close>

lemma add_up_append: "add_up (ts @ us) i = add_up us (add_up ts i)"
  by (induction ts arbitrary: i) (auto simp: Let_def)

lemma add_up_snoc:
  "add_up (ts @ [t]) i =
     (let j = add_up ts i; paid = amount_paid j + t_amount t in
      j\<lparr>amount_paid := paid,
        paid_height := (if amount_requested j \<le> paid \<and> paid_height j = None then t_height t
                        else paid_height j)\<rparr>)"
  by (simp add: add_up_append Let_def)

lemma add_up_record: "\<exists>p q. add_up ts i = i\<lparr>amount_paid := p, paid_height := q\<rparr>"
proof (induction ts arbitrary: i)
  case Nil
  show ?case by (intro exI [of _ "amount_paid i"] exI [of _ "paid_height i"]) simp
next
  case (Cons t ts)
  let ?paid = "amount_paid i + t_amount t"
  let ?i = "if amount_requested i \<le> ?paid \<and> paid_height i = None
    then i\<lparr>amount_paid := ?paid, paid_height := t_height t\<rparr> else i\<lparr>amount_paid := ?paid\<rparr>"
  obtain p q where "add_up ts ?i = ?i\<lparr>amount_paid := p, paid_height := q\<rparr>"
    using Cons.IH by blast
  then have "add_up (t # ts) i = i\<lparr>amount_paid := p, paid_height := q\<rparr>"
    by (auto simp: Let_def split: if_splits)
  then show ?case by blast
qed

lemma add_up_fields:
  "add_up ts i = i\<lparr>amount_paid := amount_paid (add_up ts i), paid_height := paid_height (add_up ts i)\<rparr>"
proof -
  obtain p q where "add_up ts i = i\<lparr>amount_paid := p, paid_height := q\<rparr>"
    using add_up_record by blast
  then show ?thesis by simp
qed

lemma add_up_sel [simp]:
  "transfers (add_up ts i) = transfers i"
  "amount_requested (add_up ts i) = amount_requested i"
  "current_height (add_up ts i) = current_height i"
  "index (add_up ts i) = index i"
  "creation_height (add_up ts i) = creation_height i"
  "address (add_up ts i) = address i"
  "confirmations_required (add_up ts i) = confirmations_required i"
  "expiration_height (add_up ts i) = expiration_height i"
  "description (add_up ts i) = description i"
  by (subst add_up_fields, simp)+

lemma amount_paid_add_up: "amount_paid (add_up ts i) = amount_paid i + sum_list (map t_amount ts)"
  by (induction ts rule: rev_induct) (auto simp: add_up_snoc Let_def)

definition zeroed :: "invoice \<Rightarrow> invoice" where
  "zeroed i = i\<lparr>paid_height := None, amount_paid := 0\<rparr>"

text \<open>The totals of an invoice are those of its transfers.\<close>

definition totals_ok :: "invoice \<Rightarrow> bool" where
  "totals_ok i \<longleftrightarrow> add_up (transfers i) (zeroed i) = i"

text \<open>Transfers by height, those of the txpool last.\<close>

definition ascending :: "transfer list \<Rightarrow> bool" where
  "ascending ts \<longleftrightarrow> sorted_wrt (\<lambda>t u. cmp_by_height t u \<noteq> Greater) ts"

lemma not_Greater_iff:
  "cmp_by_height t u \<noteq> Greater \<longleftrightarrow>
     (case t_height u of None \<Rightarrow> True | Some h \<Rightarrow> (\<exists>g. t_height t = Some g \<and> g \<le> h))"
  by (auto simp: cmp_by_height_def split: option.splits)

lemma ascending_snoc:
  "ascending (ts @ [t]) \<longleftrightarrow> ascending ts \<and> (\<forall>u \<in> set ts. cmp_by_height u t \<noteq> Greater)"
  by (simp add: ascending_def sorted_wrt_append)

text \<open>The total of the transfers in blocks up to a height.\<close>

definition received_by :: "u64 \<Rightarrow> transfer multiset \<Rightarrow> nat" where
  "received_by h ts = (\<Sum>t \<in># {#t \<in># ts. \<exists>g. t_height t = Some g \<and> g \<le> h#}. unat (t_amount t))"

definition heights :: "transfer multiset \<Rightarrow> u64 set" where
  "heights ts = {h. \<exists>t \<in># ts. t_height t = Some h}"

text \<open>The first height at which the blocks up to it have paid the amount.\<close>

definition first_paid :: "u64 \<Rightarrow> transfer multiset \<Rightarrow> u64 option \<Rightarrow> bool" where
  "first_paid requested ts p =
     (case p of
        None \<Rightarrow> \<forall>h \<in> heights ts. received_by h ts < unat requested
      | Some h \<Rightarrow> h \<in> heights ts \<and> unat requested \<le> received_by h ts \<and>
          (\<forall>g \<in> heights ts. g < h \<longrightarrow> received_by g ts < unat requested))"

lemma first_paid_unique:
  assumes "first_paid q ts p" and "first_paid q ts p'"
  shows "p = p'"
proof (cases p)
  case None
  then show ?thesis using assms by (cases p') (auto simp: first_paid_def not_le)
next
  case (Some h)
  then show ?thesis
    using assms by (cases p') (auto simp: first_paid_def not_le [symmetric] intro: antisym)
qed

lemma received_by_add:
  "received_by h (add_mset t ts) = received_by h ts +
     (if \<exists>g. t_height t = Some g \<and> g \<le> h then unat (t_amount t) else 0)"
  by (auto simp: received_by_def)

lemma heights_add:
  "heights (add_mset t ts) = heights ts \<union> set_option (t_height t)"
  by (auto simp: heights_def)

lemma unat_sum_list:
  assumes "(\<Sum>t \<leftarrow> ts. unat (t_amount t)) < 2 ^ 64"
  shows "unat (sum_list (map t_amount ts)) = (\<Sum>t \<leftarrow> ts. unat (t_amount t))"
  using assms
proof (induction ts)
  case (Cons t ts)
  then have "unat (t_amount t) + unat (sum_list (map t_amount ts)) < 2 ^ 64" by simp
  then have "unat (t_amount t + sum_list (map t_amount ts)) =
      unat (t_amount t) + unat (sum_list (map t_amount ts))"
    by (intro unat_add_lem [THEN iffD1]) simp
  with Cons show ?case by simp
qed simp

lemma received_by_all:
  assumes "\<forall>t \<in> set ts. \<exists>g. t_height t = Some g \<and> g \<le> h"
  shows "received_by h (mset ts) = (\<Sum>t \<leftarrow> ts. unat (t_amount t))"
  using assms by (induction ts) (auto simp: received_by_add received_by_def [of _ "{#}"])

lemma add_up_paid_height:
  assumes "ascending ts" and "(\<Sum>t \<leftarrow> ts. unat (t_amount t)) < 2 ^ 64"
  shows "first_paid (amount_requested i) (mset ts) (paid_height (add_up ts (zeroed i)))"
  using assms
proof (induction ts rule: rev_induct)
  case Nil
  then show ?case by (simp add: zeroed_def first_paid_def heights_def)
next
  case (snoc t ts)
  let ?q = "amount_requested i"
  let ?p = "paid_height (add_up ts (zeroed i))"
  have IH: "first_paid ?q (mset ts) ?p" using snoc by (simp add: ascending_snoc)
  have step: "paid_height (add_up (ts @ [t]) (zeroed i)) =
      (if ?q \<le> amount_paid (add_up (ts @ [t]) (zeroed i)) \<and> ?p = None then t_height t else ?p)"
    by (simp add: add_up_snoc Let_def zeroed_def)
  show ?case
  proof (cases "t_height t")
    case None
    then have "heights (mset (ts @ [t])) = heights (mset ts)"
      "received_by h (mset (ts @ [t])) = received_by h (mset ts)" for h
      by (simp_all add: heights_add received_by_add)
    then show ?thesis using IH step None by (auto simp: first_paid_def split: option.splits)
  next
    case (Some h0)
    have le: "\<exists>g. t_height u = Some g \<and> g \<le> h0" if "u \<in> set ts" for u
      using snoc.prems(1) that Some by (auto simp: ascending_snoc not_Greater_iff)
    have hts: "heights (mset (ts @ [t])) = insert h0 (heights (mset ts))"
      using Some by (simp add: heights_add)
    have below: "received_by g (mset (ts @ [t])) = received_by g (mset ts)" if "g < h0" for g
      using that Some by (auto simp: received_by_add)
    have above: "received_by g (mset ts) \<le> received_by g (mset (ts @ [t]))" for g
      by (simp add: received_by_add)
    have heights_le: "g \<le> h0" if "g \<in> heights (mset ts)" for g
      using that le by (auto simp: heights_def) fastforce
    have "unat (amount_paid (add_up (ts @ [t]) (zeroed i))) = (\<Sum>t \<leftarrow> ts @ [t]. unat (t_amount t))"
      by (simp only: amount_paid_add_up unat_sum_list [OF snoc.prems(2), symmetric])
        (simp add: zeroed_def)
    also have "\<dots> = received_by h0 (mset (ts @ [t]))"
      by (rule received_by_all [symmetric]) (use le Some in auto)
    finally have total: "?q \<le> amount_paid (add_up (ts @ [t]) (zeroed i)) \<longleftrightarrow>
        unat ?q \<le> received_by h0 (mset (ts @ [t]))" by (simp add: word_le_nat_alt)
    show ?thesis
    proof (cases ?p)
      case None
      then have low: "\<forall>g \<in> heights (mset ts). g < h0 \<longrightarrow> received_by g (mset (ts @ [t])) < unat ?q"
        using IH below by (simp add: first_paid_def)
      show ?thesis
      proof (cases "unat ?q \<le> received_by h0 (mset (ts @ [t]))")
        case True
        then show ?thesis using low None Some hts total step by (auto simp: first_paid_def)
      next
        case False
        then have "\<forall>g \<in> heights (mset (ts @ [t])). received_by g (mset (ts @ [t])) < unat ?q"
          using low hts heights_le by (metis insert_iff not_le order_le_less)
        with False None total step show ?thesis by (simp add: first_paid_def)
      qed
    next
      case (Some h1)
      have h1: "h1 \<in> heights (mset ts)" "unat ?q \<le> received_by h1 (mset ts)"
        and first: "\<forall>g \<in> heights (mset ts). g < h1 \<longrightarrow> received_by g (mset ts) < unat ?q"
        using IH Some by (auto simp: first_paid_def)
      have "received_by g (mset (ts @ [t])) < unat ?q"
        if "g \<in> heights (mset (ts @ [t]))" "g < h1" for g
      proof -
        have "h1 \<le> h0" using h1(1) heights_le by blast
        then show ?thesis using that first below [of g] hts by auto
      qed
      then show ?thesis
        using h1 above [of h1] hts step Some by (simp add: first_paid_def)
    qed
  qed
qed

text \<open>So the totals do not depend on the order of the transfers within a block.\<close>

lemma add_up_order:
  assumes "mset ts = mset us" and "ascending ts" and "ascending us"
    and "(\<Sum>t \<leftarrow> ts. unat (t_amount t)) < 2 ^ 64"
  shows "add_up ts (zeroed i) = add_up us (zeroed i)"
proof -
  have sum: "(\<Sum>t \<leftarrow> ts. f t) = (\<Sum>t \<leftarrow> us. f t)" for f :: "transfer \<Rightarrow> 'a::comm_monoid_add"
    using assms(1) by (metis mset_map sum_mset_sum_list)
  have "paid_height (add_up ts (zeroed i)) = paid_height (add_up us (zeroed i))"
    using add_up_paid_height [OF assms(2,4), of i] add_up_paid_height [OF assms(3), of i] assms(1,4)
    by (intro first_paid_unique [of "amount_requested i" "mset ts"]) (simp_all add: sum)
  moreover have "amount_paid (add_up ts (zeroed i)) = amount_paid (add_up us (zeroed i))"
    by (simp add: amount_paid_add_up sum)
  ultimately show ?thesis
    using add_up_fields [of ts "zeroed i"] add_up_fields [of us "zeroed i"] by simp
qed

section \<open>An invoice after a scan\<close>

definition refresh ::
  "u64 \<Rightarrow> u64 \<Rightarrow> (sub_index \<times> transfer) list \<Rightarrow> invoice \<Rightarrow> invoice" where
  "refresh H d found i = (case update_invoice H d found i of None \<Rightarrow> i | Some i' \<Rightarrow> i')"

definition retained :: "u64 \<Rightarrow> invoice \<Rightarrow> transfer list" where
  "retained d i = filter (\<lambda>t. cmp_by_height t (Transfer 0 (Some d)) = Less) (transfers i)"

text \<open>
  An invoice is left alone exactly when its height and the bag of its transfers stay the same;
  otherwise its totals are added up again.
\<close>

lemma update_invoice_eq:
  "update_invoice H d found i =
     (if mset (retained d i @ push_transfers found i) = mset (transfers i) \<and> current_height i = H + 1
      then None
      else Some (add_up (retained d i @ push_transfers found i)
        (zeroed (i\<lparr>transfers := retained d i @ push_transfers found i, current_height := H + 1\<rparr>))))"
proof -
  have "i\<lparr>current_height := H + 1, transfers := []\<rparr> = i\<lparr>transfers := []\<rparr> \<longleftrightarrow> current_height i = H + 1"
    by (cases i) auto
  then show ?thesis
    by (simp add: update_invoice_def Let_def invoice_eq_iff retained_def zeroed_def)
qed

lemma refresh_sel [simp]:
  "address (refresh H d found i) = address i"
  "index (refresh H d found i) = index i"
  "creation_height (refresh H d found i) = creation_height i"
  "amount_requested (refresh H d found i) = amount_requested i"
  "confirmations_required (refresh H d found i) = confirmations_required i"
  "expiration_height (refresh H d found i) = expiration_height i"
  "description (refresh H d found i) = description i"
  "current_height (refresh H d found i) = H + 1"
  by (auto simp: refresh_def update_invoice_eq zeroed_def)

lemma invoice_id_refresh [simp]: "invoice_id (refresh H d found i) = invoice_id i"
  by (simp add: invoice_id_def)

lemma mset_refresh:
  "mset (transfers (refresh H d found i)) = mset (retained d i) + mset (push_transfers found i)"
  by (auto simp: refresh_def update_invoice_eq zeroed_def)

lemma zeroed_simps [simp]:
  "zeroed (zeroed i) = zeroed i" "transfers (zeroed i) = transfers i"
  "zeroed (add_up ts i) = zeroed i"
  using add_up_record [of ts i] by (auto simp: zeroed_def)

lemma totals_ok_add_up: "totals_ok (add_up (transfers i) (zeroed i))"
  by (simp add: totals_ok_def)

lemma totals_ok_refresh: "totals_ok i \<Longrightarrow> totals_ok (refresh H d found i)"
  using totals_ok_add_up [of "i\<lparr>transfers := retained d i @ push_transfers found i, current_height := H + 1\<rparr>"]
  by (simp add: refresh_def update_invoice_eq)

lemma totals_ok_new: "totals_ok (invoice_new a ix ch amount confs ex desc)"
  by (simp add: totals_ok_def invoice_new_def zeroed_def)

lemma ascending_append:
  "ascending (ts @ us) \<longleftrightarrow>
     ascending ts \<and> ascending us \<and> (\<forall>t \<in> set ts. \<forall>u \<in> set us. cmp_by_height t u \<noteq> Greater)"
  by (simp add: ascending_def sorted_wrt_append)

lemma ascending_filter: "ascending ts \<Longrightarrow> ascending (filter P ts)"
  by (simp add: ascending_def sorted_wrt_filter)

lemma ascending_refresh:
  assumes "ascending (transfers i)" and "ascending (map snd found)"
    and "\<forall>(x, t) \<in> set found. cmp_by_height t (Transfer 0 (Some d)) \<noteq> Less"
  shows "ascending (transfers (refresh H d found i))"
proof -
  have "ascending (map snd (filter Q found))" for Q
    using assms(2) by (auto simp: ascending_def sorted_wrt_map sorted_wrt_filter)
  moreover have "cmp_by_height t u \<noteq> Greater"
    if "t \<in> set (retained d i)" "u \<in> set (push_transfers found i)" for t u
    using that assms(3)
    by (fastforce simp: retained_def push_transfers_def cmp_by_height_def split: option.splits)
  ultimately show ?thesis
    using assms(1)
    by (auto simp: refresh_def update_invoice_eq zeroed_def ascending_append retained_def
        push_transfers_def ascending_filter)
qed

section \<open>Invoices and the chain\<close>

text \<open>
  The payments of a subaddress on the chain as transfers: \<open>pay h\<close> are the amounts it is paid in
  the block of height \<open>h\<close>.
\<close>

definition chain_transfers :: "(nat \<Rightarrow> u64 multiset) \<Rightarrow> nat \<Rightarrow> nat \<Rightarrow> transfer multiset" where
  "chain_transfers pay lo hi =
     (\<Sum>h \<in> {lo..<hi}. image_mset (\<lambda>a. Transfer a (Some (of_nat h))) (pay h))"

definition confirmed :: "transfer multiset \<Rightarrow> transfer multiset" where
  "confirmed ts = {#t \<in># ts. t_height t \<noteq> None#}"

lemma chain_transfers_split:
  "lo \<le> mid \<Longrightarrow> mid \<le> hi \<Longrightarrow>
   chain_transfers pay lo hi = chain_transfers pay lo mid + chain_transfers pay mid hi"
  unfolding chain_transfers_def by (rule sum.atLeastLessThan_concat [symmetric])

lemma chain_transfers_cong:
  "(\<And>h. lo \<le> h \<Longrightarrow> h < hi \<Longrightarrow> pay h = pay' h) \<Longrightarrow> chain_transfers pay lo hi = chain_transfers pay' lo hi"
  by (simp add: chain_transfers_def)

lemma filter_chain_transfers:
  assumes "\<And>h a. lo \<le> h \<Longrightarrow> h < hi \<Longrightarrow> P (Transfer a (Some (of_nat h))) \<longleftrightarrow> lo' \<le> h \<and> h < hi'"
  shows "filter_mset P (chain_transfers pay lo hi) = chain_transfers pay (max lo lo') (min hi hi')"
proof -
  have filter_image: "filter_mset P (image_mset (\<lambda>a. Transfer a (Some (of_nat h))) (pay h)) =
      (if lo' \<le> h \<and> h < hi' then image_mset (\<lambda>a. Transfer a (Some (of_nat h))) (pay h) else {#})"
    if "lo \<le> h" "h < hi" for h
    using assms [OF that] by (simp add: filter_mset_image_mset) 
  have "filter_mset P (chain_transfers pay lo hi) =
      (\<Sum>h \<in> {lo..<hi}. filter_mset P (image_mset (\<lambda>a. Transfer a (Some (of_nat h))) (pay h)))"
    unfolding chain_transfers_def
    by (induction rule: finite_induct [OF finite_atLeastLessThan [of lo hi]]) auto
  also have "\<dots> = (\<Sum>h \<in> {lo..<hi}. if lo' \<le> h \<and> h < hi'
      then image_mset (\<lambda>a. Transfer a (Some (of_nat h))) (pay h) else {#})"
    by (rule sum.cong) (auto simp: filter_image)
  also have "\<dots> = chain_transfers pay (max lo lo') (min hi hi')"
    unfolding chain_transfers_def by (rule sum.mono_neutral_cong_right) auto
  finally show ?thesis .
qed

lemma word_less_of_nat: "m < 2 ^ 64 \<Longrightarrow> n < 2 ^ 64 \<Longrightarrow> (of_nat m :: u64) < of_nat n \<longleftrightarrow> m < n"
  by (simp add: word_less_nat_alt unsigned_of_nat take_bit_nat_eq_self)

lemma filter_confirmed:
  "filter_mset P (confirmed ts) = filter_mset (\<lambda>t. t_height t \<noteq> None \<and> P t) ts"
  by (simp add: confirmed_def filter_filter_mset conj_commute)

text \<open>
  If the block transfers of an invoice were the payments on the chain up to \<open>h0\<close>, the chain has
  not changed below \<open>d\<close>, and \<open>found\<close> holds the payments from \<open>f\<close> up to \<open>H\<close>, then a scan keeps
  those below \<open>d\<close> and adds those from \<open>f\<close>. With \<open>f = d\<close>, as in every scan but the first, they are
  again the payments on the chain, and the other transfers are those of the txpool; with \<open>f < d\<close>,
  as in a first scan, the payments from \<open>f\<close> to \<open>d\<close> are there twice.
\<close>

lemma refresh_transfers:
  assumes c: "creation_height i = of_nat c" "0 < c" and bounds: "H < 2 ^ 64" "h0 < 2 ^ 64" "c < 2 ^ 64"
    and d: "d \<le> Suc h0" "d < 2 ^ 64"
    and old: "confirmed (mset (transfers i)) = chain_transfers pay_old c (Suc h0)"
    and same: "\<And>h. c \<le> h \<Longrightarrow> h < d \<Longrightarrow> pay_old h = pay h"
    and found: "mset (map snd (filter (\<lambda>(x, t). x = index i) found)) =
      chain_transfers pay f (Suc H) + image_mset (\<lambda>a. Transfer a None) pool"
  shows "mset (transfers (refresh (of_nat H) (of_nat d) found i)) =
    chain_transfers pay c d + chain_transfers pay (max f c) (Suc H) + image_mset (\<lambda>a. Transfer a None) pool"
proof -
  have "mset (retained (of_nat d) i) =
      filter_mset (\<lambda>t. cmp_by_height t (Transfer 0 (Some (of_nat d))) = Less) (confirmed (mset (transfers i)))"
    by (auto simp: retained_def filter_confirmed cmp_by_height_Less_Some intro!: filter_mset_cong)
  also have "\<dots> = chain_transfers pay_old (max c 0) (min (Suc h0) d)"
    unfolding old using bounds d
    by (intro filter_chain_transfers) (auto simp: cmp_by_height_Less_Some word_less_of_nat)
  also have "\<dots> = chain_transfers pay c d"
    using d(1) same by (simp add: min_absorb2) (rule chain_transfers_cong)
  finally have retained: "mset (retained (of_nat d) i) = chain_transfers pay c d" .
  have c1: "(of_nat c :: u64) - 1 = of_nat (c - 1)"
    using c(2) by (simp add: of_nat_diff)
  have above: "(of_nat c :: u64) - 1 < of_nat h \<longleftrightarrow> c \<le> h" if "h \<le> H" for h
    using word_less_of_nat [of "c - 1" h] bounds c(2) that unfolding c1 by linarith
  let ?later = "\<lambda>t. cmp_by_height t (Transfer 0 (Some (creation_height i - 1))) = Greater"
  have "mset (push_transfers found i) =
      filter_mset ?later (mset (map snd (filter (\<lambda>(x, t). x = index i) found)))"
    by (induction found) (auto simp: push_transfers_def)
  also have "\<dots> = filter_mset ?later (chain_transfers pay f (Suc H)) +
      image_mset (\<lambda>a. Transfer a None) pool"
    unfolding found by (auto simp: cmp_by_height_Greater_Some filter_mset_eq_conv)
  also have "filter_mset ?later (chain_transfers pay f (Suc H)) =
      chain_transfers pay (max f c) (min (Suc H) (Suc H))"
    using bounds(1) by (intro filter_chain_transfers) (simp add: cmp_by_height_Greater_Some c(1) above)
  finally have pushed: "mset (push_transfers found i) =
      chain_transfers pay (max f c) (Suc H) + image_mset (\<lambda>a. Transfer a None) pool" by simp
  show ?thesis by (simp add: mset_refresh retained pushed add.assoc [symmetric])
qed

lemma refresh_tracks_chain:
  assumes c: "creation_height i = of_nat c" "0 < c" and bounds: "H < 2 ^ 64" "h0 < 2 ^ 64" "c < 2 ^ 64"
    and d: "d \<le> Suc h0" "d \<le> Suc H" "d < 2 ^ 64"
    and old: "confirmed (mset (transfers i)) = chain_transfers pay_old c (Suc h0)"
    and same: "\<And>h. c \<le> h \<Longrightarrow> h < d \<Longrightarrow> pay_old h = pay h"
    and found: "mset (map snd (filter (\<lambda>(x, t). x = index i) found)) =
      chain_transfers pay d (Suc H) + image_mset (\<lambda>a. Transfer a None) pool"
  shows "mset (transfers (refresh (of_nat H) (of_nat d) found i)) =
    chain_transfers pay c (Suc H) + image_mset (\<lambda>a. Transfer a None) pool"
proof -
  have "chain_transfers pay c d + chain_transfers pay (max d c) (Suc H) = chain_transfers pay c (Suc H)"
  proof (cases "c \<le> d")
    case True
    then show ?thesis using chain_transfers_split [OF True d(2)] by (simp add: max_absorb1)
  next
    case False
    then show ?thesis by (simp add: chain_transfers_def max_absorb2)
  qed
  then show ?thesis using refresh_transfers [OF c bounds d(1,3) old same found] by simp
qed

end
