(* ===== verification/Scan_Chain.thy ===== *)
theory Scan_Chain
  imports Invoice_Totals
begin

text \<open>
  A whole scan of \<open>src/src/scanner.rs\<close> against a daemon that serves one chain: what the scans of
  the caches find, what is saved, and that every tracked invoice keeps in step with the chain.
\<close>

section \<open>What a scan of the caches finds\<close>

definition credit_at :: "u64 option \<Rightarrow> owned_amount \<Rightarrow> sub_index \<times> transfer" where
  "credit_at h a = (oa_sub_index a, Transfer (oa_amount a) h)"

definition block_credits ::
  "('tx, 'k) monero_ops \<Rightarrow> 'k \<Rightarrow> (sub_index \<Rightarrow> bool) \<Rightarrow> 'tx list \<Rightarrow> owned_amount list" where
  "block_credits M checker P txs = concat (map (tx_credits M checker P) txs)"

lemma flat_found_transfers: "flat_transfers (found_transfers h amounts) = map (credit_at h) (all_amounts amounts)"
  by (induction amounts)
    (auto simp: flat_transfers_def found_transfers_def all_amounts_def credit_at_def)

lemma found_transfers_heights:
  "(k, xs) \<in> set (found_transfers h amounts) \<Longrightarrow> (x, t) \<in> set xs \<Longrightarrow> t_height t = h"
  by (auto simp: found_transfers_def)

text \<open>
  The transfers found in the blocks, from the deepest scanned block up to the top one: \<open>L i\<close>
  are those of the block \<open>i\<close> below the top.
\<close>

definition found_in_blocks ::
  "('tx, 'k) monero_ops \<Rightarrow> 'k \<Rightarrow> (sub_index \<Rightarrow> bool) \<Rightarrow> u64 \<Rightarrow> 'tx cached_block list \<Rightarrow> nat \<Rightarrow>
   (sub_index \<times> transfer) list \<Rightarrow> bool" where
  "found_in_blocks M checker P height blocks n found \<longleftrightarrow>
     (\<exists>L. found = concat (map L (rev [0..<n])) \<and>
        (\<forall>i < n. mset (L i) = image_mset (credit_at (Some (height - of_nat i)))
           (mset (block_credits M checker P (cb_txs (blocks ! i))))))"

lemma found_in_blocks_cong:
  assumes "\<And>i. i < n \<Longrightarrow> cb_txs (blocks ! i) = cb_txs (blocks' ! i)"
  shows "found_in_blocks M checker P height blocks n found \<longleftrightarrow>
    found_in_blocks M checker P height blocks' n found"
  using assms by (simp add: found_in_blocks_def)

lemma wp_scan_block:
  assumes contains: "\<And>x. st_contains_sub_index S x (sn_store \<sigma>) = Inr (P x)"
    and i: "i < length (bc_blocks (sn_block_cache \<sigma>))"
    and txs: "\<forall>tx \<in> set (cb_txs (bc_blocks (sn_block_cache \<sigma>) ! i)). scannable M checker P tx"
  shows "wp (scan_block S M checker i acc)
    (\<lambda>r \<sigma>'. \<sigma>' = \<sigma> \<and> (\<exists>l. r = acc @ l \<and>
       mset l = image_mset (credit_at (Some (bc_height (sn_block_cache \<sigma>) - of_nat i)))
         (mset (block_credits M checker P (cb_txs (bc_blocks (sn_block_cache \<sigma>) ! i))))))
    (\<lambda>_ _. False) \<sigma>"
  using i
  by (auto simp: scan_block_def wp_simps flat_found_transfers block_credits_def
      intro!: wp_mono [OF wp_scan_transactions [OF contains txs]])

lemma wp_scan_blocks:
  assumes contains: "\<And>x. st_contains_sub_index S x (sn_store \<sigma>) = Inr (P x)"
    and n: "n = (if sn_first_scan \<sigma> then length (bc_blocks (sn_block_cache \<sigma>)) else blocks_updated)"
      "n \<le> length (bc_blocks (sn_block_cache \<sigma>))"
    and txs: "\<forall>b \<in> set (bc_blocks (sn_block_cache \<sigma>)). \<forall>tx \<in> set (cb_txs b). scannable M checker P tx"
  shows "wp (scan_blocks S M checker blocks_updated)
    (\<lambda>r \<sigma>'. \<sigma>' = \<sigma> \<and> found_in_blocks M checker P (bc_height (sn_block_cache \<sigma>))
       (bc_blocks (sn_block_cache \<sigma>)) n r)
    (\<lambda>_ _. False) \<sigma>"
proof -
  let ?bs = "bc_blocks (sn_block_cache \<sigma>)" and ?h = "bc_height (sn_block_cache \<sigma>)"
  let ?block = "\<lambda>i l. mset l = image_mset (credit_at (Some (?h - of_nat i)))
    (mset (block_credits M checker P (cb_txs (?bs ! i))))"
  have "wp (for_loop (scan_block S M checker) (rev [0..<n]) [])
    (\<lambda>r \<sigma>'. \<sigma>' = \<sigma> \<and> (\<exists>L. r = concat (map L (rev [0..<n])) \<and> (\<forall>i \<in> set (rev [0..<n]). ?block i (L i))))
    (\<lambda>_ _. False) \<sigma>"
  proof (rule wp_for_loop [where I = "\<lambda>pre r \<sigma>'. \<sigma>' = \<sigma> \<and>
      (\<exists>L. r = concat (map L pre) \<and> (\<forall>i \<in> set pre. ?block i (L i)))"])
    fix pre i post r \<sigma>'
    assume split: "rev [0..<n] = pre @ i # post"
      and I: "\<sigma>' = \<sigma> \<and> (\<exists>L. r = concat (map L pre) \<and> (\<forall>i \<in> set pre. ?block i (L i)))"
    from I obtain L where L: "r = concat (map L pre)" "\<forall>i \<in> set pre. ?block i (L i)" by blast
    have "i \<in> set (rev [0..<n])" unfolding split by simp
    then have i: "i < length ?bs" using n(2) by simp
    have "distinct (pre @ i # post)" unfolding split [symmetric] by simp
    then have fresh: "i \<notin> set pre" by simp
    have "\<exists>L. r @ l = concat (map L (pre @ [i])) \<and> (\<forall>i \<in> set (pre @ [i]). ?block i (L i))"
      if "?block i l" for l
    proof (intro exI conjI)
      show "r @ l = concat (map (L(i := l)) (pre @ [i]))"
        using L(1) fresh by (simp add: map_fun_upd)
      show "\<forall>j \<in> set (pre @ [i]). ?block j ((L(i := l)) j)" using L(2) fresh that by auto
    qed
    moreover have "\<forall>tx \<in> set (cb_txs (?bs ! i)). scannable M checker P tx" using txs i by auto
    note wp_scan_block [OF contains i this, of r]
    ultimately show "wp (scan_block S M checker i r)
        (\<lambda>r \<sigma>'. \<sigma>' = \<sigma> \<and> (\<exists>L. r = concat (map L (pre @ [i])) \<and> (\<forall>i \<in> set (pre @ [i]). ?block i (L i))))
        (\<lambda>_ _. False) \<sigma>'"
      using I by (auto elim!: wp_mono)
  qed auto
  then show ?thesis
    by (simp add: scan_blocks_def wp_simps n(1) [symmetric] found_in_blocks_def Ball_def)
qed

text \<open>They come in ascending order, and those of one subaddress are its payments on the chain.\<close>

lemma found_in_blocks_ascending:
  assumes "found_in_blocks M checker P height blocks n found" and "n \<le> Suc (unat height)"
  shows "ascending (map snd found)"
    and "(x, t) \<in> set found \<Longrightarrow> \<exists>h. t_height t = Some h \<and> unat height + 1 - n \<le> unat h"
proof -
  obtain L where L: "found = concat (map L (rev [0..<n]))"
    and bag: "\<And>i. i < n \<Longrightarrow> mset (L i) = image_mset (credit_at (Some (height - of_nat i)))
           (mset (block_credits M checker P (cb_txs (blocks ! i))))"
    using assms(1) by (auto simp: found_in_blocks_def)
  have at: "t_height (snd u) = Some (height - of_nat i)" if "u \<in> set (L i)" "i < n" for u i
  proof -
    have "u \<in># mset (L i)" using that(1) by simp
    then show ?thesis unfolding bag [OF that(2)] by (auto simp: credit_at_def)
  qed
  have "ascending (map snd (concat (map L (rev [0..<m]))))" if "m \<le> n" for m
    using that
  proof (induction m)
    case (Suc m)
    have "ascending (map snd (L m))"
      using Suc.prems at [of _ m] by (auto simp: ascending_def sorted_wrt_map not_Greater_iff
          intro!: sorted_wrt_mono_rel [OF _ sorted_wrt_true])
    moreover have "cmp_by_height (snd u) (snd v) \<noteq> Greater"
      if "u \<in> set (L m)" "v \<in> set (L i)" "i < m" for u v i
    proof -
      have "height - of_nat m \<le> height - of_nat i"
        using Suc.prems that(3) assms(2) by (simp add: word_le_nat_alt unat_sub_of_nat)
      then show ?thesis using at [OF that(1)] at [OF that(2)] that(3) Suc.prems
        by (simp add: not_Greater_iff)
    qed
    ultimately show ?case using Suc by (auto simp: ascending_append)
  qed (simp add: ascending_def)
  then show "ascending (map snd found)" using L by simp
  show "(x, t) \<in> set found \<Longrightarrow> \<exists>h. t_height t = Some h \<and> unat height + 1 - n \<le> unat h"
  proof -
    assume "(x, t) \<in> set found"
    then obtain i where i: "i < n" "(x, t) \<in> set (L i)" using L by auto
    from at [OF i(2,1)] i(1) assms(2) show ?thesis by (simp add: unat_sub_of_nat)
  qed
qed

text \<open>
  What a transaction pays a subaddress: the amounts of its own outputs. The code credits the amount
  of the first owned output for each of them, so what it finds is what was paid when the owned
  outputs of a transaction, if there are several, have the same amount.
\<close>

definition tx_pays ::
  "('tx, 'k) monero_ops \<Rightarrow> 'k \<Rightarrow> sub_index \<Rightarrow> 'tx \<Rightarrow> u64 list" where
  "tx_pays M checker x tx =
     (if mo_unlock_time M tx \<noteq> 0 then []
      else
        (case mo_check_outputs M tx checker of
           Inl _ \<Rightarrow> []
         | Inr outputs \<Rightarrow> List.map_filter oo_amount (filter (\<lambda>out. oo_sub_index out = x) outputs)))"

definition payable ::
  "('tx, 'k) monero_ops \<Rightarrow> 'k \<Rightarrow> 'tx \<Rightarrow> bool" where
  "payable M checker tx \<longleftrightarrow>
     (mo_unlock_time M tx = 0 \<longrightarrow>
        (case mo_check_outputs M tx checker of
           Inl _ \<Rightarrow> False
         | Inr outputs \<Rightarrow>
             list_all (\<lambda>out. oo_amount out \<noteq> None \<and> oo_amount out = oo_amount (outputs ! 0)) outputs))"

lemma payable_scannable: "payable M checker tx \<Longrightarrow> scannable M checker P tx"
  by (cases "mo_check_outputs M tx checker")
    (simp_all add: payable_def scannable_def list_all_iff list_ex_iff del: not_None_eq, metis)

lemma tx_pays_credits:
  assumes "payable M checker tx"
  shows "map oa_amount (tx_credits M checker (\<lambda>y. y = x) tx) = tx_pays M checker x tx"
proof -
  have "map (\<lambda>_. the a) (filter Q outs) = List.map_filter oo_amount (filter Q outs)"
    if "\<forall>out \<in> set outs. oo_amount out \<noteq> None \<and> oo_amount out = a" for a Q outs
    using that by (induction outs) (auto simp: List.map_filter_def)
  then show ?thesis
    using assms by (auto simp: tx_credits_def tx_pays_def payable_def o_def list_all_iff split: sum.splits)
qed

definition paid_in ::
  "('tx, 'k) monero_ops \<Rightarrow> 'k \<Rightarrow> sub_index \<Rightarrow> 'tx list \<Rightarrow> u64 multiset" where
  "paid_in M checker x txs = mset (concat (map (tx_pays M checker x) txs))"

lemma paid_in_credits:
  assumes "\<forall>tx \<in> set txs. payable M checker tx"
  shows "image_mset oa_amount (mset (block_credits M checker (\<lambda>y. y = x) txs)) = paid_in M checker x txs"
  using assms
  by (induction txs) (auto simp: block_credits_def paid_in_def tx_pays_credits [symmetric])

definition chain_pay ::
  "('tx, 'k) monero_ops \<Rightarrow> 'k \<Rightarrow> (u64 \<Rightarrow> 'tx cached_block) \<Rightarrow> sub_index \<Rightarrow> nat \<Rightarrow> u64 multiset" where
  "chain_pay M checker chain x h = paid_in M checker x (cb_txs (chain (of_nat h)))"

lemma filter_block_credits:
  assumes "P x"
  shows "filter (\<lambda>a. oa_sub_index a = x) (block_credits M checker P txs) =
    block_credits M checker (\<lambda>y. y = x) txs"
proof -
  have P: "P (oo_sub_index out) \<and> oo_sub_index out = x \<longleftrightarrow> oo_sub_index out = x" for out
    using assms by auto
  have "filter (\<lambda>a. oa_sub_index a = x) (tx_credits M checker P tx) =
      tx_credits M checker (\<lambda>y. y = x) tx" for tx
    by (simp add: tx_credits_def filter_map o_def filter_filter P split: sum.splits)
  then show ?thesis by (simp add: block_credits_def filter_concat o_def)
qed

lemma found_in_blocks_payments:
  assumes found: "found_in_blocks M checker P (of_nat H) blocks n found"
    and n: "n \<le> Suc H" "H < 2 ^ 64" and P: "P x"
    and blocks: "\<And>i. i < n \<Longrightarrow> blocks ! i = chain (of_nat H - of_nat i)"
    and pays: "\<And>i. i < n \<Longrightarrow> \<forall>tx \<in> set (cb_txs (blocks ! i)). payable M checker tx"
  shows "mset (map snd (filter (\<lambda>(y, t). y = x) found)) =
    chain_transfers (chain_pay M checker chain x) (Suc H - n) (Suc H)"
proof -
  obtain L where L: "found = concat (map L (rev [0..<n]))"
    and bag: "\<And>i. i < n \<Longrightarrow> mset (L i) = image_mset (credit_at (Some (of_nat H - of_nat i)))
           (mset (block_credits M checker P (cb_txs (blocks ! i))))"
    using found by (auto simp: found_in_blocks_def)
  have one: "mset (map snd (filter (\<lambda>(y, t). y = x) (L i))) =
      image_mset (\<lambda>a. Transfer a (Some (of_nat (H - i)))) (chain_pay M checker chain x (H - i))"
    if "i < n" for i
  proof -
    have i: "(of_nat H :: u64) - of_nat i = of_nat (H - i)" using that n by (simp add: of_nat_diff)
    have "mset (map snd (filter (\<lambda>(y, t). y = x) (L i))) =
        image_mset snd (filter_mset (\<lambda>(y, t). y = x) (mset (L i)))" by simp
    also have "\<dots> = image_mset (\<lambda>a. Transfer (oa_amount a) (Some (of_nat (H - i))))
        (filter_mset (\<lambda>a. oa_sub_index a = x) (mset (block_credits M checker P (cb_txs (blocks ! i)))))"
      by (simp add: bag [OF that] i filter_mset_image_mset multiset.map_comp o_def credit_at_def)
    also have "filter_mset (\<lambda>a. oa_sub_index a = x) (mset (block_credits M checker P (cb_txs (blocks ! i)))) =
        mset (block_credits M checker (\<lambda>y. y = x) (cb_txs (chain (of_nat (H - i)))))"
      using filter_block_credits [of P x M checker] P
      by (simp add: mset_filter [symmetric] blocks [OF that] i)
    finally show ?thesis
      using paid_in_credits [OF pays [OF that], of x, symmetric]
      by (simp add: chain_pay_def blocks [OF that] i multiset.map_comp o_def)
  qed
  have "mset (map snd (filter (\<lambda>(y, t). y = x) (concat (map L (rev [0..<m]))))) =
      chain_transfers (chain_pay M checker chain x) (Suc H - m) (Suc H)" if "m \<le> n" for m
    using that
  proof (induction m)
    case 0
    then show ?case by (simp add: chain_transfers_def)
  next
    case (Suc m)
    then have "Suc H - m = Suc (H - m)" using n by simp
    then have "chain_transfers (chain_pay M checker chain x) (Suc H - Suc m) (Suc H) =
        image_mset (\<lambda>a. Transfer a (Some (of_nat (H - m)))) (chain_pay M checker chain x (H - m)) +
        chain_transfers (chain_pay M checker chain x) (Suc H - m) (Suc H)"
      unfolding chain_transfers_def by (subst sum.atLeast_Suc_lessThan) auto
    then show ?case using Suc one [of m] by (simp del: mset_map mset_filter)
  qed
  then show ?thesis using L by blast
qed

section \<open>The txpool\<close>

text \<open>Transfers discovered in the txpool have no height.\<close>

definition pool_unconfirmed :: "'tx txpool_cache \<Rightarrow> bool" where
  "pool_unconfirmed c \<longleftrightarrow>
     list_all (\<lambda>(_, xs). list_all (\<lambda>(_, t). t_height t = None) xs) (tp_discovered c)"

lemma set_hm_extend: "set (hm_extend m kvs) \<subseteq> set m \<union> set kvs"
proof (induction kvs arbitrary: m)
  case (Cons kv kvs)
  have "set (AList.update k v m) \<subseteq> insert (k, v) (set m)" for k v
    by (induction m) auto
  then show ?case using Cons [of "AList.update (fst kv) (snd kv) m"]
    by (cases kv) (auto simp: hm_extend_def)
qed (simp add: hm_extend_def)

lemma wp_scan_txpool:
  assumes contains: "\<And>x. st_contains_sub_index S x (sn_store \<sigma>) = Inr (P x)"
    and txs: "\<forall>tx \<in> set new. scannable M checker P tx"
    and pool: "pool_unconfirmed (sn_txpool_cache \<sigma>)"
  shows "wp (scan_txpool S M checker new)
    (\<lambda>r \<sigma>'. (\<forall>(x, t) \<in> set r. t_height t = None) \<and> pool_unconfirmed (sn_txpool_cache \<sigma>') \<and>
       tp_transactions (sn_txpool_cache \<sigma>') = tp_transactions (sn_txpool_cache \<sigma>) \<and>
       \<sigma>' = \<sigma>\<lparr>sn_txpool_cache := sn_txpool_cache \<sigma>'\<rparr>)
    (\<lambda>_ _. False) \<sigma>"
proof -
  have unconfirmed: "t_height t = None"
    if "(x, t) \<in> set (flat_transfers (hm_extend (found_transfers None amounts)
          (tp_discovered (sn_txpool_cache \<sigma>))))" for x t amounts
    using that pool set_hm_extend [of "found_transfers None amounts" "tp_discovered (sn_txpool_cache \<sigma>)"]
      found_transfers_heights [of _ _ None amounts]
    by (fastforce simp: flat_transfers_def pool_unconfirmed_def list_all_iff)
  have keep: "pool_unconfirmed (insert_transfers (found_transfers None amounts) (sn_txpool_cache \<sigma>))"
    for amounts
    using pool set_hm_extend [of "tp_discovered (sn_txpool_cache \<sigma>)" "found_transfers None amounts"]
      found_transfers_heights [of _ _ None amounts]
    by (fastforce simp: insert_transfers_def pool_unconfirmed_def list_all_iff)
  show ?thesis
    using unconfirmed keep
    by (auto simp: scan_txpool_def wp_simps insert_transfers_def
        intro!: wp_mono [OF wp_scan_transactions [OF contains txs]])
qed

section \<open>A whole scan\<close>

text \<open>A publication that does not return waits for a channel.\<close>

lemma wp_send_updates: "wp (send_updates ivc) (\<lambda>_ _. True) (\<lambda>e _. e = Blocked) p"
  by (auto simp: send_updates_def wp_simps intro!: wp_I dest: send_loop_only_blocks)

lemma wp_on_publisher [wp_simps]:
  "wp (on_publisher m) Q E \<sigma> =
     wp m (\<lambda>x p. Q x (\<sigma>\<lparr>sn_publisher := p\<rparr>)) (\<lambda>e p. E e (\<sigma>\<lparr>sn_publisher := p\<rparr>)) (sn_publisher \<sigma>)"
  by (simp add: wp_def on_publisher_def split: prod.splits sum.splits)

definition by_id :: "invoice list \<Rightarrow> (invoice_id \<times> invoice) list" where
  "by_id is = map (\<lambda>i. (invoice_id i, i)) is"

lemma map_of_by_id:
  assumes "distinct (map invoice_id is)"
  shows "map_of (rev (by_id is)) k = Some i \<longleftrightarrow> i \<in> set is \<and> invoice_id i = k"
proof -
  have "distinct (map fst (rev (by_id is)))"
    using assms by (simp add: by_id_def rev_map [symmetric] o_def)
  then have "map_of (rev (by_id is)) k = Some i \<longleftrightarrow> (k, i) \<in> set (rev (by_id is))"
    by (rule map_of_eq_Some_iff)
  then show ?thesis by (auto simp: by_id_def)
qed

text \<open>The part of the state a save leaves alone.\<close>

definition same_caches ::
  "('tx, 's, 'w) scan_state \<Rightarrow> ('tx, 's, 'w) scan_state \<Rightarrow> bool" where
  "same_caches \<sigma> \<sigma>' \<longleftrightarrow>
     sn_block_cache \<sigma>' = sn_block_cache \<sigma> \<and> sn_txpool_cache \<sigma>' = sn_txpool_cache \<sigma> \<and>
     sn_first_scan \<sigma>' = sn_first_scan \<sigma> \<and> sn_world \<sigma>' = sn_world \<sigma>"

text \<open>A map of invoices after some of them are saved over it.\<close>

definition saved ::
  "(invoice_id \<rightharpoonup> invoice) \<Rightarrow> invoice list \<Rightarrow> invoice_id \<rightharpoonup> invoice" where
  "saved L is k = (if L k = None then None else (L ++ map_of (rev (by_id is))) k)"

lemma saved_None_iff: "saved L is k = None \<longleftrightarrow> L k = None"
  by (auto simp: saved_def map_add_None)

lemma saved_snoc:
  "saved L (is @ [i]) =
     (if saved L is (invoice_id i) = None then saved L is else (saved L is)(invoice_id i \<mapsto> i))"
proof
  fix k
  show "saved L (is @ [i]) k =
     (if saved L is (invoice_id i) = None then saved L is else (saved L is)(invoice_id i \<mapsto> i)) k"
    by (cases "k = invoice_id i") (auto simp: saved_None_iff, auto simp: saved_def by_id_def map_add_def)
qed

context invoice_storage begin

lemma wp_save_invoice:
  assumes s: "ok (sn_store \<sigma>)"
  shows "wp (save_invoice S i ())
    (\<lambda>_ \<sigma>'. ok (sn_store \<sigma>') \<and> same_caches \<sigma> \<sigma>' \<and>
       lookup (sn_store \<sigma>') = (if lookup (sn_store \<sigma>) (invoice_id i) = None then lookup (sn_store \<sigma>)
         else (lookup (sn_store \<sigma>))(invoice_id i \<mapsto> i)))
    (\<lambda>e _. e = Blocked) \<sigma>"
proof -
  obtain s' where s': "st_update S i (sn_store \<sigma>) = (Inr (lookup (sn_store \<sigma>) (invoice_id i)), s')"
      "ok s'" "lookup s' = (if lookup (sn_store \<sigma>) (invoice_id i) = None then lookup (sn_store \<sigma>)
         else (lookup (sn_store \<sigma>))(invoice_id i \<mapsto> i))"
    using update [OF s, of i] by blast
  have "save_invoice S i () \<sigma> = on_publisher (send_updates i) (\<sigma>\<lparr>sn_store := s'\<rparr>)"
    by (simp add: save_invoice_def s'(1))
  moreover have "wp (on_publisher (send_updates i)) (\<lambda>_ \<sigma>'. ok (sn_store \<sigma>') \<and> same_caches \<sigma> \<sigma>' \<and>
       lookup (sn_store \<sigma>') = lookup s') (\<lambda>e _. e = Blocked) (\<sigma>\<lparr>sn_store := s'\<rparr>)"
    using s'(2) by (auto simp: wp_simps same_caches_def intro!: wp_mono [OF wp_send_updates])
  ultimately show ?thesis unfolding s'(3) by (simp add: wp_def)
qed

text \<open>
  Saving overwrites the invoices that are still in the store, and no other: an invoice that was
  removed since it was read is not brought back.
\<close>

lemma wp_scan_save:
  assumes s: "ok (sn_store \<sigma>)"
  shows "wp (scan_save S is)
    (\<lambda>_ \<sigma>'. ok (sn_store \<sigma>') \<and> same_caches \<sigma> \<sigma>' \<and>
       lookup (sn_store \<sigma>') = saved (lookup (sn_store \<sigma>)) is)
    (\<lambda>e _. e = Blocked) \<sigma>"
proof -
  let ?I = "\<lambda>pre \<sigma>'. ok (sn_store \<sigma>') \<and> same_caches \<sigma> \<sigma>' \<and>
       lookup (sn_store \<sigma>') = saved (lookup (sn_store \<sigma>)) pre"
  have "wp (for_loop (save_invoice S) is ()) (\<lambda>_. ?I is) (\<lambda>e _. e = Blocked) \<sigma>"
  proof (rule wp_for_loop [where I = "\<lambda>pre _. ?I pre"])
    show "?I [] \<sigma>" using s by (auto simp: saved_def by_id_def same_caches_def fun_eq_iff)
  next
    fix pre i post \<sigma>' and u :: unit
    assume I: "?I pre \<sigma>'"
    then have "ok (sn_store \<sigma>')" by blast
    from wp_save_invoice [OF this, of i] I
    show "wp (save_invoice S i u) (\<lambda>_. ?I (pre @ [i])) (\<lambda>e _. e = Blocked) \<sigma>'"
      unfolding saved_snoc by (auto simp: same_caches_def elim!: wp_mono)
  qed simp
  then have "wp (for_loop (save_invoice S) is ()) (\<lambda>_. wp (on_store (query (st_flush S)))
      (\<lambda>_. ?I is) (\<lambda>e _. e = Blocked)) (\<lambda>e _. e = Blocked) \<sigma>"
    by (rule wp_mono) (auto simp: wp_simps flush same_caches_def)
  then show ?thesis by (simp add: scan_save_def wp_simps)
qed

text \<open>From reading the invoices to saving them, a scan refreshes each tracked invoice.\<close>

lemma wp_scan_write:
  assumes s: "ok (sn_store \<sigma>)" and H: "bc_height (sn_block_cache \<sigma>) = H"
  shows "wp (bind (scan_prepare S n found) (scan_save S))
    (\<lambda>_ \<sigma>'. ok (sn_store \<sigma>') \<and> same_caches \<sigma> \<sigma>' \<and>
       lookup (sn_store \<sigma>') =
         (\<lambda>k. map_option (refresh H (H - of_nat n + 1) found) (lookup (sn_store \<sigma>) k)))
    (\<lambda>e _. e = Blocked) \<sigma>"
proof -
  let ?u = "update_invoice H (H - of_nat n + 1) found"
  obtain "is" where "is": "st_try_iter S (sn_store \<sigma>) = Inr (map Inr is)" "distinct (map invoice_id is)"
      "\<And>i. i \<in> set is \<longleftrightarrow> lookup (sn_store \<sigma>) (invoice_id i) = Some i"
    using iter [OF s] by blast
  let ?us = "List.map_filter ?u is"
  have u_id: "invoice_id i' = invoice_id i" if "?u i = Some i'" for i i'
    using invoice_id_refresh [of H "H - of_nat n + 1" found i] that by (simp add: refresh_def)
  have ids: "map invoice_id ?us = map invoice_id (filter (\<lambda>i. ?u i \<noteq> None) is)"
    using u_id by (induction "is") (auto simp: List.map_filter_def)
  have dist: "distinct (map invoice_id ?us)" unfolding ids using "is"(2) by (rule distinct_map_filter)
  have "saved (lookup (sn_store \<sigma>)) ?us k = map_option (refresh H (H - of_nat n + 1) found) (lookup (sn_store \<sigma>) k)" for k
  proof (cases "lookup (sn_store \<sigma>) k")
    case (Some i)
    then have i: "invoice_id i = k" "i \<in> set is" using keyed [OF s Some] "is"(3) by auto
    show ?thesis
    proof (cases "?u i")
      case None
      have "map_of (rev (by_id ?us)) k = None"
      proof (rule ccontr)
        assume "map_of (rev (by_id ?us)) k \<noteq> None"
        then obtain j where "j \<in> set ?us" "invoice_id j = k" using map_of_by_id [OF dist] by auto
        then obtain i' where i': "i' \<in> set is" "?u i' = Some j" "invoice_id i' = k"
          using u_id by (auto simp: List.map_filter_def)
        then have "lookup (sn_store \<sigma>) k = Some i'" using "is"(3) [of i'] by auto
        with i' None Some show False by simp
      qed
      with Some None show ?thesis by (simp add: saved_def map_add_def refresh_def)
    next
      case (Some i')
      then have "i' \<in> set ?us" using i(2) by (auto simp: List.map_filter_def intro!: rev_image_eqI)
      then have "map_of (rev (by_id ?us)) k = Some i'"
        using map_of_by_id [OF dist, of k i'] u_id [OF Some] i(1) by auto
      with Some \<open>lookup (sn_store \<sigma>) k = Some i\<close> show ?thesis
        by (simp add: saved_def map_add_def refresh_def)
    qed
  qed (simp add: saved_def)
  then have eq: "saved (lookup (sn_store \<sigma>)) ?us =
      (\<lambda>k. map_option (refresh H (H - of_nat n + 1) found) (lookup (sn_store \<sigma>) k))" by blast
  have "wp (scan_save S ?us)
    (\<lambda>_ \<sigma>'. ok (sn_store \<sigma>') \<and> same_caches \<sigma> \<sigma>' \<and> lookup (sn_store \<sigma>') =
         (\<lambda>k. map_option (refresh H (H - of_nat n + 1) found) (lookup (sn_store \<sigma>) k)))
    (\<lambda>e _. e = Blocked) \<sigma>"
    using wp_scan_save [OF s, of ?us] unfolding eq .
  then show ?thesis by (simp add: scan_prepare_def wp_simps "is"(1) H)
qed

end

section \<open>Scanning with an honest daemon\<close>

lemma scannable_mono: "scannable M checker (\<lambda>_. True) tx \<Longrightarrow> scannable M checker P tx"
  by (cases "mo_check_outputs M tx checker")
    (auto simp: scannable_def list_ex_iff dest: length_pos_if_in_set)

text \<open>
  The daemon also answers the queries for its txpool, and every transaction it serves can be
  checked, with the amount of its first owned output known.
\<close>

definition serves_pool ::
  "('w, 'tx) rpc_ops \<Rightarrow> 'w set \<Rightarrow> ('tx \<Rightarrow> bool) \<Rightarrow> bool" where
  "serves_pool R W good \<longleftrightarrow>
     (\<forall>w \<in> W. \<exists>hs w'. rpc_txpool_hashes R w = (Inr hs, w') \<and> w' \<in> W) \<and>
     (\<forall>hs. \<forall>w \<in> W. \<exists>txs w'. rpc_transactions_by_hashes R hs w = (Inr txs, w') \<and> w' \<in> W \<and>
        (\<forall>tx \<in> set txs. good tx))"

lemma wp_txpool_cache_update_served:
  fixes R :: "('w, 'tx) rpc_ops"
  assumes pool: "serves_pool R W good" and w: "w \<in> W" and c: "pool_unconfirmed c"
  shows "wp (txpool_cache_update R h :: ('w, 'tx, 'e, 'tx list) txpool_cache_act)
    (\<lambda>new (c', w'). w' \<in> W \<and> (\<forall>tx \<in> set new. good tx) \<and> pool_unconfirmed c')
    (\<lambda>_ _. False) (c, w)"
proof -
  obtain hs w1 where w1: "rpc_txpool_hashes R w = (Inr hs, w1)" "w1 \<in> W"
    using pool w unfolding serves_pool_def by blast
  define wanted where "wanted = filter (\<lambda>h. h \<notin> cached_hashes c) hs"
  obtain txs w2 where w2: "rpc_transactions_by_hashes R wanted w1 = (Inr txs, w2)" "w2 \<in> W"
      "\<forall>tx \<in> set txs. good tx"
    using pool w1(2) unfolding serves_pool_def by blast
  have "pool_unconfirmed (retain_hashes hs c)"
    using c by (auto simp: pool_unconfirmed_def retain_hashes_def hm_retain_def list_all_iff)
  then have "pool_unconfirmed ((retain_hashes hs c)\<lparr>tp_transactions := m\<rparr>)" for m
    by (simp add: pool_unconfirmed_def)
  with w2 show ?thesis
    by (simp add: wp_def txpool_cache_update_eq [OF w1(1) wanted_def w2(1)])
qed

text \<open>
  \<open>follows M checker chain h i\<close>: the block transfers of the invoice are the payments its
  subaddress received on the chain from the creation of the invoice up to height \<open>h\<close>, its transfers
  are in order of height, and its totals are those of its transfers.
\<close>

definition follows ::
  "('tx, 'k) monero_ops \<Rightarrow> 'k \<Rightarrow> (u64 \<Rightarrow> 'tx cached_block) \<Rightarrow> u64 \<Rightarrow> invoice \<Rightarrow> bool" where
  "follows M checker chain h i \<longleftrightarrow> 0 < creation_height i \<and>
     confirmed (mset (transfers i)) =
       chain_transfers (chain_pay M checker chain (index i)) (unat (creation_height i)) (Suc (unat h)) \<and>
     ascending (transfers i) \<and> totals_ok i"

lemma confirmed_simps [simp]:
  "confirmed (ts + us) = confirmed ts + confirmed us"
  "confirmed (image_mset (\<lambda>a. Transfer a None) as) = {#}"
  by (auto simp: confirmed_def filter_mset_eq_conv)

lemma confirmed_chain_transfers [simp]:
  "confirmed (chain_transfers pay lo hi) = chain_transfers pay lo hi"
proof -
  have "filter_mset (\<lambda>t. t_height t \<noteq> None) (chain_transfers pay lo hi) =
      chain_transfers pay (max lo 0) (min hi hi)"
    by (rule filter_chain_transfers) auto
  then show ?thesis by (simp add: confirmed_def)
qed

lemma unconfirmed_image:
  "\<forall>t \<in># ts. t_height t = None \<Longrightarrow> ts = image_mset (\<lambda>a. Transfer a None) (image_mset t_amount ts)"
proof (induction ts)
  case (add t ts)
  then have "t = Transfer (t_amount t) None" by (cases t) auto
  with add show ?case by simp
qed simp

text \<open>
  The step for one invoice: the blocks below the updated ones are the same on the old chain and
  on the new one.
\<close>

lemma refresh_follows:
  assumes old: "follows M checker chain0 h0 i"
    and found: "found_in_blocks M checker P h (chain_top chain h sz) n fb" and P: "P (index i)"
    and n: "n \<le> sz" "sz \<le> Suc (unat h)" "unat h + 1 - n \<le> Suc (unat h0)"
    and same: "\<And>x. unat x < unat h + 1 - n \<Longrightarrow> chain x = chain0 x"
    and fp: "\<forall>(x, t) \<in> set fp. t_height t = None"
    and nz: "0 < n \<or> unat h + 1 < 2 ^ 64"
    and pays: "\<And>k. k < n \<Longrightarrow> \<forall>tx \<in> set (cb_txs (chain (h - of_nat k))). payable M checker tx"
  shows "follows M checker chain h (refresh h (h - of_nat n + 1) (fb @ fp) i)"
proof -
  let ?c = "unat (creation_height i)" and ?H = "unat h" and ?d = "unat h + 1 - n"
  let ?pool = "image_mset t_amount (mset (map snd (filter (\<lambda>(x, t). x = index i) fp)))"
  have d: "of_nat ?d = h - of_nat n + 1"
    using n by (simp add: of_nat_diff)
  have H: "(of_nat ?H :: u64) = h" by simp
  have fb: "mset (map snd (filter (\<lambda>(x, t). x = index i) fb)) =
      chain_transfers (chain_pay M checker chain (index i)) ?d (Suc ?H)"
  proof -
    have top: "chain_top chain h sz ! k = chain (of_nat ?H - of_nat k)" if "k < n" for k
      using that n(1) by simp
    have "\<forall>tx \<in> set (cb_txs (chain_top chain h sz ! k)). payable M checker tx" if "k < n" for k
      using pays [OF that] top [OF that] by simp
    from found_in_blocks_payments [of M checker P ?H, OF _ _ _ P top this] found n(1,2)
    show ?thesis using unsigned_less [of h, where ?'a = nat] by simp
  qed
  have "mset (map snd (filter (\<lambda>(x, t). x = index i) fp)) = image_mset (\<lambda>a. Transfer a None) ?pool"
    by (rule unconfirmed_image) (use fp in auto)
  then have all: "mset (map snd (filter (\<lambda>(x, t). x = index i) (fb @ fp))) =
      chain_transfers (chain_pay M checker chain (index i)) ?d (Suc ?H) +
      image_mset (\<lambda>a. Transfer a None) ?pool"
    unfolding filter_append map_append mset_append fb by simp
  have pay: "chain_pay M checker chain0 (index i) x = chain_pay M checker chain (index i) x"
    if "x < ?d" for x
  proof -
    have "unat (of_nat x :: u64) = x"
      using that unsigned_less [of h, where ?'a = nat] by (simp add: unsigned_of_nat take_bit_nat_eq_self)
    with same [of "of_nat x"] that show ?thesis by (simp add: chain_pay_def)
  qed
  have bounds: "?H < 2 ^ 64" "unat h0 < 2 ^ 64" "?c < 2 ^ 64"
    using unsigned_less [of h, where ?'a = nat] unsigned_less [of h0, where ?'a = nat]
      unsigned_less [of "creation_height i", where ?'a = nat] by simp_all
  have c: "0 < ?c" using old by (auto simp: follows_def unat_gt_0)
  have old': "confirmed (mset (transfers i)) =
      chain_transfers (chain_pay M checker chain0 (index i)) ?c (Suc (unat h0))"
    using old by (simp add: follows_def)
  have d': "?d < 2 ^ 64" "?d \<le> Suc (unat h0)" "?d \<le> Suc ?H" using bounds(1) nz n by auto
  have "mset (transfers (refresh (of_nat ?H) (of_nat ?d) (fb @ fp) i)) =
    chain_transfers (chain_pay M checker chain (index i)) ?c (Suc ?H) +
      image_mset (\<lambda>a. Transfer a None) ?pool"
    by (rule refresh_tracks_chain [OF _ c bounds d'(2,3,1) old' pay all]) simp_all
  moreover have "ascending (transfers (refresh h (of_nat ?d) (fb @ fp) i))"
  proof (rule ascending_refresh)
    have n': "n \<le> Suc (unat h)" using n by simp
    have fp': "t_height t = None" if "(x, t) \<in> set fp" for x t using fp that by auto
    note asc = found_in_blocks_ascending [OF found n']
    show "ascending (transfers i)" using old by (simp add: follows_def)
    have "ascending (map snd fp)"
      using fp' by (auto simp: ascending_def sorted_wrt_map not_Greater_iff
          intro!: sorted_wrt_mono_rel [OF _ sorted_wrt_true] split: option.split)
    then show "ascending (map snd (fb @ fp))"
      using asc(1) fp' by (auto simp: ascending_append not_Greater_iff)
    show "\<forall>(x, t) \<in> set (fb @ fp). cmp_by_height t (Transfer 0 (Some (of_nat ?d))) \<noteq> Less"
      using asc(2) fp' d'(1)
      by (fastforce simp: cmp_by_height_Less_Some word_less_nat_alt unsigned_of_nat take_bit_nat_eq_self)
  qed
  ultimately show ?thesis
    using old totals_ok_refresh [of i h "of_nat ?d" "fb @ fp"] unfolding d H by (simp add: follows_def)
qed

text \<open>
  The caches when a scan starts: the block cache follows the daemon's chain, and holds the top of
  the chain \<open>chain0\<close> it had seen so far, which agrees with the daemon's below the cache (a
  reorganisation is not deeper than the cache).
\<close>

definition ready_to_scan ::
  "(u64 \<Rightarrow> 'tx cached_block) \<Rightarrow> (u64 \<Rightarrow> 'tx cached_block) \<Rightarrow> u64 \<Rightarrow> 'tx block_cache \<Rightarrow> bool" where
  "ready_to_scan chain0 chain H c \<longleftrightarrow>
     can_follow chain H c \<and>
     bc_blocks c = chain_top chain0 (bc_height c) (bc_cache_size c) \<and>
     (\<forall>x. unat x + bc_cache_size c \<le> unat (next_height (bc_height c) H) \<longrightarrow> chain x = chain0 x)"

lemma next_height_props:
  assumes "h < H"
  shows "next_height h H < H" and "unat h \<le> unat (next_height h H)"
    and "unat (next_height h H) \<le> Suc (unat h)"
  using assms unat_succ [of h H] by (auto simp: next_height_def)

lemma sub_of_nat_le: "k \<le> unat h \<Longrightarrow> h - of_nat k \<le> h" for h :: u64
  by (simp add: word_le_nat_alt unat_sub_of_nat)

lemma unchanged_below:
  assumes ready: "ready_to_scan chain0 chain H c" and valid: "valid_chain chain H"
    and c': "bc_blocks c' = chain_top chain h (bc_cache_size c)" and h: "h = next_height (bc_height c) H"
    and old: "\<forall>i. n \<le> i \<longrightarrow> i < bc_cache_size c \<longrightarrow> bc_blocks c' ! i \<in> set (bc_blocks c)"
    and n: "n \<le> bc_cache_size c"
  shows "unat x < unat h + 1 - n \<Longrightarrow> chain x = chain0 x"
    and "unat h + 1 - n \<le> Suc (unat (bc_height c))"
proof -
  let ?sz = "bc_cache_size c"
  have wf: "bc_wf c" and follow: "bc_height c < H" "?sz \<le> Suc (unat (bc_height c))"
    and cache: "bc_blocks c = chain_top chain0 (bc_height c) ?sz"
    using ready by (auto simp: ready_to_scan_def can_follow_def)
  note hp = next_height_props [OF follow(1), folded h]
  have sz: "?sz \<le> Suc (unat h)" using follow(2) hp by linarith
  have member: "chain (h - of_nat i) = chain0 (h - of_nat i) \<and> unat h - i \<le> unat (bc_height c)"
    if i: "n \<le> i" "i < ?sz" for i
  proof -
    have hi: "unat (h - of_nat i) = unat h - i" using i(2) sz by (simp add: unat_sub_of_nat)
    have lt: "h - of_nat i < H"
      by (rule le_less_trans [OF sub_of_nat_le hp(1)]) (use i(2) sz in linarith)
    have "chain (h - of_nat i) \<in> set (bc_blocks c)" using old i c' by auto
    then obtain j where j: "j < ?sz" "chain (h - of_nat i) = chain0 (bc_height c - of_nat j)"
      unfolding cache by (auto simp: chain_top_def)
    have "cb_height (chain (h - of_nat i)) = h - of_nat i" using valid lt by (simp add: valid_chain_def)
    moreover have "cb_height (chain0 (bc_height c - of_nat j)) = bc_height c - of_nat j"
    proof -
      have "cb_height (bc_blocks c ! j) = bc_height c - of_nat j"
        using wf j(1) by (simp add: bc_wf_def heights_ok_def)
      then show ?thesis using j(1) by (simp add: cache)
    qed
    ultimately have eq: "h - of_nat i = bc_height c - of_nat j" using j(2) by simp
    moreover have "unat (bc_height c - of_nat j) = unat (bc_height c) - j"
      using j(1) follow(2) by (simp add: unat_sub_of_nat)
    ultimately show ?thesis using j(2) hi by (metis diff_le_self)
  qed
  show "chain x = chain0 x" if x: "unat x < unat h + 1 - n"
  proof (cases "unat x + ?sz \<le> unat h")
    case True
    then show ?thesis using ready h by (simp add: ready_to_scan_def)
  next
    case False
    define i where "i = unat h - unat x"
    have i: "n \<le> i" "i < ?sz" "unat x = unat h - i" using x False by (auto simp: i_def)
    then have "unat x = unat (h - of_nat i)" using sz by (simp add: unat_sub_of_nat)
    then have "x = h - of_nat i" by (simp add: word_unat_eq_iff)
    with member [OF i(1,2)] show ?thesis by simp
  qed
  show "unat h + 1 - n \<le> Suc (unat (bc_height c))"
  proof (cases "n < ?sz")
    case True
    then show ?thesis using member [of n] by auto
  next
    case False
    moreover have "0 < ?sz" using wf by (simp add: bc_wf_def)
    ultimately show ?thesis using n hp(3) by linarith
  qed
qed

text \<open>
  What a search has found, with \<open>n\<close> updated blocks: the caches are at the chain, and \<open>found\<close> are the
  transfers of the updated blocks, or of all blocks of the cache in a first scan, and of the txpool.
\<close>

definition updated_ok ::
  "(u64 \<Rightarrow> 'tx cached_block) \<Rightarrow> u64 \<Rightarrow> 'tx block_cache \<Rightarrow> nat \<Rightarrow> bool" where
  "updated_ok chain H c n \<longleftrightarrow>
     (let blocks = chain_top chain (next_height (bc_height c) H) (bc_cache_size c)
      in n \<le> bc_cache_size c \<and>
         (\<forall>i. n \<le> i \<longrightarrow> i < bc_cache_size c \<longrightarrow> blocks ! i \<in> set (bc_blocks c)) \<and>
         (bc_blocks c = chain_top chain (bc_height c) (bc_cache_size c) \<longrightarrow>
            n = (if bc_height c + 1 < H then 1 else 0)))"

definition scan_found ::
  "('tx, 'k) monero_ops \<Rightarrow> 'k \<Rightarrow> (sub_index \<Rightarrow> bool) \<Rightarrow> 'w set \<Rightarrow> (u64 \<Rightarrow> 'tx cached_block) \<Rightarrow> u64 \<Rightarrow>
   ('tx, 's, 'w) scan_state \<Rightarrow> nat \<Rightarrow> (sub_index \<times> transfer) list \<Rightarrow> ('tx, 's, 'w) scan_state \<Rightarrow> bool" where
  "scan_found M checker P W chain H \<sigma> n found \<sigma>' \<longleftrightarrow>
     (let c = sn_block_cache \<sigma>; h = next_height (bc_height c) H;
          blocks = chain_top chain h (bc_cache_size c)
      in sn_store \<sigma>' = sn_store \<sigma> \<and> sn_publisher \<sigma>' = sn_publisher \<sigma> \<and> sn_world \<sigma>' \<in> W \<and>
         pool_unconfirmed (sn_txpool_cache \<sigma>') \<and>
         sn_block_cache \<sigma>' = c\<lparr>bc_daemon_height := H, bc_height := h, bc_blocks := blocks\<rparr> \<and>
         updated_ok chain H c n \<and>
         (\<exists>fb fp. found = fb @ fp \<and> (\<forall>(x, t) \<in> set fp. t_height t = None) \<and>
            found_in_blocks M checker P h blocks (if sn_first_scan \<sigma> then bc_cache_size c else n) fb))"

text \<open>The caches once they are updated, with \<open>n\<close> updated blocks and \<open>new\<close> transactions of the txpool.\<close>

definition caught_up ::
  "('tx, 'k) monero_ops \<Rightarrow> 'k \<Rightarrow> 'w set \<Rightarrow> (u64 \<Rightarrow> 'tx cached_block) \<Rightarrow> u64 \<Rightarrow>
   ('tx, 's, 'w) scan_state \<Rightarrow> nat \<Rightarrow> 'tx list \<Rightarrow> ('tx, 's, 'w) scan_state \<Rightarrow> bool" where
  "caught_up M checker W chain H \<sigma> n new \<sigma>' \<longleftrightarrow>
     (let c = sn_block_cache \<sigma>; h = next_height (bc_height c) H;
          blocks = chain_top chain h (bc_cache_size c)
      in sn_store \<sigma>' = sn_store \<sigma> \<and> sn_publisher \<sigma>' = sn_publisher \<sigma> \<and> sn_world \<sigma>' \<in> W \<and>
         sn_first_scan \<sigma>' = sn_first_scan \<sigma> \<and> pool_unconfirmed (sn_txpool_cache \<sigma>') \<and>
         sn_block_cache \<sigma>' = c\<lparr>bc_daemon_height := H, bc_height := h, bc_blocks := blocks\<rparr> \<and>
         updated_ok chain H c n \<and>
         (\<forall>tx \<in> set new. scannable M checker (\<lambda>_. True) tx))"

lemma wp_update_caches_chain:
  fixes R :: "('w, 'tx) rpc_ops" and \<sigma> :: "('tx, 's, 'w) scan_state"
  assumes serves: "serves R W chain H" and valid: "valid_chain chain H"
    and pool: "serves_pool R W (scannable M checker (\<lambda>_. True))"
    and nonempty: "st_is_empty S (sn_store \<sigma>) = Inr False"
    and w: "sn_world \<sigma> \<in> W" and c: "can_follow chain H (sn_block_cache \<sigma>)"
    and tp: "pool_unconfirmed (sn_txpool_cache \<sigma>)"
  shows "wp (update_caches R S M :: ('tx, 's, 'w, 'e, nat \<times> 'tx list) scan_act)
    (\<lambda>(n, new). caught_up M checker W chain H \<sigma> n new) (\<lambda>_ _. False) \<sigma>"
proof -
  let ?c = "sn_block_cache \<sigma>" and ?U = "\<lambda>(n, new). caught_up M checker W chain H \<sigma> n new"
  let ?h = "next_height (bc_height ?c) H" and ?sz = "bc_cache_size ?c"
  let ?c' = "?c\<lparr>bc_daemon_height := H, bc_height := ?h, bc_blocks := chain_top chain ?h ?sz\<rparr>"
  let ?B = "\<lambda>n (c', w'). w' \<in> W \<and> c' = ?c' \<and> updated_ok chain H ?c n"
  have wf: "bc_wf ?c" using c by (simp add: can_follow_def)
  have count: "wp (block_cache_update R :: ('w, 'tx, 'e, nat) block_cache_act)
      (\<lambda>n _. bc_blocks ?c = chain_top chain (bc_height ?c) ?sz \<longrightarrow> n = (if bc_height ?c + 1 < H then 1 else 0))
      (\<lambda>_ _. True) (?c, sn_world \<sigma>)"
    by (cases "bc_blocks ?c = chain_top chain (bc_height ?c) ?sz")
      (auto intro: wp_mono [OF wp_block_cache_update_count [OF serves valid w c]] wp_I)
  have blocks: "wp (block_cache_update R :: ('w, 'tx, 'e, nat) block_cache_act) ?B (\<lambda>_ _. False) (?c, sn_world \<sigma>)"
    by (rule wp_mono [OF wp_conj [OF wp_conj [OF wp_block_cache_update_chain [OF serves valid w c]
            wp_block_cache_update_wf [OF wf]] count]]) (auto simp: updated_ok_def Let_def)
  let ?rest = "\<lambda>n. bind (on_txpool_cache (txpool_cache_update R (mo_hash M))) (\<lambda>new. ret (n, new))
        :: ('tx, 's, 'w, 'e, nat \<times> 'tx list) scan_act"
  have rest: "wp (?rest n) ?U (\<lambda>_ _. False) (\<sigma>\<lparr>sn_block_cache := c1, sn_world := w1\<rparr>)"
    if "?B n (c1, w1)" for c1 w1 n
  proof -
    have "w1 \<in> W" using that by blast
    note served = wp_txpool_cache_update_served [OF pool this tp, of "mo_hash M", where ?'e = 'e]
    show ?thesis
      by (simp add: wp_bind wp_ret wp_on_txpool_cache)
        (rule wp_mono [OF served], use that in \<open>auto simp: caught_up_def Let_def\<close>)
  qed
  have "wp (on_block_cache (block_cache_update R) :: ('tx, 's, 'w, 'e, nat) scan_act)
      (\<lambda>n. wp (?rest n) ?U (\<lambda>_ _. False)) (\<lambda>_ _. False) \<sigma>"
    unfolding wp_on_block_cache
    by (rule wp_mono [OF blocks]) (use rest in \<open>auto simp: split_paired_all\<close>)
  then show ?thesis by (simp add: update_caches_def wp_bind wp_on_store wp_query nonempty)
qed

text \<open>The search of the updated blocks and of the new transactions.\<close>

lemma wp_join_acts:
  "wp m (\<lambda>x. wp n (\<lambda>y. Q (x, y)) (\<lambda>_ _. False)) (\<lambda>_ _. False) \<sigma> \<Longrightarrow> wp (join_acts m n) Q (\<lambda>_ _. False) \<sigma>"
  by (auto simp: wp_def join_acts_def bind_apply split: prod.splits sum.splits)

lemma wp_search_found:
  fixes \<sigma> \<sigma>1 :: "('tx, 's, 'w) scan_state"
  assumes txs: "\<forall>x < H. \<forall>tx \<in> set (cb_txs (chain x)). payable M checker tx"
    and contains: "\<And>x. st_contains_sub_index S x (sn_store \<sigma>) = Inr (P x)"
    and c: "can_follow chain H (sn_block_cache \<sigma>)"
    and up: "caught_up M checker W chain H \<sigma> n new \<sigma>1"
  shows "wp (join_acts (scan_blocks S M checker n) (scan_txpool S M checker new)
      :: ('tx, 's, 'w, 'e, (sub_index \<times> transfer) list \<times> (sub_index \<times> transfer) list) scan_act)
    (\<lambda>(fb, fp) \<sigma>2. scan_found M checker P W chain H \<sigma> n (fb @ fp) \<sigma>2) (\<lambda>_ _. False) \<sigma>1"
proof -
  let ?c = "sn_block_cache \<sigma>"
  let ?h = "next_height (bc_height ?c) H" and ?sz = "bc_cache_size ?c"
  have h: "bc_height ?c < H" "?sz \<le> Suc (unat (bc_height ?c))" using c by (auto simp: can_follow_def)
  note hp = next_height_props [OF h(1)]
  have blocks1: "bc_blocks (sn_block_cache \<sigma>1) = chain_top chain ?h ?sz"
    and first: "sn_first_scan \<sigma>1 = sn_first_scan \<sigma>"
    and con: "st_contains_sub_index S x (sn_store \<sigma>1) = Inr (P x)" for x
    using up contains by (simp_all add: caught_up_def Let_def)
  define m where "m = (if sn_first_scan \<sigma> then ?sz else n)"
  have n: "m \<le> ?sz" using up by (simp add: caught_up_def updated_ok_def Let_def m_def)
  have txs1: "\<forall>b \<in> set (bc_blocks (sn_block_cache \<sigma>1)). \<forall>tx \<in> set (cb_txs b). scannable M checker P tx"
  proof (intro ballI)
    fix b tx assume "b \<in> set (bc_blocks (sn_block_cache \<sigma>1))" and tx: "tx \<in> set (cb_txs b)"
    then obtain i where i: "i < ?sz" and b: "b = chain (?h - of_nat i)"
      unfolding blocks1 by (auto simp: chain_top_def)
    have "?h - of_nat i < H"
      by (rule le_less_trans [OF sub_of_nat_le hp(1)]) (use i h(2) hp(2) in linarith)
    from txs [rule_format, OF this] tx have "payable M checker tx" unfolding b .
    then show "scannable M checker P tx" by (rule payable_scannable)
  qed
  have m: "m = (if sn_first_scan \<sigma>1 then length (bc_blocks (sn_block_cache \<sigma>1)) else n)"
    "m \<le> length (bc_blocks (sn_block_cache \<sigma>1))"
    using n by (simp_all add: m_def first blocks1)
  from wp_scan_blocks [OF con m txs1]
  have blocks: "wp (scan_blocks S M checker n)
      (\<lambda>r \<sigma>'. \<sigma>' = \<sigma>1 \<and> found_in_blocks M checker P (bc_height (sn_block_cache \<sigma>1))
         (bc_blocks (sn_block_cache \<sigma>1)) m r)
      (\<lambda>_ _. False) \<sigma>1" .
  have new: "\<forall>tx \<in> set new. scannable M checker P tx" and tp: "pool_unconfirmed (sn_txpool_cache \<sigma>1)"
    using up by (auto simp: caught_up_def Let_def intro: scannable_mono)
  have post: "scan_found M checker P W chain H \<sigma> n (fb @ fp) \<sigma>2"
    if "found_in_blocks M checker P (bc_height (sn_block_cache \<sigma>1)) (bc_blocks (sn_block_cache \<sigma>1)) m fb"
      "\<forall>(x, t) \<in> set fp. t_height t = None" "pool_unconfirmed (sn_txpool_cache \<sigma>2)"
      "\<sigma>2 = \<sigma>1\<lparr>sn_txpool_cache := t\<rparr>" for fb fp \<sigma>2 t
  proof -
    have "\<exists>fb' fp'. fb @ fp = fb' @ fp' \<and> (\<forall>(x, t) \<in> set fp'. t_height t = None) \<and>
        found_in_blocks M checker P ?h (chain_top chain ?h ?sz) m fb'"
      by (rule exI [of _ fb], rule exI [of _ fp]) (use up that in \<open>simp add: caught_up_def Let_def\<close>)
    with up that(3,4) show ?thesis by (simp add: scan_found_def caught_up_def Let_def m_def)
  qed
  show ?thesis
    by (rule wp_join_acts, rule wp_mono [OF blocks])
      (auto intro!: wp_mono [OF wp_scan_txpool [OF con new tp]] intro: post)
qed

lemma wp_scan_find:
  fixes R :: "('w, 'tx) rpc_ops" and \<sigma> :: "('tx, 's, 'w) scan_state"
  assumes serves: "serves R W chain H" and valid: "valid_chain chain H"
    and pool: "serves_pool R W (scannable M checker (\<lambda>_. True))"
    and txs: "\<forall>x < H. \<forall>tx \<in> set (cb_txs (chain x)). payable M checker tx"
    and contains: "\<And>x. st_contains_sub_index S x (sn_store \<sigma>) = Inr (P x)"
    and nonempty: "st_is_empty S (sn_store \<sigma>) = Inr False"
    and w: "sn_world \<sigma> \<in> W" and c: "can_follow chain H (sn_block_cache \<sigma>)"
    and tp: "pool_unconfirmed (sn_txpool_cache \<sigma>)"
  shows "wp (scan_find R S M checker :: ('tx, 's, 'w, 'e, nat \<times> (sub_index \<times> transfer) list) scan_act)
    (\<lambda>(n, found) \<sigma>'. scan_found M checker P W chain H \<sigma> n found \<sigma>' \<and> \<not> sn_first_scan \<sigma>')
    (\<lambda>_ _. False) \<sigma>"
proof -
  have forget: "scan_found M checker P W chain H \<sigma> n found (\<sigma>2\<lparr>sn_first_scan := False\<rparr>)"
    if "scan_found M checker P W chain H \<sigma> n found \<sigma>2" for n found \<sigma>2
    using that by (simp add: scan_found_def Let_def)
  have "wp (bind (join_acts (scan_blocks S M checker n) (scan_txpool S M checker new))
      (\<lambda>(fb, fp). bind (put_scan (\<lambda>\<sigma>. \<sigma>\<lparr>sn_first_scan := False\<rparr>)) (\<lambda>_. ret (n, fb @ fp)))
        :: ('tx, 's, 'w, 'e, nat \<times> (sub_index \<times> transfer) list) scan_act)
      (\<lambda>(n, found) \<sigma>'. scan_found M checker P W chain H \<sigma> n found \<sigma>' \<and> \<not> sn_first_scan \<sigma>')
      (\<lambda>_ _. False) \<sigma>1"
    if "caught_up M checker W chain H \<sigma> n new \<sigma>1" for n new \<sigma>1
    unfolding wp_bind
    by (rule wp_mono [OF wp_search_found [OF txs contains c that]]) (auto simp: wp_simps intro: forget)
  then show ?thesis
    using wp_update_caches_chain [OF serves valid pool nonempty w c tp]
    by (auto simp: scan_find_def wp_bind elim!: wp_mono)
qed

text \<open>
  The invoices may follow another chain than the one the cache holds, as after a payment was missed:
  \<open>f1\<close> is \<open>f0\<close> with the daemon's blocks from height \<open>d\<close> up to \<open>h\<close> on top.
\<close>

definition spliced ::
  "(u64 \<Rightarrow> 'tx cached_block) \<Rightarrow> (u64 \<Rightarrow> 'tx cached_block) \<Rightarrow> (u64 \<Rightarrow> 'tx cached_block) \<Rightarrow> u64 \<Rightarrow> nat \<Rightarrow> bool" where
  "spliced f0 f1 chain h d \<longleftrightarrow>
     (\<forall>x. unat x < d \<longrightarrow> f1 x = f0 x) \<and> (\<forall>x. d \<le> unat x \<longrightarrow> x \<le> h \<longrightarrow> f1 x = chain x)"

lemma spliced_found:
  assumes ready: "ready_to_scan chain0 chain H (sn_block_cache \<sigma>)" and valid: "valid_chain chain H"
    and found: "scan_found M checker P W chain H \<sigma> n found \<sigma>1"
    and h: "h = next_height (bc_height (sn_block_cache \<sigma>)) H"
  shows "spliced chain0 chain chain h (unat h + 1 - n)"
    and "unat h + 1 - n \<le> Suc (unat (bc_height (sn_block_cache \<sigma>)))"
proof -
  let ?c = "sn_block_cache \<sigma>"
  have blocks: "bc_blocks (sn_block_cache \<sigma>1) = chain_top chain h (bc_cache_size ?c)"
    and n: "n \<le> bc_cache_size ?c"
    and old: "\<forall>i. n \<le> i \<longrightarrow> i < bc_cache_size ?c \<longrightarrow> bc_blocks (sn_block_cache \<sigma>1) ! i \<in> set (bc_blocks ?c)"
    using found by (auto simp: scan_found_def updated_ok_def Let_def h)
  note below = unchanged_below [OF ready valid blocks h old n]
  show "spliced chain0 chain chain h (unat h + 1 - n)" using below(1) by (simp add: spliced_def)
  show "unat h + 1 - n \<le> Suc (unat (bc_height ?c))" by (rule below(2))
qed

context invoice_storage begin

text \<open>
  The scanner has a correct view of a chain: every tracked invoice has its payments on it.
\<close>

definition in_step ::
  "('tx, 'k) monero_ops \<Rightarrow> 'k \<Rightarrow> 'w set \<Rightarrow> (u64 \<Rightarrow> 'tx cached_block) \<Rightarrow> ('tx, 's, 'w) scan_state \<Rightarrow> bool" where
  "in_step M checker W chain \<sigma> \<longleftrightarrow>
     ok (sn_store \<sigma>) \<and> \<not> sn_first_scan \<sigma> \<and> sn_world \<sigma> \<in> W \<and>
     pool_unconfirmed (sn_txpool_cache \<sigma>) \<and>
     (\<forall>k i. lookup (sn_store \<sigma>) k = Some i \<longrightarrow> follows M checker chain (bc_height (sn_block_cache \<sigma>)) i)"

text \<open>The updated invoices of a scan that has found the payments of the chain are in step with it.\<close>

lemma refreshed_in_step:
  fixes \<sigma> \<sigma>1 :: "('tx, 's, 'w) scan_state" and H :: u64
  defines "h \<equiv> next_height (bc_height (sn_block_cache \<sigma>)) H"
  assumes valid: "valid_chain chain H" and inv: "in_step M checker W f0 \<sigma>"
    and txs: "\<forall>x < H. \<forall>tx \<in> set (cb_txs (chain x)). payable M checker tx"
    and ready: "ready_to_scan chain0 chain H (sn_block_cache \<sigma>)"
    and found: "scan_found M checker (\<lambda>x. st_contains_sub_index S x (sn_store \<sigma>) = Inr True) W chain H \<sigma> n found \<sigma>1"
    and splice: "spliced f0 f1 chain h (unat h + 1 - n)"
  shows "ready_to_scan chain chain H (sn_block_cache \<sigma>1)" and "bc_height (sn_block_cache \<sigma>1) = h"
    and "lookup (sn_store \<sigma>) k = Some i \<Longrightarrow> follows M checker f1 h (refresh h (h - of_nat n + 1) found i)"
proof -
  let ?P = "\<lambda>x. st_contains_sub_index S x (sn_store \<sigma>) = Inr True"
  let ?c = "sn_block_cache \<sigma>" and ?sz = "bc_cache_size (sn_block_cache \<sigma>)"
  have s: "ok (sn_store \<sigma>)" using inv by (simp add: in_step_def)
  have size: "bc_height ?c < H" "0 < ?sz" "?sz \<le> Suc (unat (bc_height ?c))"
    using ready by (auto simp: ready_to_scan_def can_follow_def bc_wf_def)
  note hp = next_height_props [OF size(1), folded h_def]
  have sz: "?sz \<le> Suc (unat h)" using size(3) hp(2) by linarith
  have "unat h < unat H" using hp(1) by (simp add: word_less_nat_alt)
  then have h_bound: "unat h + 1 < 2 ^ 64" using unsigned_less [of H, where ?'a = nat] by simp
  have c1: "sn_block_cache \<sigma>1 = ?c\<lparr>bc_daemon_height := H, bc_height := h, bc_blocks := chain_top chain h ?sz\<rparr>"
    and n: "n \<le> ?sz"
    using found by (auto simp: scan_found_def updated_ok_def Let_def h_def)
  have upper: "f1 (h - of_nat k) = chain (h - of_nat k)" "h - of_nat k < H" if "k < n" for k
  proof -
    have "k \<le> unat h" using that n sz by linarith
    then have x: "unat (h - of_nat k) = unat h - k" "h - of_nat k \<le> h"
      by (simp_all add: unat_sub_of_nat sub_of_nat_le)
    then show "f1 (h - of_nat k) = chain (h - of_nat k)" using splice that by (simp add: spliced_def)
    show "h - of_nat k < H" by (rule le_less_trans [OF x(2) hp(1)])
  qed
  have pays: "\<forall>tx \<in> set (cb_txs (f1 (h - of_nat k))). payable M checker tx" if "k < n" for k
    using txs upper [OF that] by simp
  obtain fb fp where f: "found = fb @ fp" "\<forall>(x, t) \<in> set fp. t_height t = None"
    and fb: "found_in_blocks M checker ?P h (chain_top chain h ?sz) n fb"
    using found inv by (auto simp: scan_found_def in_step_def Let_def h_def)
  have fb: "found_in_blocks M checker ?P h (chain_top f1 h ?sz) n fb"
    by (rule found_in_blocks_cong [THEN iffD1, OF _ fb]) (use upper(1) n in simp)
  note below = spliced_found(2) [OF ready valid found meta_eq_to_obj_eq [OF h_def]]
  show "bc_height (sn_block_cache \<sigma>1) = h" by (simp add: c1)
  show "ready_to_scan chain chain H (sn_block_cache \<sigma>1)"
    using can_follow_chain_top [OF valid hp(1) size(2) sz, of "sn_block_cache \<sigma>1"]
    by (simp add: ready_to_scan_def c1)
  assume i: "lookup (sn_store \<sigma>) k = Some i"
  have old: "follows M checker f0 (bc_height ?c) i" using inv i by (simp add: in_step_def)
  have tracked: "?P (index i)"
    using contains_tracked [OF s, of k] i keyed [OF s i] by (auto simp: invoice_id_def)
  have same: "f1 x = f0 x" if "unat x < unat h + 1 - n" for x using splice that by (simp add: spliced_def)
  show "follows M checker f1 h (refresh h (h - of_nat n + 1) found i)"
    unfolding f(1)
    by (rule refresh_follows [OF old fb _ n sz below same f(2) disjI2 [OF h_bound] pays]) (rule tracked)
qed

lemma wp_write_in_step:
  fixes \<sigma> \<sigma>1 :: "('tx, 's, 'w) scan_state" and H :: u64
  defines "h \<equiv> next_height (bc_height (sn_block_cache \<sigma>)) H"
  assumes valid: "valid_chain chain H" and inv: "in_step M checker W f0 \<sigma>"
    and txs: "\<forall>x < H. \<forall>tx \<in> set (cb_txs (chain x)). payable M checker tx"
    and ready: "ready_to_scan chain0 chain H (sn_block_cache \<sigma>)"
    and found: "scan_found M checker (\<lambda>x. st_contains_sub_index S x (sn_store \<sigma>) = Inr True) W chain H \<sigma> n found \<sigma>1"
    and first: "\<not> sn_first_scan \<sigma>1"
    and splice: "spliced f0 f1 chain h (unat h + 1 - n)"
  shows "wp (bind (scan_prepare S n found) (scan_save S) :: ('tx, 's, 'w, 'e, unit) scan_act)
    (\<lambda>_ \<sigma>'. in_step M checker W f1 \<sigma>' \<and> ready_to_scan chain chain H (sn_block_cache \<sigma>') \<and>
       bc_height (sn_block_cache \<sigma>') = h \<and>
       dom (lookup (sn_store \<sigma>')) = dom (lookup (sn_store \<sigma>)) \<and>
       (\<forall>k i. lookup (sn_store \<sigma>') k = Some i \<longrightarrow> current_height i = bc_height (sn_block_cache \<sigma>') + 1))
    (\<lambda>e _. e = Blocked) \<sigma>1"
proof -
  note step = refreshed_in_step [OF valid inv txs ready found, folded h_def, OF splice]
  have same: "sn_store \<sigma>1 = sn_store \<sigma>" "sn_world \<sigma>1 \<in> W" "\<not> sn_first_scan \<sigma>1"
      "pool_unconfirmed (sn_txpool_cache \<sigma>1)"
    using found first by (auto simp: scan_found_def Let_def)
  have "ok (sn_store \<sigma>1)" using inv same(1) by (simp add: in_step_def)
  from wp_scan_write [OF this step(2), of n found] show ?thesis
  proof (rule wp_mono)
    fix \<sigma>2 :: "('tx, 's, 'w) scan_state" and u :: unit
    assume w: "ok (sn_store \<sigma>2) \<and> same_caches \<sigma>1 \<sigma>2 \<and> lookup (sn_store \<sigma>2) =
       (\<lambda>k. map_option (refresh h (h - of_nat n + 1) found) (lookup (sn_store \<sigma>1) k))"
    then have caches: "sn_block_cache \<sigma>2 = sn_block_cache \<sigma>1" "sn_txpool_cache \<sigma>2 = sn_txpool_cache \<sigma>1"
      "sn_first_scan \<sigma>2 = sn_first_scan \<sigma>1" "sn_world \<sigma>2 = sn_world \<sigma>1"
      by (simp_all add: same_caches_def)
    have at: "bc_height (sn_block_cache \<sigma>2) = h" by (simp add: caches step(2))
    have look: "lookup (sn_store \<sigma>2) k =
        map_option (refresh h (h - of_nat n + 1) found) (lookup (sn_store \<sigma>) k)" for k
      using w same(1) by simp
    have "in_step M checker W f1 \<sigma>2"
      using w same step(3) by (auto simp: in_step_def caches(2-4) at look)
    then show "in_step M checker W f1 \<sigma>2 \<and> ready_to_scan chain chain H (sn_block_cache \<sigma>2) \<and>
       bc_height (sn_block_cache \<sigma>2) = h \<and>
       dom (lookup (sn_store \<sigma>2)) = dom (lookup (sn_store \<sigma>)) \<and>
       (\<forall>k i. lookup (sn_store \<sigma>2) k = Some i \<longrightarrow> current_height i = bc_height (sn_block_cache \<sigma>2) + 1)"
      using step(1) by (auto simp: at look) (simp_all add: caches(1))
  qed
qed

text \<open>
  A scan whose invoices follow \<open>f0\<close> before it and \<open>f1\<close> after it, and the case in which both are the
  daemon's chain as it was and as it is.
\<close>

lemma wp_scan_spliced:
  fixes R :: "('w, 'tx) rpc_ops" and \<sigma> :: "('tx, 's, 'w) scan_state" and H :: u64
  defines "h \<equiv> next_height (bc_height (sn_block_cache \<sigma>)) H"
  assumes serves: "serves R W chain H" and valid: "valid_chain chain H"
    and pool: "serves_pool R W (scannable M checker (\<lambda>_. True))"
    and txs: "\<forall>x < H. \<forall>tx \<in> set (cb_txs (chain x)). payable M checker tx"
    and inv: "in_step M checker W f0 \<sigma>"
    and ready: "ready_to_scan chain0 chain H (sn_block_cache \<sigma>)"
    and some: "lookup (sn_store \<sigma>) k = Some i"
    and splice: "\<And>n found \<sigma>1. scan_found M checker (\<lambda>x. st_contains_sub_index S x (sn_store \<sigma>) = Inr True)
      W chain H \<sigma> n found \<sigma>1 \<Longrightarrow> spliced f0 f1 chain h (unat h + 1 - n)"
  shows "wp (scan R S M checker)
    (\<lambda>_ \<sigma>'. in_step M checker W f1 \<sigma>' \<and> ready_to_scan chain chain H (sn_block_cache \<sigma>') \<and>
       bc_height (sn_block_cache \<sigma>') = h \<and>
       dom (lookup (sn_store \<sigma>')) = dom (lookup (sn_store \<sigma>)) \<and>
       (\<forall>k i. lookup (sn_store \<sigma>') k = Some i \<longrightarrow>
          current_height i = bc_height (sn_block_cache \<sigma>') + 1))
    (\<lambda>e _. e = Blocked) \<sigma>"
proof -
  let ?P = "\<lambda>x. st_contains_sub_index S x (sn_store \<sigma>) = Inr True"
  have s: "ok (sn_store \<sigma>)" using inv by (simp add: in_step_def)
  have contains: "st_contains_sub_index S x (sn_store \<sigma>) = Inr (?P x)" for x
    using contains_total [OF s, of x] by auto
  have nonempty: "st_is_empty S (sn_store \<sigma>) = Inr False"
    using some by (auto simp: is_empty [OF s])
  have follow: "can_follow chain H (sn_block_cache \<sigma>)" using ready by (simp add: ready_to_scan_def)
  have "wp (scan_find R S M checker :: ('tx, 's, 'w, 'e, nat \<times> (sub_index \<times> transfer) list) scan_act)
    (\<lambda>(n, found) \<sigma>'. scan_found M checker ?P W chain H \<sigma> n found \<sigma>' \<and> \<not> sn_first_scan \<sigma>') (\<lambda>_ _. False) \<sigma>"
    by (rule wp_scan_find [OF serves valid pool txs contains nonempty _ follow])
      (use inv in \<open>auto simp: in_step_def\<close>)
  then show ?thesis
    unfolding scan_def wp_bind
    by (rule wp_mono)
      (use wp_write_in_step [OF valid inv txs ready _ _ splice [unfolded h_def], folded h_def]
        in \<open>auto simp: wp_bind split: prod.splits\<close>)
qed

lemma wp_scan_in_step:
  fixes R :: "('w, 'tx) rpc_ops" and \<sigma> :: "('tx, 's, 'w) scan_state"
  assumes serves: "serves R W chain H" and valid: "valid_chain chain H"
    and pool: "serves_pool R W (scannable M checker (\<lambda>_. True))"
    and txs: "\<forall>x < H. \<forall>tx \<in> set (cb_txs (chain x)). payable M checker tx"
    and inv: "in_step M checker W chain0 \<sigma>"
    and ready: "ready_to_scan chain0 chain H (sn_block_cache \<sigma>)"
    and some: "lookup (sn_store \<sigma>) k = Some i"
  shows "wp (scan R S M checker)
    (\<lambda>_ \<sigma>'. in_step M checker W chain \<sigma>' \<and> ready_to_scan chain chain H (sn_block_cache \<sigma>') \<and>
       bc_height (sn_block_cache \<sigma>') = next_height (bc_height (sn_block_cache \<sigma>)) H \<and>
       dom (lookup (sn_store \<sigma>')) = dom (lookup (sn_store \<sigma>)) \<and>
       (\<forall>k i. lookup (sn_store \<sigma>') k = Some i \<longrightarrow>
          current_height i = bc_height (sn_block_cache \<sigma>') + 1))
    (\<lambda>e _. e = Blocked) \<sigma>"
  by (rule wp_scan_spliced [OF serves valid pool txs inv ready some spliced_found(1) [OF ready valid _ refl]])

end

end
