(* ===== verification/Scan_Any.thy ===== *)
theory Scan_Any
  imports Scan_Chain
begin

text \<open>
  Scans against any daemon: what a failed scan leaves as it was, what it loses, and what no scan
  ever changes.
\<close>

section \<open>Scans that go wrong\<close>

text \<open>
  Whatever the daemon answers, the first part of a scan changes neither the store nor the
  publisher, and a failure in it ends the scan.
\<close>

lemma scan_find_keeps:
  fixes R :: "('w, 'tx) rpc_ops" and \<sigma> :: "('tx, 's, 'w) scan_state"
  shows "wp (scan_find R S M checker :: ('tx, 's, 'w, 'e, _) scan_act) (\<lambda>_ \<sigma>'. sn_store \<sigma>' = sn_store \<sigma> \<and> sn_publisher \<sigma>' = sn_publisher \<sigma>)
     (\<lambda>_ \<sigma>'. sn_store \<sigma>' = sn_store \<sigma> \<and> sn_publisher \<sigma>' = sn_publisher \<sigma>) \<sigma>"
proof -
  let ?same = "\<lambda>\<sigma>' :: ('tx, 's, 'w) scan_state.
    sn_store \<sigma>' = sn_store \<sigma> \<and> sn_publisher \<sigma>' = sn_publisher \<sigma>"
  have txs: "wp (scan_transactions S M checker txs) (\<lambda>_ s'. s' = s) (\<lambda>_ s'. s' = s) s" for txs s
    by (auto intro!: wp_I dest: scan_transactions_store)
  have caches: "wp (update_caches R S M :: ('tx, 's, 'w, 'e, _) scan_act) (\<lambda>_. ?same) (\<lambda>_. ?same) \<sigma>"
    by (auto simp: update_caches_def wp_simps split: sum.splits intro!: wp_I)
  have block: "wp (scan_block S M checker i acc :: ('tx, 's, 'w, 'e, _) scan_act) (\<lambda>_. ?same) (\<lambda>_. ?same) \<sigma>1" if "?same \<sigma>1" for i acc \<sigma>1
    using that by (auto simp: scan_block_def wp_simps intro!: wp_mono [OF txs])
  have blocks: "wp (scan_blocks S M checker n :: ('tx, 's, 'w, 'e, _) scan_act) (\<lambda>_. ?same) (\<lambda>_. ?same) \<sigma>1" if "?same \<sigma>1" for n \<sigma>1
    unfolding scan_blocks_def wp_bind wp_get_scan
    by (rule wp_for_loop_inv [where I = "\<lambda>_. ?same"]) (use that block in auto)
  have pool: "wp (scan_txpool S M checker new :: ('tx, 's, 'w, 'e, _) scan_act) (\<lambda>_. ?same) (\<lambda>_. ?same) \<sigma>1" if "?same \<sigma>1" for new \<sigma>1
    using that by (auto simp: scan_txpool_def wp_simps intro!: wp_mono [OF txs])
  have join: "wp (join_acts m n) (\<lambda>_. ?same) (\<lambda>_. ?same) \<sigma>1"
    if "wp m (\<lambda>_. ?same) (\<lambda>_. ?same) \<sigma>1" "\<And>\<sigma>1. ?same \<sigma>1 \<Longrightarrow> wp n (\<lambda>_. ?same) (\<lambda>_. ?same) \<sigma>1"
    for m n :: "('tx, 's, 'w, 'e, (sub_index \<times> transfer) list) scan_act" and \<sigma>1
  proof -
    obtain r \<sigma>2 where m: "m \<sigma>1 = (r, \<sigma>2)" by fastforce
    then have s2: "?same \<sigma>2" using that(1) by (auto simp: wp_def split: sum.splits)
    obtain r' \<sigma>3 where n: "n \<sigma>2 = (r', \<sigma>3)" by fastforce
    then have "?same \<sigma>3" using that(2) [OF s2] by (auto simp: wp_def split: sum.splits)
    then show ?thesis
      using m n s2 by (auto simp: wp_def join_acts_def bind_apply split: sum.splits fault.splits)
  qed
  show ?thesis
    unfolding scan_find_def wp_bind
    by (rule wp_mono [OF caches])
      (auto simp: wp_simps split: prod.splits intro!: wp_mono [OF join [OF blocks pool]])
qed

text \<open>
  A scan whose requests or whose search for outputs fails ends with that error, and leaves the store and
  the publisher as they were: no invoice is half updated and nobody is told anything.
\<close>

lemma failed_search_changes_no_invoice:
  fixes \<sigma> :: "('tx, 's, 'w) scan_state"
  assumes "scan_find R S M checker \<sigma> = (Inl e, \<sigma>')"
  shows "scan R S M checker \<sigma> = (Inl e, \<sigma>') \<and>
    sn_store \<sigma>' = sn_store \<sigma> \<and> sn_publisher \<sigma>' = sn_publisher \<sigma>"
  using assms scan_find_keeps [of R S M checker \<sigma>] by (auto simp: scan_def bind_apply wp_def)

text \<open>
  The block cache keeps what it has fetched. When the txpool request that follows fails, the new
  block is in the cache, and its transfers were not looked for.
\<close>

lemma scan_txpool_request_fails:
  fixes \<sigma> :: "('tx, 's, 'w) scan_state"
  assumes "st_is_empty S (sn_store \<sigma>) = Inr False"
    and "block_cache_update R (sn_block_cache \<sigma>, sn_world \<sigma>) = (Inr n :: 'e accept_xmr_error fault + nat, (c, w))"
    and "rpc_txpool_hashes R w = (Inl e, w')"
  shows "scan R S M checker \<sigma> =
    (Inl (rpc_fault e) :: 'e accept_xmr_error fault + unit, \<sigma>\<lparr>sn_block_cache := c, sn_world := w'\<rparr>)"
  using assms
  by (simp add: scan_def scan_find_def update_caches_def bind_apply on_store_def query_def
      on_block_cache_def on_txpool_cache_def txpool_cache_update_def)

text \<open>An invoice created at height 0 is never given a payment in a block.\<close>

lemma push_transfers_creation_0:
  assumes "creation_height i = 0"
  shows "push_transfers found i =
    map snd (filter (\<lambda>(x, t). x = index i \<and> t_height t = None) found)"
proof -
  have "cmp_by_height t (Transfer 0 (Some (- 1))) = Greater \<longleftrightarrow> t_height t = None" for t
    by (auto simp: cmp_by_height_Greater_Some not_less)
  then show ?thesis by (simp add: push_transfers_def assms)
qed

text \<open>An invoice is in step with the chain from the moment it is created.\<close>

lemma follows_new:
  "h < ch \<Longrightarrow> follows M checker chain h (invoice_new a ix ch amount confs ex desc)"
  using totals_ok_new [of a ix ch amount confs ex desc]
  by (auto simp: follows_def invoice_new_def confirmed_def chain_transfers_def word_less_nat_alt ascending_def)

section \<open>What no scan changes\<close>

text \<open>The parts of an invoice that its creation fixes.\<close>

definition same_request :: "invoice \<Rightarrow> invoice \<Rightarrow> bool" where
  "same_request i j \<longleftrightarrow>
     address j = address i \<and> index j = index i \<and> creation_height j = creation_height i \<and>
     amount_requested j = amount_requested i \<and>
     confirmations_required j = confirmations_required i \<and>
     expiration_height j = expiration_height i \<and> description j = description i"

text \<open>How a scan may change an invoice.\<close>

definition rescanned :: "invoice \<Rightarrow> invoice \<Rightarrow> bool" where
  "rescanned i j \<longleftrightarrow> same_request i j \<and> (totals_ok i \<longrightarrow> totals_ok j)"

definition amends :: "(invoice_id \<rightharpoonup> invoice) \<Rightarrow> (invoice_id \<rightharpoonup> invoice) \<Rightarrow> bool" where
  "amends L L' \<longleftrightarrow> (\<forall>k. rel_option rescanned (L k) (L' k))"

lemma rescanned_refl [simp]: "rescanned i i"
  by (simp add: rescanned_def same_request_def)

lemma amends_refl [simp]: "amends L L"
  by (simp add: amends_def option.rel_refl)

lemma rescanned_refresh: "rescanned i (refresh H d found i)"
  by (simp add: rescanned_def same_request_def totals_ok_refresh)

lemma amends_upd:
  assumes "amends L L'" and "L k = Some i" and "rescanned i j"
  shows "amends L (L'(k \<mapsto> j))"
  using assms by (simp add: amends_def)

lemma transp_rescanned: "transp rescanned"
  by (auto simp: transp_def rescanned_def same_request_def)

lemma amends_trans: "amends L L' \<Longrightarrow> amends L' L'' \<Longrightarrow> amends L L''"
  unfolding amends_def by (metis option.rel_transp [OF transp_rescanned] transpD)

lemma amends_None: "amends L L' \<Longrightarrow> L' k = None \<longleftrightarrow> L k = None"
  by (metis amends_def option.rel_distinct(1,2) option.exhaust)

lemma amends_Some:
  "amends L L' \<Longrightarrow> L' k = Some j \<Longrightarrow> \<exists>i. L k = Some i \<and> rescanned i j"
  by (metis amends_def option_rel_Some2)

lemma amends_same_request: "amends L L' \<Longrightarrow> L k = Some i \<Longrightarrow> \<exists>i'. L' k = Some i' \<and> same_request i i'"
  by (metis amends_def option_rel_Some1 rescanned_def)

text \<open>Every publication keeps the publisher well-formed.\<close>

lemma pub_wf_saves:
  fixes \<sigma> :: "('tx, 's, 'w) scan_state"
  assumes "pub_wf (sn_publisher \<sigma>)"
  shows "wp (scan_save S is :: ('tx, 's, 'w, 'e, unit) scan_act) (\<lambda>_ \<sigma>'. pub_wf (sn_publisher \<sigma>'))
    (\<lambda>_ \<sigma>'. pub_wf (sn_publisher \<sigma>')) \<sigma>"
proof -
  let ?I = "\<lambda>\<sigma>' :: ('tx, 's, 'w) scan_state. pub_wf (sn_publisher \<sigma>')"
  have "wp (save_invoice S j u :: ('tx, 's, 'w, 'e, unit) scan_act) (\<lambda>_. ?I) (\<lambda>_. ?I) \<sigma>1" if "?I \<sigma>1" for j u \<sigma>1
    using that pub_wf_send_updates
    by (auto simp: save_invoice_def on_publisher_def wp_def split: prod.splits sum.splits)
  then have "wp (for_loop (save_invoice S) is () :: ('tx, 's, 'w, 'e, unit) scan_act) (\<lambda>_. ?I) (\<lambda>_. ?I) \<sigma>"
    by (intro wp_for_loop_inv [where I = "\<lambda>_. ?I"]) (use assms in auto)
  then have "wp (for_loop (save_invoice S) is () :: ('tx, 's, 'w, 'e, unit) scan_act)
      (\<lambda>_. wp (on_store (query (st_flush S)) :: ('tx, 's, 'w, 'e, unit) scan_act) (\<lambda>_. ?I) (\<lambda>_. ?I)) (\<lambda>_. ?I) \<sigma>"
    by (rule wp_mono) (auto simp: wp_simps split: sum.splits)
  then show ?thesis by (simp add: scan_save_def wp_simps)
qed

lemma pub_wf_scan:
  fixes \<sigma> :: "('tx, 's, 'w) scan_state" and R :: "('w, 'tx) rpc_ops"
  assumes "pub_wf (sn_publisher \<sigma>)"
  shows "wp (scan R S M checker :: ('tx, 's, 'w, 'e, unit) scan_act) (\<lambda>_ \<sigma>'. pub_wf (sn_publisher \<sigma>'))
    (\<lambda>_ \<sigma>'. pub_wf (sn_publisher \<sigma>')) \<sigma>"
proof -
  let ?I = "\<lambda>\<sigma>' :: ('tx, 's, 'w) scan_state. pub_wf (sn_publisher \<sigma>')"
  have "wp (bind (scan_prepare S n found) (scan_save S) :: ('tx, 's, 'w, 'e, unit) scan_act)
      (\<lambda>_. ?I) (\<lambda>_. ?I) \<sigma>1" if "?I \<sigma>1" for n found \<sigma>1
    using that by (auto simp: scan_prepare_def wp_simps intro!: pub_wf_saves split: sum.splits)
  then have writes: "wp ((case r of (n, found) \<Rightarrow> bind (scan_prepare S n found) (scan_save S))
      :: ('tx, 's, 'w, 'e, unit) scan_act) (\<lambda>_. ?I) (\<lambda>_. ?I) \<sigma>1" if "?I \<sigma>1" for r \<sigma>1
    using that by (cases r) simp
  show ?thesis
    unfolding scan_def wp_bind
    by (intro wp_mono [OF scan_find_keeps]) (use writes assms in \<open>auto simp: wp_bind split: prod.splits\<close>)
qed

context invoice_storage begin

lemma wp_scan_save_amends:
  assumes s: "ok (sn_store \<sigma>)"
    and "is": "\<forall>j \<in> set is. \<forall>i. lookup (sn_store \<sigma>) (invoice_id j) = Some i \<longrightarrow> rescanned i j"
  shows "wp (scan_save S is)
    (\<lambda>_ \<sigma>'. ok (sn_store \<sigma>') \<and> amends (lookup (sn_store \<sigma>)) (lookup (sn_store \<sigma>')))
    (\<lambda>_ \<sigma>'. ok (sn_store \<sigma>') \<and> amends (lookup (sn_store \<sigma>)) (lookup (sn_store \<sigma>'))) \<sigma>"
proof -
  let ?I = "\<lambda>\<sigma>'. ok (sn_store \<sigma>') \<and> amends (lookup (sn_store \<sigma>)) (lookup (sn_store \<sigma>'))"
  have save: "wp (save_invoice S j u) (\<lambda>_. ?I) (\<lambda>_. ?I) \<sigma>1" if j: "j \<in> set is" and I: "?I \<sigma>1" for j u \<sigma>1
  proof -
    obtain s' where s': "st_update S j (sn_store \<sigma>1) = (Inr (lookup (sn_store \<sigma>1) (invoice_id j)), s')"
        "ok s'" "lookup s' = (if lookup (sn_store \<sigma>1) (invoice_id j) = None then lookup (sn_store \<sigma>1)
           else (lookup (sn_store \<sigma>1))(invoice_id j \<mapsto> j))"
      using update [of "sn_store \<sigma>1" j] I by blast
    have "amends (lookup (sn_store \<sigma>)) (lookup s')"
    proof (cases "lookup (sn_store \<sigma>) (invoice_id j)")
      case None
      then show ?thesis using I amends_None [of "lookup (sn_store \<sigma>)" "lookup (sn_store \<sigma>1)"] by (simp add: s'(3))
    next
      case (Some i)
      then show ?thesis
        using I "is" j by (auto simp: s'(3) intro: amends_upd)
    qed
    then show ?thesis
      using s'(1,2) by (auto simp: save_invoice_def on_publisher_def wp_def split: prod.splits sum.splits)
  qed
  have "wp (for_loop (save_invoice S) is ()) (\<lambda>_. ?I) (\<lambda>_. ?I) \<sigma>"
    by (rule wp_for_loop_inv [where I = "\<lambda>_. ?I"]) (use s save in auto)
  then have "wp (for_loop (save_invoice S) is ())
      (\<lambda>_. wp (on_store (query (st_flush S))) (\<lambda>_. ?I) (\<lambda>_. ?I)) (\<lambda>_. ?I) \<sigma>"
    by (rule wp_mono) (auto simp: wp_simps split: sum.splits)
  then show ?thesis by (simp add: scan_save_def wp_simps)
qed

text \<open>
  Whatever the daemon answers and whether or not the scan fails, the same invoices are tracked
  afterwards, and they ask for the same.
\<close>

lemma wp_scan_amends:
  fixes R :: "('w, 'tx) rpc_ops" and \<sigma> :: "('tx, 's, 'w) scan_state"
  assumes s: "ok (sn_store \<sigma>)"
  shows "wp (scan R S M checker)
    (\<lambda>_ \<sigma>'. ok (sn_store \<sigma>') \<and> amends (lookup (sn_store \<sigma>)) (lookup (sn_store \<sigma>')))
    (\<lambda>_ \<sigma>'. ok (sn_store \<sigma>') \<and> amends (lookup (sn_store \<sigma>)) (lookup (sn_store \<sigma>'))) \<sigma>"
proof -
  let ?I = "\<lambda>\<sigma>' :: ('tx, 's, 'w) scan_state. ok (sn_store \<sigma>') \<and> amends (lookup (sn_store \<sigma>)) (lookup (sn_store \<sigma>'))"
  have "wp (bind (scan_prepare S n found) (scan_save S) :: ('tx, 's, 'w, 'e, unit) scan_act)
      (\<lambda>_. ?I) (\<lambda>_. ?I) \<sigma>1"
    if same: "sn_store \<sigma>1 = sn_store \<sigma>" for n found \<sigma>1
  proof -
    obtain "is" where "is": "st_try_iter S (sn_store \<sigma>) = Inr (map Inr is)"
        "\<And>i. i \<in> set is \<longleftrightarrow> lookup (sn_store \<sigma>) (invoice_id i) = Some i"
      using iter [OF s] by blast
    let ?H = "bc_height (sn_block_cache \<sigma>1)"
    let ?us = "List.map_filter (update_invoice ?H (?H - of_nat n + 1) found) is"
    have "\<forall>j \<in> set ?us. \<forall>i. lookup (sn_store \<sigma>) (invoice_id j) = Some i \<longrightarrow> rescanned i j"
    proof (intro ballI allI impI)
      fix j i assume "j \<in> set ?us" and i: "lookup (sn_store \<sigma>) (invoice_id j) = Some i"
      then obtain i' where i': "i' \<in> set is" "update_invoice ?H (?H - of_nat n + 1) found i' = Some j"
        by (auto simp: List.map_filter_def)
      then have j: "j = refresh ?H (?H - of_nat n + 1) found i'" by (simp add: refresh_def)
      have "lookup (sn_store \<sigma>) (invoice_id i') = Some i'" using i'(1) "is"(2) by simp
      then have "i' = i" using i unfolding j by simp
      then show "rescanned i j" unfolding j by (simp add: rescanned_refresh)
    qed
    from wp_scan_save_amends [OF _ this [folded same]] s same
    have "wp (scan_save S ?us :: ('tx, 's, 'w, 'e, unit) scan_act) (\<lambda>_. ?I) (\<lambda>_. ?I) \<sigma>1" by simp
    moreover have eq: "\<sigma>1\<lparr>sn_store := sn_store \<sigma>\<rparr> = \<sigma>1" by (simp add: same [symmetric])
    ultimately show ?thesis by (simp add: scan_prepare_def wp_simps "is"(1) same eq)
  qed
  then have writes: "wp ((case r of (n, found) \<Rightarrow> bind (scan_prepare S n found) (scan_save S))
      :: ('tx, 's, 'w, 'e, unit) scan_act) (\<lambda>_. ?I) (\<lambda>_. ?I) \<sigma>1"
    if "sn_store \<sigma>1 = sn_store \<sigma>" for r \<sigma>1
    using that by (cases r) simp
  show ?thesis
    unfolding scan_def wp_bind
    by (intro wp_mono [OF scan_find_keeps]) (use writes s in \<open>auto simp: wp_bind split: prod.splits\<close>)
qed

text \<open>So do any number of scans.\<close>

lemma wp_scans_amend:
  fixes R :: "('w, 'tx) rpc_ops" and \<sigma> :: "('tx, 's, 'w) scan_state"
  assumes "ok (sn_store \<sigma>)"
  shows "wp (for_loop (\<lambda>_ _. scan R S M checker) is u)
    (\<lambda>_ \<sigma>'. ok (sn_store \<sigma>') \<and> amends (lookup (sn_store \<sigma>)) (lookup (sn_store \<sigma>')))
    (\<lambda>_ \<sigma>'. ok (sn_store \<sigma>') \<and> amends (lookup (sn_store \<sigma>)) (lookup (sn_store \<sigma>'))) \<sigma>"
  using assms
  by (intro wp_for_loop_inv) (auto intro!: wp_mono [OF wp_scan_amends] intro: amends_trans)

end

text \<open>
  What a scan makes of one invoice: the transfers below the updated blocks are kept, those found now for
  its subaddress and not below its creation height are added, its height is brought up to date, and it
  is rewritten only when something differs; the request never changes.
\<close>

lemma update_invoice_result:
  "case update_invoice H d found i of
     None \<Rightarrow> mset (retained d i @ push_transfers found i) = mset (transfers i) \<and> current_height i = H + 1
   | Some i' \<Rightarrow> transfers i' = retained d i @ push_transfers found i \<and> current_height i' = H + 1 \<and>
       totals_ok i' \<and> same_request i i' \<and>
       \<not> (mset (transfers i') = mset (transfers i) \<and> current_height i = H + 1)"
proof -
  let ?j = "i\<lparr>transfers := retained d i @ push_transfers found i, current_height := H + 1\<rparr>"
  have "same_request i (add_up (transfers ?j) (zeroed ?j))" by (simp add: same_request_def zeroed_def)
  moreover have "transfers (add_up (transfers ?j) (zeroed ?j)) = transfers ?j"
    "current_height (add_up (transfers ?j) (zeroed ?j)) = H + 1" by (simp_all add: zeroed_def)
  ultimately show ?thesis using totals_ok_add_up [of ?j] by (auto simp: update_invoice_eq)
qed

end
