(* ===== verification/Scan_Progress.thy ===== *)
theory Scan_Progress
  imports Scan_Any
begin

text \<open>
  Scans that return: while the channels of the live subscribers have room for the updates of a
  scan, no scan waits for ever, and with a daemon that serves one chain the scans of the thread
  bring every tracked invoice to the top of that chain.
\<close>

section \<open>Room in the channels\<close>

text \<open>Every live subscriber can take \<open>n\<close> more updates.\<close>

definition spare :: "nat \<Rightarrow> publisher \<Rightarrow> bool" where
  "spare n p \<longleftrightarrow>
     list_all (\<lambda>ch. ch_open ch \<longrightarrow> length (ch_queue ch) + n \<le> subscription_buffer_len) (pb_channels p)"

lemma spare_mono: "spare n p \<Longrightarrow> m \<le> n \<Longrightarrow> spare m p"
  by (auto simp: spare_def list_all_iff)

lemma spare_new [simp]: "spare n publisher_new"
  by (simp add: spare_def publisher_new_def)

lemma spare_roomy:
  assumes "pub_wf p" and "spare (Suc n) p"
  shows "roomy key p"
proof -
  have "a < length (pb_channels p)" if "(sid, a) \<in> set (subs_of key p)" for sid a
    using pub_wf_subs_ok [OF assms(1), of key] that by (force simp: subs_ok_def)
  then show ?thesis
    using assms(2) by (fastforce simp: roomy_def list_all_iff has_room_def is_open_def spare_def)
qed

lemma spare_deliver:
  "spare (Suc n) p \<Longrightarrow> pb_channels p' = deliver ivc A (pb_channels p) \<Longrightarrow> spare n p'"
  by (auto simp: spare_def list_all_length nth_deliver)

lemma wp_send_updates_spare:
  assumes "pub_wf p" and "spare (Suc n) p"
  shows "wp (send_updates ivc :: (publisher, 'e fault, unit) act) (\<lambda>_ p'. pub_wf p' \<and> spare n p')
    (\<lambda>_ _. False) p"
proof -
  from send_updates_delivers [OF assms(1) spare_roomy [OF assms] spare_roomy [OF assms], of ivc]
  obtain p' where p': "send_updates ivc p = (Inr () :: 'e fault + unit, p')"
    "pb_channels p' = deliver ivc (addresses (Some (invoice_id ivc)) p \<union> addresses None p) (pb_channels p)"
    by blast
  with pub_wf_send_updates [OF assms(1) p'(1)] spare_deliver [OF assms(2) p'(2)] show ?thesis
    by (simp add: wp_def)
qed

section \<open>A scan that does not wait\<close>

abbreviation runs :: "'e fault \<Rightarrow> 'st \<Rightarrow> bool" where
  "runs e \<sigma> \<equiv> e \<noteq> Blocked"

lemma wp_check_and_fix_reorg_runs:
  "wp (check_and_fix_reorg R :: ('w, 'tx, 'e, nat) block_cache_act) (\<lambda>_ _. True) runs cw"
proof -
  have step: "wp (fix_step R h i n :: ('w, 'tx, 'e, nat) block_cache_act) (\<lambda>_ _. True) runs cw" for h i n cw
    by (cases cw) (auto simp: fix_step_def wp_simps intro!: wp_I)
  have "wp (for_loop (fix_step R h) is n :: ('w, 'tx, 'e, nat) block_cache_act) (\<lambda>_ _. True) runs cw"
    for h "is" n cw
    by (rule wp_for_loop_inv [where I = "\<lambda>_ _. True"]) (simp_all add: step)
  then show ?thesis by (cases cw) (auto simp: check_and_fix_reorg_def wp_simps)
qed

lemma wp_block_cache_update_runs:
  "wp (block_cache_update R :: ('w, 'tx, 'e, nat) block_cache_act) (\<lambda>_ _. True) runs cw"
proof -
  note repair = wp_mono [OF wp_check_and_fix_reorg_runs]
  show ?thesis
    by (cases cw) (auto simp: block_cache_update_def wp_simps intro!: wp_I [of "rpc_daemon_height R"]
        wp_I [of "fetch_block R x" for x] repair)
qed

lemma wp_block_cache_skip_ahead_runs:
  "wp (block_cache_skip_ahead R :: ('w, 'tx, 'e, nat) block_cache_act) (\<lambda>_ _. True) runs cw"
proof -
  have step: "wp (skip_step R h i n :: ('w, 'tx, 'e, nat) block_cache_act) (\<lambda>_ _. True) runs cw" for h i n cw
    by (cases cw) (auto simp: skip_step_def Let_def wp_simps intro!: wp_I)
  have loop: "wp (for_loop (skip_step R h) is n :: ('w, 'tx, 'e, nat) block_cache_act) (\<lambda>_ _. True) runs cw"
    for h "is" n cw
    by (rule wp_for_loop_inv [where I = "\<lambda>_ _. True"]) (simp_all add: step)
  note repair = wp_mono [OF wp_check_and_fix_reorg_runs]
  show ?thesis
    by (cases cw) (auto simp: block_cache_skip_ahead_def wp_simps
        intro!: wp_I [of "rpc_daemon_height R"] wp_mono [OF loop] repair)
qed


lemma wp_scan_transactions_runs:
  "wp (scan_transactions S M checker txs) (\<lambda>_ _. True) runs s"
proof -
  have out: "wp (scan_output S h outputs out amounts) (\<lambda>_ _. True) runs s" for h outputs out amounts s
    by (auto simp: scan_output_def wp_simps split: sum.splits option.splits)
  have outs: "wp (for_loop (scan_output S h outputs) is amounts) (\<lambda>_ _. True) runs s" for h outputs "is" amounts s
    by (rule wp_for_loop_inv [where I = "\<lambda>_ _. True"]) (simp_all add: out)
  have tx: "wp (scan_transaction S M checker tx amounts) (\<lambda>_ _. True) runs s" for tx amounts s
    by (auto simp: scan_transaction_def wp_simps outs split: sum.splits)
  show ?thesis
    unfolding scan_transactions_def
    by (rule wp_for_loop_inv [where I = "\<lambda>_ _. True"]) (simp_all add: tx)
qed

lemma wp_join_runs:
  assumes "wp m (\<lambda>_ _. True) runs \<sigma>" and "\<And>\<sigma>. wp n (\<lambda>_ _. True) runs \<sigma>"
  shows "wp (join_acts m n) (\<lambda>_ _. True) runs \<sigma>"
proof -
  obtain r \<sigma>2 where m: "m \<sigma> = (r, \<sigma>2)" by fastforce
  obtain r' \<sigma>3 where n: "n \<sigma>2 = (r', \<sigma>3)" by fastforce
  have "r \<noteq> Inl Blocked" "r' \<noteq> Inl Blocked"
    using assms(1) assms(2) [of \<sigma>2] m n by (auto simp: wp_def)
  then show ?thesis
    using m n by (auto simp: wp_def join_acts_def bind_apply split: sum.splits fault.splits)
qed

lemma wp_scan_find_runs:
  "wp (scan_find R S M checker :: ('tx, 's, 'w, 'e, _) scan_act) (\<lambda>_ _. True) runs \<sigma>"
proof -
  have txpool: "wp (txpool_cache_update R h :: ('w, 'tx, 'e, 'tx list) txpool_cache_act) (\<lambda>_ _. True) runs cw"
    for h cw
    by (cases cw) (auto simp: txpool_cache_update_def wp_simps intro!: wp_I)
  have caches: "wp (update_caches R S M :: ('tx, 's, 'w, 'e, _) scan_act) (\<lambda>_ _. True) runs \<sigma>" for \<sigma>
    by (auto simp: update_caches_def wp_simps split: sum.splits intro!: wp_mono [OF txpool]
        wp_mono [OF wp_block_cache_update_runs] wp_mono [OF wp_block_cache_skip_ahead_runs])
  have block: "wp (scan_block S M checker i acc :: ('tx, 's, 'w, 'e, _) scan_act) (\<lambda>_ _. True) runs \<sigma>" for i acc \<sigma>
    by (auto simp: scan_block_def wp_simps intro!: wp_mono [OF wp_scan_transactions_runs])
  have blocks: "wp (scan_blocks S M checker n :: ('tx, 's, 'w, 'e, _) scan_act) (\<lambda>_ _. True) runs \<sigma>" for n \<sigma>
    unfolding scan_blocks_def wp_bind wp_get_scan
    by (rule wp_for_loop_inv [where I = "\<lambda>_ _. True"]) (simp_all add: block)
  have pool: "wp (scan_txpool S M checker new :: ('tx, 's, 'w, 'e, _) scan_act) (\<lambda>_ _. True) runs \<sigma>" for new \<sigma>
    by (auto simp: scan_txpool_def wp_simps intro!: wp_mono [OF wp_scan_transactions_runs])
  show ?thesis
    unfolding scan_find_def wp_bind
    by (rule wp_mono [OF caches])
      (auto simp: wp_simps split: prod.splits intro!: wp_mono [OF wp_join_runs [OF blocks pool]])
qed

context invoice_storage begin

lemma wp_scan_save_spare:
  assumes "ok (sn_store \<sigma>)" and "pub_wf (sn_publisher \<sigma>)" and "spare (m + length is) (sn_publisher \<sigma>)"
  shows "wp (scan_save S is :: ('tx, 's, 'w, 'e, unit) scan_act)
    (\<lambda>_ \<sigma>'. pub_wf (sn_publisher \<sigma>') \<and> spare m (sn_publisher \<sigma>')) (\<lambda>_ _. False) \<sigma>"
proof -
  let ?I = "\<lambda>n \<sigma> :: ('tx, 's, 'w) scan_state.
    ok (sn_store \<sigma>) \<and> pub_wf (sn_publisher \<sigma>) \<and> spare (m + n) (sn_publisher \<sigma>)"
  have save: "wp (save_invoice S i ()) (\<lambda>_. ?I n) (\<lambda>_ _. False) \<sigma>" if I: "?I (Suc n) \<sigma>" for i n \<sigma>
  proof -
    obtain r s' where s': "st_update S i (sn_store \<sigma>) = (Inr r, s')" "ok s'"
      using update [of "sn_store \<sigma>" i] I by blast
    then have "save_invoice S i () \<sigma> = on_publisher (send_updates i) (\<sigma>\<lparr>sn_store := s'\<rparr>)"
      by (simp add: save_invoice_def)
    moreover have "wp (send_updates i) (\<lambda>_ p. pub_wf p \<and> spare (m + n) p) (\<lambda>_ _. False) (sn_publisher \<sigma>)"
      using I by (intro wp_send_updates_spare) auto
    then have "wp (on_publisher (send_updates i)) (\<lambda>_. ?I n) (\<lambda>_ _. False) (\<sigma>\<lparr>sn_store := s'\<rparr>)"
      using s'(2) by (auto simp: wp_simps elim!: wp_mono)
    ultimately show ?thesis by (simp add: wp_def)
  qed
  have "wp (for_loop (save_invoice S) is ()) (\<lambda>_. ?I 0) (\<lambda>_ _. False) \<sigma>"
  proof (rule wp_for_loop [where I = "\<lambda>pre _. ?I (length is - length pre)"])
    show "?I (length is - length ([] :: invoice list)) \<sigma>" using assms by simp
  next
    fix pre i post \<sigma>1 and u :: unit
    assume "is": "is = pre @ i # post" and I: "?I (length is - length pre) \<sigma>1"
    then have "?I (Suc (length is - length (pre @ [i]))) \<sigma>1" by (simp add: Suc_diff_le)
    from save [OF this] show "wp (save_invoice S i u) (\<lambda>_. ?I (length is - length (pre @ [i])))
      (\<lambda>_ _. False) \<sigma>1" by simp
  qed simp
  then show ?thesis
    unfolding scan_save_def wp_bind by (rule wp_mono) (auto simp: wp_simps flush)
qed

text \<open>A scan saves no more invoices than the store tracks.\<close>

lemma iter_length:
  assumes "ok s" and "distinct (map invoice_id is)" and "\<And>i. i \<in> set is \<longleftrightarrow> lookup s (invoice_id i) = Some i"
  shows "length (List.map_filter f is) \<le> card (dom (lookup s))"
proof -
  have "dom (lookup s) = set (map invoice_id is)"
  proof (intro set_eqI iffI)
    fix k assume "k \<in> dom (lookup s)"
    then obtain i where i: "lookup s k = Some i" by blast
    from keyed [OF assms(1) i] i show "k \<in> set (map invoice_id is)" using assms(3) [of i] by auto
  qed (use assms(3) in auto)
  then have "card (dom (lookup s)) = length is"
    using assms(2) by (metis distinct_card length_map)
  then show ?thesis by (simp add: List.map_filter_def)
qed

lemma wp_scan_spare:
  fixes R :: "('w, 'tx) rpc_ops" and \<sigma> :: "('tx, 's, 'w) scan_state"
  assumes s: "ok (sn_store \<sigma>)" and p: "pub_wf (sn_publisher \<sigma>)"
    and room: "spare (m + card (dom (lookup (sn_store \<sigma>)))) (sn_publisher \<sigma>)"
  shows "wp (scan R S M checker)
    (\<lambda>_ \<sigma>'. pub_wf (sn_publisher \<sigma>') \<and> spare m (sn_publisher \<sigma>')) runs \<sigma>"
proof -
  obtain "is" where "is": "st_try_iter S (sn_store \<sigma>) = Inr (map Inr is)" "distinct (map invoice_id is)"
      "\<And>i. i \<in> set is \<longleftrightarrow> lookup (sn_store \<sigma>) (invoice_id i) = Some i"
    using iter [OF s] by blast
  have room': "spare (m + length (List.map_filter f is)) (sn_publisher \<sigma>)" for f :: "invoice \<Rightarrow> invoice option"
    using spare_mono [OF room] iter_length [OF s "is"(2,3), of f] by simp
  have tail: "wp (bind (scan_prepare S n found) (scan_save S) :: ('tx, 's, 'w, 'e, unit) scan_act)
      (\<lambda>_ \<sigma>'. pub_wf (sn_publisher \<sigma>') \<and> spare m (sn_publisher \<sigma>')) runs \<sigma>1"
    if "sn_store \<sigma>1 = sn_store \<sigma>" "sn_publisher \<sigma>1 = sn_publisher \<sigma>" for n found \<sigma>1
    using that s p
    by (auto simp: scan_prepare_def wp_simps "is"(1) intro!: wp_mono [OF wp_scan_save_spare] room')
  have "wp (scan_find R S M checker :: ('tx, 's, 'w, 'e, _) scan_act)
      (\<lambda>_ \<sigma>'. sn_store \<sigma>' = sn_store \<sigma> \<and> sn_publisher \<sigma>' = sn_publisher \<sigma>) runs \<sigma>"
    by (rule wp_mono [OF wp_conj [OF scan_find_keeps wp_scan_find_runs]]) auto
  then show ?thesis
    unfolding scan_def wp_bind
    by (rule wp_mono) (use tail in \<open>auto simp: wp_bind split: prod.splits\<close>)
qed

lemma wp_scan_in_step_total:
  fixes R :: "('w, 'tx) rpc_ops" and \<sigma> :: "('tx, 's, 'w) scan_state"
  assumes serves: "serves R W chain H" and valid: "valid_chain chain H"
    and pool: "serves_pool R W (scannable M checker (\<lambda>_. True))"
    and txs: "\<forall>x < H. \<forall>tx \<in> set (cb_txs (chain x)). payable M checker tx"
    and inv: "in_step M checker W chain0 \<sigma>"
    and ready: "ready_to_scan chain0 chain H (sn_block_cache \<sigma>)"
    and some: "lookup (sn_store \<sigma>) k = Some i"
    and p: "pub_wf (sn_publisher \<sigma>)"
    and room: "spare (m + card (dom (lookup (sn_store \<sigma>)))) (sn_publisher \<sigma>)"
  shows "wp (scan R S M checker)
    (\<lambda>_ \<sigma>'. in_step M checker W chain \<sigma>' \<and> ready_to_scan chain chain H (sn_block_cache \<sigma>') \<and>
       bc_height (sn_block_cache \<sigma>') = next_height (bc_height (sn_block_cache \<sigma>)) H \<and>
       dom (lookup (sn_store \<sigma>')) = dom (lookup (sn_store \<sigma>)) \<and>
       (\<forall>k i. lookup (sn_store \<sigma>') k = Some i \<longrightarrow>
          current_height i = bc_height (sn_block_cache \<sigma>') + 1) \<and>
       pub_wf (sn_publisher \<sigma>') \<and> spare m (sn_publisher \<sigma>'))
    (\<lambda>_ _. False) \<sigma>"
proof -
  have s: "ok (sn_store \<sigma>)" using inv by (simp add: in_step_def)
  show ?thesis
    by (rule wp_mono [OF wp_conj [OF wp_scan_in_step [OF serves valid pool txs inv ready some]
          wp_scan_spare [OF s p room]]]) auto
qed

text \<open>The state after \<open>j\<close> of \<open>n\<close> scans that began in \<open>\<sigma>\<close>.\<close>

definition progress ::
  "('tx, 'k) monero_ops \<Rightarrow> 'k \<Rightarrow> 'w set \<Rightarrow> (u64 \<Rightarrow> 'tx cached_block) \<Rightarrow> u64 \<Rightarrow> nat \<Rightarrow>
   ('tx, 's, 'w) scan_state \<Rightarrow> nat \<Rightarrow> ('tx, 's, 'w) scan_state \<Rightarrow> bool" where
  "progress M checker W chain H n \<sigma> j \<sigma>' \<longleftrightarrow>
     (\<exists>ch. in_step M checker W ch \<sigma>' \<and> ready_to_scan ch chain H (sn_block_cache \<sigma>') \<and>
        (0 < j \<longrightarrow> ch = chain \<and> (\<forall>k i. lookup (sn_store \<sigma>') k = Some i \<longrightarrow>
           current_height i = bc_height (sn_block_cache \<sigma>') + 1))) \<and>
     unat (bc_height (sn_block_cache \<sigma>')) = min (unat (bc_height (sn_block_cache \<sigma>)) + j) (unat H - 1) \<and>
     dom (lookup (sn_store \<sigma>')) = dom (lookup (sn_store \<sigma>)) \<and>
     pub_wf (sn_publisher \<sigma>') \<and> spare ((n - j) * card (dom (lookup (sn_store \<sigma>)))) (sn_publisher \<sigma>')"

lemma wp_scan_progress:
  fixes R :: "('w, 'tx) rpc_ops" and \<sigma> \<sigma>1 :: "('tx, 's, 'w) scan_state"
  assumes serves: "serves R W chain H" and valid: "valid_chain chain H"
    and pool: "serves_pool R W (scannable M checker (\<lambda>_. True))"
    and txs: "\<forall>x < H. \<forall>tx \<in> set (cb_txs (chain x)). payable M checker tx"
    and some: "lookup (sn_store \<sigma>) k = Some i" and before: "progress M checker W chain H n \<sigma> j \<sigma>1"
    and j: "j < n"
  shows "wp (scan R S M checker) (\<lambda>_. progress M checker W chain H n \<sigma> (Suc j)) (\<lambda>_ _. False) \<sigma>1"
proof -
  let ?c = "card (dom (lookup (sn_store \<sigma>)))"
  from before obtain ch where I: "in_step M checker W ch \<sigma>1" "ready_to_scan ch chain H (sn_block_cache \<sigma>1)"
    "unat (bc_height (sn_block_cache \<sigma>1)) = min (unat (bc_height (sn_block_cache \<sigma>)) + j) (unat H - 1)"
    "dom (lookup (sn_store \<sigma>1)) = dom (lookup (sn_store \<sigma>))"
    "pub_wf (sn_publisher \<sigma>1)" "spare ((n - j) * ?c) (sn_publisher \<sigma>1)"
    unfolding progress_def by (elim conjE exE) (rule that)
  have len: "n - j = Suc (n - Suc j)" using j by simp
  have "spare ((n - Suc j) * ?c + card (dom (lookup (sn_store \<sigma>1)))) (sn_publisher \<sigma>1)"
    using I(6) unfolding I(4) len by (simp add: add.commute)
  moreover obtain i1 where "lookup (sn_store \<sigma>1) k = Some i1" using some I(4) by blast
  ultimately have "wp (scan R S M checker)
    (\<lambda>_ \<sigma>'. in_step M checker W chain \<sigma>' \<and> ready_to_scan chain chain H (sn_block_cache \<sigma>') \<and>
     bc_height (sn_block_cache \<sigma>') = next_height (bc_height (sn_block_cache \<sigma>1)) H \<and>
     dom (lookup (sn_store \<sigma>')) = dom (lookup (sn_store \<sigma>1)) \<and>
     (\<forall>k i. lookup (sn_store \<sigma>') k = Some i \<longrightarrow>
        current_height i = bc_height (sn_block_cache \<sigma>') + 1) \<and>
     pub_wf (sn_publisher \<sigma>') \<and> spare ((n - Suc j) * ?c) (sn_publisher \<sigma>'))
    (\<lambda>_ _. False) \<sigma>1"
    using wp_scan_in_step_total [OF serves valid pool txs I(1,2) _ I(5)] by blast
  moreover have "bc_height (sn_block_cache \<sigma>1) < H" using I(2) by (simp add: ready_to_scan_def can_follow_def)
  then have "unat (next_height (bc_height (sn_block_cache \<sigma>1)) H) =
      min (unat (bc_height (sn_block_cache \<sigma>)) + Suc j) (unat H - 1)"
    using I(3) unat_succ [of "bc_height (sn_block_cache \<sigma>1)" H]
    by (auto simp: next_height_def word_less_nat_alt)
  ultimately show ?thesis
    by (elim wp_mono) (auto simp: progress_def I(4) intro!: exI [of _ chain])
qed

lemma wp_scans_catch_up:
  fixes R :: "('w, 'tx) rpc_ops" and \<sigma> :: "('tx, 's, 'w) scan_state"
  assumes serves: "serves R W chain H" and valid: "valid_chain chain H"
    and pool: "serves_pool R W (scannable M checker (\<lambda>_. True))"
    and txs: "\<forall>x < H. \<forall>tx \<in> set (cb_txs (chain x)). payable M checker tx"
    and inv: "in_step M checker W chain0 \<sigma>"
    and ready: "ready_to_scan chain0 chain H (sn_block_cache \<sigma>)"
    and some: "lookup (sn_store \<sigma>) k = Some i"
    and p: "pub_wf (sn_publisher \<sigma>)"
    and room: "spare (n * card (dom (lookup (sn_store \<sigma>)))) (sn_publisher \<sigma>)"
    and n: "unat H \<le> unat (bc_height (sn_block_cache \<sigma>)) + n" "0 < n"
  shows "wp (for_loop (\<lambda>_ _. scan R S M checker) [0..<n] ())
    (\<lambda>_ \<sigma>'. in_step M checker W chain \<sigma>' \<and> bc_height (sn_block_cache \<sigma>') = H - 1 \<and>
       dom (lookup (sn_store \<sigma>')) = dom (lookup (sn_store \<sigma>)) \<and>
       (\<forall>k i. lookup (sn_store \<sigma>') k = Some i \<longrightarrow> current_height i = H))
    (\<lambda>_ _. False) \<sigma>"
proof -
  let ?I = "progress M checker W chain H n \<sigma>"
  have H: "bc_height (sn_block_cache \<sigma>) < H" using ready by (simp add: ready_to_scan_def can_follow_def)
  have "wp (for_loop (\<lambda>_ _. scan R S M checker) [0..<n] ()) (\<lambda>_. ?I n) (\<lambda>_ _. False) \<sigma>"
  proof (rule wp_for_loop [where I = "\<lambda>pre _. ?I (length pre)"])
    show "?I (length []) \<sigma>" using inv ready p room H by (auto simp: progress_def word_less_nat_alt)
  next
    fix pre j post \<sigma>1 and u :: unit
    assume upt: "[0..<n] = pre @ j # post" and I: "?I (length pre) \<sigma>1"
    have "length pre < n" using arg_cong [OF upt, of length] by simp
    from wp_scan_progress [OF serves valid pool txs some I this]
    show "wp (scan R S M checker) (\<lambda>_. ?I (length (pre @ [j]))) (\<lambda>_ _. False) \<sigma>1" by simp
  qed simp
  then show ?thesis
  proof (rule wp_mono)
    fix x :: unit and \<sigma>' :: "('tx, 's, 'w) scan_state"
    assume I: "?I n \<sigma>'"
    have "H \<noteq> 0" using H by auto
    then have "unat (H - 1) = unat H - 1" by (rule unat_minus_one)
    then have "unat (bc_height (sn_block_cache \<sigma>')) = unat (H - 1)"
      using I n(1) by (simp add: progress_def min_absorb2)
    then have "bc_height (sn_block_cache \<sigma>') = H - 1" by (simp only: word_unat_eq_iff)
    with I n(2) show "in_step M checker W chain \<sigma>' \<and> bc_height (sn_block_cache \<sigma>') = H - 1 \<and>
       dom (lookup (sn_store \<sigma>')) = dom (lookup (sn_store \<sigma>)) \<and>
       (\<forall>k i. lookup (sn_store \<sigma>') k = Some i \<longrightarrow> current_height i = H)"
      by (auto simp: progress_def)
  qed simp
qed

end

end
