(* ===== verification/Scan_Confirm.thy ===== *)
theory Scan_Confirm
  imports Scan_Progress
begin

text \<open>
  When an invoice in step with a chain is confirmed: the payments to its subaddress on that chain, from
  its creation on, cover what it asks for at a height that is deep enough.
\<close>

section \<open>What was received up to a height\<close>

text \<open>Between two heights with a payment nothing is received.\<close>

lemma received_by_at_height:
  assumes "0 < received_by g ts"
  shows "\<exists>m \<in> heights ts. m \<le> g \<and> received_by m ts = received_by g ts"
proof -
  let ?A = "{h \<in> heights ts. h \<le> g}"
  have "{#t \<in># ts. \<exists>h. t_height t = Some h \<and> h \<le> g#} \<noteq> {#}"
  proof
    assume "{#t \<in># ts. \<exists>h. t_height t = Some h \<and> h \<le> g#} = {#}"
    with assms show False by (simp add: received_by_def)
  qed
  then obtain t h where "t \<in># ts" "t_height t = Some h" "h \<le> g" by (auto simp: filter_mset_eq_conv)
  then have ne: "?A \<noteq> {}" by (auto simp: heights_def)
  have fin: "finite ?A" by (rule finite_subset [of _ UNIV]) auto
  let ?m = "Max ?A"
  have m: "?m \<in> ?A" using Max_in [OF fin ne] .
  have "h \<le> ?m \<longleftrightarrow> h \<le> g" if "h \<in> heights ts" for h
    using Max_ge [OF fin, of h] m that by auto
  then have "{#t \<in># ts. \<exists>h. t_height t = Some h \<and> h \<le> ?m#} = {#t \<in># ts. \<exists>h. t_height t = Some h \<and> h \<le> g#}"
    by (intro filter_mset_cong) (auto simp: heights_def)
  with m show ?thesis by (intro bexI [of _ ?m]) (auto simp: received_by_def)
qed

lemma received_by_le_total: "received_by g ts \<le> (\<Sum>t \<in># ts. unat (t_amount t))"
  unfolding received_by_def by (induction ts) auto

text \<open>The amount a subaddress is paid on the chain from the creation of an invoice up to a height.\<close>

definition paid_by ::
  "('tx, 'k) monero_ops \<Rightarrow> 'k \<Rightarrow> (u64 \<Rightarrow> 'tx cached_block) \<Rightarrow> invoice \<Rightarrow> nat \<Rightarrow> nat" where
  "paid_by M checker chain i g =
     (\<Sum>x \<in> {unat (creation_height i)..g}. \<Sum>a \<in># chain_pay M checker chain (index i) x. unat a)"

lemma sum_chain_transfers:
  "(\<Sum>t \<in># chain_transfers pay lo hi. unat (t_amount t)) = (\<Sum>x \<in> {lo..<hi}. \<Sum>a \<in># pay x. unat a)"
proof -
  have "(\<Sum>t \<in># (\<Sum>x \<in> A. image_mset (\<lambda>a. Transfer a (Some (of_nat x))) (pay x)). unat (t_amount t)) =
      (\<Sum>x \<in> A. \<Sum>a \<in># pay x. unat a)" if "finite A" for A
    using that by (induction A) (simp_all add: multiset.map_comp comp_def)
  then show ?thesis by (simp add: chain_transfers_def)
qed

lemma received_by_follows:
  assumes f: "follows M checker chain h i" and g: "g \<le> h"
  shows "received_by g (mset (transfers i)) = paid_by M checker chain i (unat g)"
proof -
  let ?pay = "chain_pay M checker chain (index i)" and ?lo = "unat (creation_height i)"
  have gh: "unat g \<le> unat h" using g by (simp add: word_le_nat_alt)
  have "{#t \<in># mset (transfers i). \<exists>x. t_height t = Some x \<and> x \<le> g#} =
      {#t \<in># confirmed (mset (transfers i)). \<exists>x. t_height t = Some x \<and> x \<le> g#}"
    by (simp add: filter_confirmed) (rule filter_mset_cong, auto)
  also have "\<dots> = chain_transfers ?pay (max ?lo 0) (min (Suc (unat h)) (Suc (unat g)))"
    unfolding f [unfolded follows_def, THEN conjunct2, THEN conjunct1]
  proof (rule filter_chain_transfers)
    fix x a assume "x < Suc (unat h)"
    then have "unat (of_nat x :: u64) = x"
      using unsigned_less [of h, where ?'a = nat] by (simp add: unsigned_of_nat take_bit_nat_eq_self)
    then show "(\<exists>y. t_height (Transfer a (Some (of_nat x))) = Some y \<and> y \<le> g) \<longleftrightarrow> 0 \<le> x \<and> x < Suc (unat g)"
      by (auto simp: word_le_nat_alt)
  qed
  finally show ?thesis
    using gh by (simp add: received_by_def paid_by_def sum_chain_transfers min_absorb2 atLeastLessThanSuc_atLeastAtMost)
qed

lemma chain_transfers_height:
  assumes "t \<in># chain_transfers pay lo hi"
  shows "\<exists>x < hi. t_height t = Some (of_nat x)"
proof -
  have "\<exists>x \<in> A. t_height t = Some (of_nat x)"
    if "finite A" "t \<in># (\<Sum>x \<in> A. image_mset (\<lambda>a. Transfer a (Some (of_nat x))) (pay x))" for A
    using that by (induction A) auto
  from this [of "{lo..<hi}"] assms show ?thesis by (auto simp: chain_transfers_def)
qed

lemma heights_follows:
  assumes "follows M checker chain h i" and "p \<in> heights (mset (transfers i))"
  shows "p \<le> h"
proof -
  obtain t where t: "t \<in># confirmed (mset (transfers i))" "t_height t = Some p"
    using assms(2) by (auto simp: heights_def confirmed_def)
  have "t \<in># chain_transfers (chain_pay M checker chain (index i)) (unat (creation_height i)) (Suc (unat h))"
    using t(1) assms(1) by (simp add: follows_def)
  then obtain x where "x < Suc (unat h)" "p = of_nat x"
    using t(2) chain_transfers_height by fastforce
  then show ?thesis
    using unsigned_less [of h, where ?'a = nat]
    by (simp add: word_le_nat_alt unsigned_of_nat take_bit_nat_eq_self)
qed

section \<open>Confirmation\<close>

text \<open>An amount that is received up to a height is paid at or below it.\<close>

lemma paid_height_below:
  assumes first: "first_paid a ts ph" and rec: "unat a \<le> received_by g ts" and pos: "0 < a"
  shows "\<exists>p. ph = Some p \<and> p \<le> g"
proof -
  have "0 < unat a" using pos by (simp add: word_less_nat_alt)
  then obtain m where m: "m \<in> heights ts" "m \<le> g" "unat a \<le> received_by m ts"
    using rec received_by_at_height [of g ts] by auto
  show ?thesis
  proof (cases ph)
    case None
    with first m show ?thesis by (auto simp: first_paid_def)
  next
    case (Some p)
    with first m have "\<not> m < p" by (auto simp: first_paid_def)
    with m(2) Some show ?thesis by auto
  qed
qed

lemma confirmed_on_chain:
  assumes f: "follows M checker chain h i" and top: "current_height i = h + 1" "unat h + 1 < 2 ^ 64"
    and sum: "(\<Sum>t \<leftarrow> transfers i. unat (t_amount t)) < 2 ^ 64"
    and pos: "0 < amount_requested i" "0 < confirmations_required i"
  shows "is_confirmed i \<longleftrightarrow> (\<exists>g \<le> unat h. unat (amount_requested i) \<le> paid_by M checker chain i g \<and>
    unat (confirmations_required i) + g \<le> unat h + 1)"
proof -
  let ?ts = "mset (transfers i)"
  have asc: "ascending (transfers i)" and ok: "add_up (transfers i) (zeroed i) = i"
    using f by (simp_all add: follows_def totals_ok_def)
  have first: "first_paid (amount_requested i) ?ts (paid_height i)"
    using add_up_paid_height [OF asc sum, of i] ok by simp
  have "amount_paid (add_up (transfers i) (zeroed i)) = sum_list (map t_amount (transfers i))"
    by (simp add: amount_paid_add_up zeroed_def)
  then have paid: "unat (amount_paid i) = (\<Sum>t \<in># ?ts. unat (t_amount t))"
    using unat_sum_list [OF sum] unfolding ok by (simp add: sum_mset_sum_list [symmetric])
  have cur: "unat (current_height i) = unat h + 1" using top by (simp add: unat_word_ariths)
  show ?thesis
  proof
    assume conf: "is_confirmed i"
    then obtain p where p: "paid_height i = Some p"
      "unat (confirmations_required i) \<le> unat (current_height i) - unat p"
      using pos(2) by (auto simp: is_confirmed_iff word_less_nat_alt split: option.splits)
    then have "p \<in> heights ?ts" "unat (amount_requested i) \<le> received_by p ?ts"
      using first by (simp_all add: first_paid_def)
    moreover from heights_follows [OF f this(1)] have "p \<le> h" .
    ultimately show "\<exists>g \<le> unat h. unat (amount_requested i) \<le> paid_by M checker chain i g \<and>
        unat (confirmations_required i) + g \<le> unat h + 1"
      using received_by_follows [OF f] p(2) cur
      by (intro exI [of _ "unat p"]) (simp add: word_le_nat_alt)
  next
    assume "\<exists>g \<le> unat h. unat (amount_requested i) \<le> paid_by M checker chain i g \<and>
        unat (confirmations_required i) + g \<le> unat h + 1"
    then obtain n where n: "n \<le> unat h" "unat (amount_requested i) \<le> paid_by M checker chain i n"
      "unat (confirmations_required i) + n \<le> unat h + 1" by blast
    define g :: u64 where "g = of_nat n"
    have un: "unat g = n"
      using n(1) unsigned_less [of h, where ?'a = nat] by (simp add: g_def unsigned_of_nat take_bit_nat_eq_self)
    have gh: "g \<le> h" using n(1) un by (simp add: word_le_nat_alt)
    have rec: "unat (amount_requested i) \<le> received_by g ?ts"
      using n(2) received_by_follows [OF f gh] un by simp
    from paid_height_below [OF first this pos(1)] obtain p where p: "paid_height i = Some p" "unat p \<le> n"
      using un by (auto simp: word_le_nat_alt)
    have "unat (amount_requested i) \<le> unat (amount_paid i)"
      using rec received_by_le_total [of g ?ts] unfolding paid by simp
    with p n(3) cur show "is_confirmed i" by (simp add: is_confirmed_iff word_le_nat_alt)
  qed
qed

text \<open>Once the scans have caught up, each tracked invoice is confirmed exactly when the chain says so.\<close>

definition due_on_chain ::
  "('tx, 'k) monero_ops \<Rightarrow> 'k \<Rightarrow> (u64 \<Rightarrow> 'tx cached_block) \<Rightarrow> u64 \<Rightarrow> invoice \<Rightarrow> bool" where
  "due_on_chain M checker chain H i \<longleftrightarrow>
     (\<exists>g < unat H. unat (amount_requested i) \<le> paid_by M checker chain i g \<and>
        unat (confirmations_required i) \<le> unat H - g)"

lemma confirmed_at_top:
  assumes "follows M checker chain (H - 1) i" and "current_height i = H" and "H \<noteq> 0"
    and "(\<Sum>t \<leftarrow> transfers i. unat (t_amount t)) < 2 ^ 64"
    and "0 < amount_requested i" and "0 < confirmations_required i"
  shows "is_confirmed i \<longleftrightarrow> due_on_chain M checker chain H i"
proof -
  have h: "unat (H - 1) = unat H - 1" using assms(3) by (rule unat_minus_one)
  have H: "0 < unat H" using assms(3) by (simp add: unat_gt_0)
  have "unat (H - 1) + 1 < 2 ^ 64"
    using h H unsigned_less [of H, where ?'a = nat] by simp
  from confirmed_on_chain [OF assms(1) _ this assms(4-6)] assms(2)
  have "is_confirmed i \<longleftrightarrow> (\<exists>g \<le> unat H - 1. unat (amount_requested i) \<le> paid_by M checker chain i g \<and>
      unat (confirmations_required i) + g \<le> unat H - 1 + 1)" by (simp add: h)
  also have "\<dots> \<longleftrightarrow> due_on_chain M checker chain H i"
  proof -
    have "g \<le> unat H - 1 \<longleftrightarrow> g < unat H" for g using H by arith
    moreover have "c + g \<le> unat H - 1 + 1 \<longleftrightarrow> c \<le> unat H - g" if "g < unat H" for c g using that by arith
    ultimately show ?thesis unfolding due_on_chain_def by (metis (no_types))
  qed
  finally show ?thesis .
qed

end
