(* ===== verification/Store_Lock.thy ===== *)
theory Store_Lock
  imports Storage
begin

text \<open>
  \<open>Store\<close> of \<open>src/src/storage/mod.rs\<close>: the storage layer behind the \<open>RwLock\<close> that the gateway and the
  scanning thread share. A call waits, here \<open>Blocked\<close>, while the lock is held against it; that a call on
  a free lock is the call of the layer, in one step, is what the theories that work on the layer itself
  rest on. A poisoned lock is entered like any other, so poisoning is no part of the state.
\<close>

record 's locked =
  lk_store :: 's
  lk_readers :: nat
  lk_writing :: bool

type_synonym ('s, 'e, 'a) locked_act = "('s locked, 'e fault, 'a) act"

section \<open>The guards\<close>

definition store_new :: "'s \<Rightarrow> 's locked" where
  "store_new s = \<lparr>lk_store = s, lk_readers = 0, lk_writing = False\<rparr>"

definition write_guard :: "('s, 'e, unit) locked_act" where
  "write_guard = (\<lambda>l. if lk_writing l \<or> 0 < lk_readers l then (Inl Blocked, l)
     else (Inr (), l\<lparr>lk_writing := True\<rparr>))"

definition read_guard :: "('s, 'e, unit) locked_act" where
  "read_guard = (\<lambda>l. if lk_writing l then (Inl Blocked, l)
     else (Inr (), l\<lparr>lk_readers := lk_readers l + 1\<rparr>))"

definition drop_read :: "'s locked \<Rightarrow> 's locked" where
  "drop_read l = l\<lparr>lk_readers := lk_readers l - 1\<rparr>"

definition writing :: "('s, 'e, 'a) act \<Rightarrow> ('s, 'e, 'a) locked_act" where
  "writing m = bind write_guard (\<lambda>_ l. case m (lk_store l) of
     (r, s) \<Rightarrow> (map_sum Raise id r, l\<lparr>lk_store := s, lk_writing := False\<rparr>))"

definition reading :: "('s \<Rightarrow> 'e + 'a) \<Rightarrow> ('s, 'e, 'a) locked_act" where
  "reading f = bind read_guard (\<lambda>_ l. (map_sum Raise id (f (lk_store l)), drop_read l))"

section \<open>The calls\<close>

definition store_insert :: "('s, 'e) storage_ops \<Rightarrow> invoice \<Rightarrow> ('s, 'e, unit) locked_act" where
  "store_insert S i = writing (st_insert S i)"

definition store_remove :: "('s, 'e) storage_ops \<Rightarrow> invoice_id \<Rightarrow> ('s, 'e, invoice option) locked_act" where
  "store_remove S k = writing (st_remove S k)"

definition store_update :: "('s, 'e) storage_ops \<Rightarrow> invoice \<Rightarrow> ('s, 'e, invoice option) locked_act" where
  "store_update S i = writing (st_update S i)"

definition store_get :: "('s, 'e) storage_ops \<Rightarrow> invoice_id \<Rightarrow> ('s, 'e, invoice option) locked_act" where
  "store_get S k = reading (st_get S k)"

definition store_contains_sub_index :: "('s, 'e) storage_ops \<Rightarrow> sub_index \<Rightarrow> ('s, 'e, bool) locked_act" where
  "store_contains_sub_index S x = reading (st_contains_sub_index S x)"

text \<open>\<open>lock\<close> hands out a read guard, which the caller keeps until \<open>drop_read\<close>.\<close>

definition store_lock :: "('s, 'e, 's) locked_act" where
  "store_lock = bind read_guard (\<lambda>_ l. (Inr (lk_store l), l))"

definition store_lowest_height :: "('s, 'e) storage_ops \<Rightarrow> ('s, 'e, u64 option) locked_act" where
  "store_lowest_height S = reading (st_lowest_height S)"

definition store_is_empty :: "('s, 'e) storage_ops \<Rightarrow> ('s, 'e, bool) locked_act" where
  "store_is_empty S = reading (st_is_empty S)"

definition store_flush :: "('s, 'e) storage_ops \<Rightarrow> ('s, 'e, unit) locked_act" where
  "store_flush S = reading (st_flush S)"

lemmas store_defs =
  store_insert_def store_remove_def store_update_def store_get_def store_contains_sub_index_def
  store_lowest_height_def store_is_empty_def store_flush_def

section \<open>What the lock does\<close>

definition unlocked :: "'s locked \<Rightarrow> bool" where
  "unlocked l \<longleftrightarrow> \<not> lk_writing l \<and> lk_readers l = 0"

lemma unlocked_simps [simp]:
  "unlocked (store_new s)" "lk_store (store_new s) = s"
  "unlocked (l\<lparr>lk_store := s\<rparr>) = unlocked l"
  by (simp_all add: unlocked_def store_new_def)

lemma writing_unlocked:
  "unlocked l \<Longrightarrow> writing m l =
     (map_sum Raise id (fst (m (lk_store l))), l\<lparr>lk_store := snd (m (lk_store l))\<rparr>)"
  by (cases l; cases "m (lk_store l)") (auto simp: writing_def write_guard_def unlocked_def bind_apply)

lemma reading_shared: "\<not> lk_writing l \<Longrightarrow> reading f l = (map_sum Raise id (f (lk_store l)), l)"
  by (simp add: reading_def read_guard_def drop_read_def bind_apply)

text \<open>
  While a guard of \<open>lock\<close> lives, as during the loop of a scan over the invoices, reads go on, and a
  write waits and changes nothing.
\<close>

lemma writing_waits: "0 < lk_readers l \<Longrightarrow> writing m l = (Inl Blocked, l)"
  by (simp add: writing_def write_guard_def bind_apply)

lemma lock_keeps_writers_out:
  assumes "store_lock l = (Inr s, l')"
  shows "writing m l' = (Inl Blocked, l')" and "lk_store l' = s" and "unlocked l \<Longrightarrow> drop_read l' = l"
    and "reading f l' = (map_sum Raise id (f s), l')"
  using assms
  by (auto simp: store_lock_def read_guard_def drop_read_def unlocked_def bind_apply reading_shared
      writing_waits split: if_splits)

end
