(* ===== verification/Store_Calls.thy ===== *)
theory Store_Calls
  imports Store_Lock
begin

text \<open>
  The abstract specification of a store: a finite map from invoice ids to invoices. A store that
  meets the contract of \<open>src/src/storage/mod.rs\<close> answers every sequence of calls as the map does.
\<close>

datatype store_call =
    CallInsert invoice
  | CallRemove invoice_id
  | CallUpdate invoice

text \<open>Answers: \<open>Inl ()\<close> for an error, else the invoice the call returns.\<close>

type_synonym answer = "unit + invoice option"

fun call_store :: "('s, 'e) storage_ops \<Rightarrow> store_call \<Rightarrow> 's \<Rightarrow> answer \<times> 's" where
  "call_store S (CallInsert i) s =
     (case st_insert S i s of (Inl _, s') \<Rightarrow> (Inl (), s') | (Inr _, s') \<Rightarrow> (Inr None, s'))"
| "call_store S (CallRemove k) s =
     (case st_remove S k s of (Inl _, s') \<Rightarrow> (Inl (), s') | (Inr r, s') \<Rightarrow> (Inr r, s'))"
| "call_store S (CallUpdate i) s =
     (case st_update S i s of (Inl _, s') \<Rightarrow> (Inl (), s') | (Inr r, s') \<Rightarrow> (Inr r, s'))"

fun call_map :: "store_call \<Rightarrow> (invoice_id \<rightharpoonup> invoice) \<Rightarrow> answer \<times> (invoice_id \<rightharpoonup> invoice)" where
  "call_map (CallInsert i) L =
     (if L (invoice_id i) = None then (Inr None, L(invoice_id i \<mapsto> i)) else (Inl (), L))"
| "call_map (CallRemove k) L = (Inr (L k), L(k := None))"
| "call_map (CallUpdate i) L =
     (Inr (L (invoice_id i)), if L (invoice_id i) = None then L else L(invoice_id i \<mapsto> i))"

fun calls :: "('c \<Rightarrow> 's \<Rightarrow> 'a \<times> 's) \<Rightarrow> 'c list \<Rightarrow> 's \<Rightarrow> 'a list \<times> 's" where
  "calls f [] s = ([], s)"
| "calls f (c # cs) s = (let (r, s') = f c s; (rs, s'') = calls f cs s' in (r # rs, s''))"

text \<open>The same calls through the lock.\<close>

fun call_locked :: "('s, 'e) storage_ops \<Rightarrow> store_call \<Rightarrow> 's locked \<Rightarrow> answer \<times> 's locked" where
  "call_locked S (CallInsert i) l =
     (case store_insert S i l of (Inl _, l') \<Rightarrow> (Inl (), l') | (Inr _, l') \<Rightarrow> (Inr None, l'))"
| "call_locked S (CallRemove k) l =
     (case store_remove S k l of (Inl _, l') \<Rightarrow> (Inl (), l') | (Inr r, l') \<Rightarrow> (Inr r, l'))"
| "call_locked S (CallUpdate i) l =
     (case store_update S i l of (Inl _, l') \<Rightarrow> (Inl (), l') | (Inr r, l') \<Rightarrow> (Inr r, l'))"

lemma call_locked_eq:
  assumes "unlocked l" and "call_store S c (lk_store l) = (r, s)"
  shows "call_locked S c l = (r, l\<lparr>lk_store := s\<rparr>)"
  using assms by (cases c) (auto simp: store_defs writing_unlocked split: prod.splits sum.splits)

lemma calls_locked_eq:
  "unlocked l \<Longrightarrow> calls (call_store S) cs (lk_store l) = (rs, s) \<Longrightarrow>
   calls (call_locked S) cs l = (rs, l\<lparr>lk_store := s\<rparr>)"
proof (induction cs arbitrary: l rs)
  case (Cons c cs)
  obtain r s1 where c: "call_store S c (lk_store l) = (r, s1)" by fastforce
  show ?case
    using Cons.prems call_locked_eq [OF Cons.prems(1) c] Cons.IH [of "l\<lparr>lk_store := s1\<rparr>"]
    by (auto simp: c split: prod.splits)
qed simp

context invoice_storage begin

lemma call_refines:
  assumes "ok s"
  shows "\<exists>s'. call_store S c s = (fst (call_map c (lookup s)), s') \<and> ok s' \<and>
    lookup s' = snd (call_map c (lookup s))"
proof (cases c)
  case (CallInsert i)
  show ?thesis
    using insert_new [OF assms, of i] insert_existing [OF assms, of i] CallInsert assms
    by (cases "lookup s (invoice_id i)") auto
next
  case (CallRemove k)
  then show ?thesis using remove [OF assms, of k] by auto
next
  case (CallUpdate i)
  then show ?thesis using update [OF assms, of i] by auto
qed

lemma calls_refine:
  "ok s \<Longrightarrow> \<exists>s'. calls (call_store S) cs s = (fst (calls call_map cs (lookup s)), s') \<and> ok s' \<and>
     lookup s' = snd (calls call_map cs (lookup s))"
proof (induction cs arbitrary: s)
  case (Cons c cs)
  from call_refines [OF Cons.prems, of c] obtain s1 where
    s1: "call_store S c s = (fst (call_map c (lookup s)), s1)" "ok s1"
      "lookup s1 = snd (call_map c (lookup s))" by blast
  from Cons.IH [OF s1(2)] show ?case by (auto simp: s1 split_beta)
qed simp

lemma calls_locked_refine:
  assumes "ok (lk_store l)" and "unlocked l"
  shows "\<exists>s. calls (call_locked S) cs l = (fst (calls call_map cs (lookup (lk_store l))), l\<lparr>lk_store := s\<rparr>) \<and>
    ok s \<and> lookup s = snd (calls call_map cs (lookup (lk_store l)))"
  using calls_refine [OF assms(1), of cs] calls_locked_eq [OF assms(2), of S cs] by blast

end

end
