(* ===== verification/Subaddress_Cache.thy ===== *)
theory Subaddress_Cache
  imports Storage
begin

text \<open>
  \<open>src/src/caching/subaddress_cache.rs\<close>: the pool of subaddresses that new invoices are given. A
  subaddress is derived from the view pair by the \<open>monero\<close> crate, here the argument \<open>addr\<close>;
  the random generator is the argument \<open>gen_range\<close>, drawing from \<open>0..n\<close>. \<open>highest_minor_index\<close>,
  an atomic shared with the scanning thread, is a field of the pool's state. The contract the
  gateway needs of a pool is the locale \<open>address_pool\<close>.
\<close>

section \<open>Generating subaddresses\<close>

definition min_available_subaddresses :: u32 where
  "min_available_subaddresses = 100"

function generate_loop ::
  "(sub_index \<Rightarrow> string) \<Rightarrow> sub_index \<Rightarrow> sub_index \<Rightarrow> (sub_index \<times> string) list" where
  "generate_loop addr current to =
     (if current \<le> to then
        (current, addr current) #
        (case checked_add (minor current) 1 of
           Some m \<Rightarrow> generate_loop addr (SubIndex (major current) m) to
         | None \<Rightarrow> [])
      else [])"
  by pat_completeness auto
termination
  by (relation "measure (\<lambda>(addr, current, to). 2 ^ 32 - unat (minor current))")
    (auto simp: checked_add_one unat_plus_one intro!: diff_less_mono2 unat_less_32
      split: if_splits)

declare generate_loop.simps [simp del]

definition generate_range ::
  "(sub_index \<Rightarrow> string) \<Rightarrow> sub_index \<Rightarrow> sub_index \<Rightarrow> (sub_index \<times> string) list" where
  "generate_range addr from_index to_index =
     (if to_index < from_index then [] else generate_loop addr from_index to_index)"

section \<open>The pool\<close>

record 'r subaddress_cache =
  sc_major_index :: u32
  sc_highest_minor_index :: u32
  sc_available :: "(sub_index, string) index_map"
  sc_rng :: 'r

definition subaddress_cache_init ::
  "('s, 'e) storage_ops \<Rightarrow> (sub_index \<Rightarrow> string) \<Rightarrow> u32 \<Rightarrow> 'r \<Rightarrow> 's \<Rightarrow> 'e + 'r subaddress_cache" where
  "subaddress_cache_init S addr major_index rng s =
     (case st_try_iter S s of
        Inl e \<Rightarrow> Inl e
      | Inr items \<Rightarrow>
          (case collect_results (map (map_sum id index) items) of
             Inl e \<Rightarrow> Inl e
           | Inr used_sub_indexes \<Rightarrow>
               (let max_used =
                      (if used_sub_indexes = [] then 0 else minor (Max (set used_sub_indexes)));
                    highest = max (min_available_subaddresses - 1) max_used;
                    generated = hm_extend []
                      (generate_range addr (SubIndex major_index 0) (SubIndex major_index highest))
                in Inr \<lparr>sc_major_index = major_index, sc_highest_minor_index = highest,
                        sc_available = hm_retain (\<lambda>k. k \<notin> set used_sub_indexes) generated,
                        sc_rng = rng\<rparr>)))"

fun extend_loop ::
  "(sub_index \<Rightarrow> string) \<Rightarrow> nat \<Rightarrow> u32 \<Rightarrow> 'r subaddress_cache \<Rightarrow> u32 \<times> 'r subaddress_cache" where
  "extend_loop addr 0 added c = (added, c)"
| "extend_loop addr (Suc n) added c =
     (if sc_highest_minor_index c = - 1 then (added, c)
      else
        (let sub_index = SubIndex (sc_major_index c) (sc_highest_minor_index c + 1) in
         extend_loop addr n (added + 1)
           (c\<lparr>sc_available := im_insert sub_index (addr sub_index) (sc_available c),
              sc_highest_minor_index := minor sub_index\<rparr>)))"

definition extend_by ::
  "(sub_index \<Rightarrow> string) \<Rightarrow> u32 \<Rightarrow> 'r subaddress_cache \<Rightarrow> u32 \<times> 'r subaddress_cache" where
  "extend_by addr n c = extend_loop addr (unat n) 0 c"

text \<open>
  \<open>remove_random\<close>. Drawing from the empty range panics; the retry runs for as long as the
  generator leaves its range.
\<close>

partial_function (option) remove_random ::
  "(nat \<Rightarrow> 'r \<Rightarrow> nat \<times> 'r) \<Rightarrow> (sub_index \<Rightarrow> string) \<Rightarrow> 'r subaddress_cache \<Rightarrow>
   (('e fault + sub_index \<times> string) \<times> 'r subaddress_cache) option" where
  "remove_random gen_range addr c =
     (if sc_available c = [] then Some (Inl Panic, c)
      else
        (let (map_index, rng') = gen_range (length (sc_available c)) (sc_rng c);
             c1 = c\<lparr>sc_rng := rng'\<rparr>
         in case im_shift_remove_index map_index (sc_available c1) of
              Some (kv, rest) \<Rightarrow>
                (let c2 = c1\<lparr>sc_available := rest\<rparr> in
                 Some (Inr kv,
                   if length rest \<le> unat min_available_subaddresses
                   then snd (extend_by addr min_available_subaddresses c2) else c2))
            | None \<Rightarrow> remove_random gen_range addr c1))"

definition draw ::
  "(nat \<Rightarrow> 'r \<Rightarrow> nat \<times> 'r) \<Rightarrow> (sub_index \<Rightarrow> string) \<Rightarrow>
   ('r subaddress_cache, 'e fault, sub_index \<times> string) act" where
  "draw gen_range addr c =
     (case remove_random gen_range addr c of None \<Rightarrow> (Inl Blocked, c) | Some r \<Rightarrow> r)"

definition subaddress_cache_insert ::
  "sub_index \<Rightarrow> string \<Rightarrow> 'r subaddress_cache \<Rightarrow> 'r subaddress_cache" where
  "subaddress_cache_insert k a c = c\<lparr>sc_available := im_insert k a (sc_available c)\<rparr>"

section \<open>Facts about generation\<close>

definition indices :: "u32 \<Rightarrow> nat \<Rightarrow> nat \<Rightarrow> sub_index list" where
  "indices M a b = map (\<lambda>m. SubIndex M (of_nat m)) [a..<b]"

lemma generate_loop_eq:
  assumes "M \<le> major to"
  shows "generate_loop addr (SubIndex M m) to =
    map (\<lambda>k. (k, addr k))
      (indices M (unat m) (if M = major to then Suc (unat (minor to)) else 2 ^ 32))"
  using assms
proof (induction "2 ^ 32 - unat m" arbitrary: m rule: less_induct)
  case less
  let ?b = "if M = major to then Suc (unat (minor to)) else 2 ^ 32"
  show ?case
  proof (cases "SubIndex M m \<le> to")
    case False
    with less.prems have "M = major to" and "minor to < m"
      by (auto simp: sub_index_le_iff)
    then have "?b \<le> unat m" by (simp add: word_less_nat_alt)
    with False show ?thesis by (simp add: generate_loop.simps indices_def)
  next
    case True
    then have lt: "unat m < ?b"
      using unsigned_less [of m]
      by (cases to) (auto simp: sub_index_le_iff word_le_nat_alt word_less_nat_alt)
    show ?thesis
    proof (cases "m = - 1")
      case True
      then have "?b = Suc (unat m)"
        using lt unat_less_32 [of "minor to"] by (simp add: unat_max_32 split: if_splits)
      with True \<open>SubIndex M m \<le> to\<close> show ?thesis
        by (simp add: generate_loop.simps [of addr "SubIndex M (- 1)"] checked_add_one indices_def)
    next
      case False
      then have suc: "unat (m + 1) = Suc (unat m)" by (rule unat_plus_one)
      then have "2 ^ 32 - unat (m + 1) < 2 ^ 32 - unat m"
        using unat_less_32 [of m] by simp
      from less.hyps [OF this less.prems] show ?thesis
        using True False lt suc
        by (simp add: generate_loop.simps [of addr "SubIndex M m"] checked_add_one indices_def
            upt_conv_Cons)
    qed
  qed
qed

lemma generate_range_eq:
  "generate_range addr (SubIndex M a) to =
    (if M \<le> major to then
       map (\<lambda>k. (k, addr k)) (indices M (unat a) (if M = major to then Suc (unat (minor to)) else 2 ^ 32))
     else [])"
proof (cases "M \<le> major to")
  case True
  then show ?thesis
    by (cases "to < SubIndex M a")
      (auto simp: generate_range_def generate_loop_eq not_less [symmetric] indices_def
        less_sub_index_def sub_index_cmp_simps word_less_nat_alt)
next
  case False
  then show ?thesis
    by (auto simp: generate_range_def less_sub_index_def sub_index_cmp_simps)
qed

lemma distinct_indices: "b \<le> 2 ^ 32 \<Longrightarrow> distinct (indices M a b)"
  by (auto simp: indices_def distinct_map intro!: inj_onI) (metis less_le_trans unat_of_nat_32)

lemma set_indices:
  "b \<le> 2 ^ 32 \<Longrightarrow> set (indices M a b) = {SubIndex M m | m. a \<le> unat m \<and> unat m < b}"
proof -
  assume b: "b \<le> 2 ^ 32"
  have "of_nat m = (w :: u32) \<longleftrightarrow> unat w = m" if "m < b" for m w
    using that b unat_of_nat_32 [of m] by auto
  then show ?thesis by (force simp: indices_def)
qed

section \<open>Extending the pool\<close>

text \<open>Subaddresses the pool has not generated yet.\<close>

definition beyond :: "'r subaddress_cache \<Rightarrow> sub_index set" where
  "beyond c = {SubIndex (sc_major_index c) m | m. sc_highest_minor_index c < m}"

abbreviation available :: "'r subaddress_cache \<Rightarrow> sub_index set" where
  "available c \<equiv> fst ` set (sc_available c)"

definition pool_ok :: "(sub_index \<Rightarrow> string) \<Rightarrow> 'r subaddress_cache \<Rightarrow> bool" where
  "pool_ok addr c \<longleftrightarrow> hm_wf (sc_available c) \<and> available c \<inter> beyond c = {} \<and>
     list_all (\<lambda>(k, a). a = addr k) (sc_available c)"

definition may_draw :: "'r subaddress_cache \<Rightarrow> sub_index set" where
  "may_draw c = available c \<union> beyond c"

text \<open>
  An extension adds the next subaddresses of the account, stops at the largest minor index, and
  reports how many it added.
\<close>

lemma extend_loop_eq:
  assumes "pool_ok addr c"
  shows "extend_loop addr n added c =
    (let k = min n (2 ^ 32 - 1 - unat (sc_highest_minor_index c)) in
     (added + of_nat k,
      c\<lparr>sc_available := sc_available c @ map (\<lambda>x. (x, addr x))
           (indices (sc_major_index c) (Suc (unat (sc_highest_minor_index c)))
              (Suc (unat (sc_highest_minor_index c)) + k)),
        sc_highest_minor_index := sc_highest_minor_index c + of_nat k\<rparr>)) \<and>
    pool_ok addr (snd (extend_loop addr n added c)) \<and>
    may_draw (snd (extend_loop addr n added c)) = may_draw c"
  using assms
proof (induction n arbitrary: added c)
  case 0
  then show ?case by (simp add: indices_def)
next
  case (Suc n)
  let ?h = "sc_highest_minor_index c" and ?M = "sc_major_index c"
  show ?case
  proof (cases "?h = - 1")
    case True
    then show ?thesis using Suc.prems by (simp add: unat_max_32 indices_def)
  next
    case False
    define x where "x = SubIndex ?M (?h + 1)"
    define c' where "c' = c\<lparr>sc_available := sc_available c @ [(x, addr x)],
      sc_highest_minor_index := ?h + 1\<rparr>"
    have up: "unat (?h + 1) = Suc (unat ?h)" by (rule unat_plus_one [OF False])
    have split: "?h < m \<longleftrightarrow> m = ?h + 1 \<or> ?h + 1 < m" for m
      by (simp add: word_less_nat_alt word_unat_eq_iff up) linarith
    have beyond: "beyond c = insert x (beyond c')" "x \<notin> beyond c'"
      by (auto simp: beyond_def c'_def x_def split)
    then have fresh: "x \<notin> available c" using Suc.prems by (auto simp: pool_ok_def)
    have step: "extend_loop addr (Suc n) added c = extend_loop addr n (added + 1) c'"
      using False fresh by (simp add: c'_def x_def Let_def update_append_new)
    have ok: "pool_ok addr c'" and may: "may_draw c' = may_draw c"
      using Suc.prems beyond fresh by (auto simp: pool_ok_def may_draw_def c'_def)
    define k where "k = min n (2 ^ 32 - 1 - unat (?h + 1))"
    have k: "min (Suc n) (2 ^ 32 - 1 - unat ?h) = Suc k"
      using unat_less_32 [of "?h + 1"] by (simp add: k_def up)
    have next_index: "indices ?M (Suc (unat ?h)) (Suc (unat ?h) + Suc k) =
        x # indices ?M (Suc (Suc (unat ?h))) (Suc (Suc (unat ?h)) + k)"
      by (simp add: indices_def upt_conv_Cons x_def add.commute del: upt_Suc)
    have eq: "extend_loop addr n (added + 1) c' = (added + 1 + of_nat k,
        c'\<lparr>sc_available := sc_available c' @ map (\<lambda>x. (x, addr x))
             (indices (sc_major_index c') (Suc (Suc (unat ?h))) (Suc (Suc (unat ?h)) + k)),
           sc_highest_minor_index := ?h + 1 + of_nat k\<rparr>)"
      using Suc.IH [OF ok, of "added + 1"] by (simp add: Let_def k_def c'_def up)
    have inv: "pool_ok addr (snd (extend_loop addr n (added + 1) c')) \<and>
        may_draw (snd (extend_loop addr n (added + 1) c')) = may_draw c"
      using Suc.IH [OF ok, of "added + 1"] unfolding may by blast
    have "extend_loop addr n (added + 1) c' = (added + of_nat (Suc k),
        c\<lparr>sc_available := sc_available c @ map (\<lambda>x. (x, addr x))
             (indices ?M (Suc (unat ?h)) (Suc (unat ?h) + Suc k)),
          sc_highest_minor_index := ?h + of_nat (Suc k)\<rparr>)"
      unfolding eq next_index by (simp add: c'_def algebra_simps)
    with inv show ?thesis unfolding step k Let_def by (intro conjI) simp_all
  qed
qed

lemma extend_by_eq:
  assumes "pool_ok addr c"
  shows "extend_by addr n c =
    (let k = min (unat n) (2 ^ 32 - 1 - unat (sc_highest_minor_index c)) in
     (of_nat k,
      c\<lparr>sc_available := sc_available c @ map (\<lambda>x. (x, addr x))
           (indices (sc_major_index c) (Suc (unat (sc_highest_minor_index c)))
              (Suc (unat (sc_highest_minor_index c)) + k)),
        sc_highest_minor_index := sc_highest_minor_index c + of_nat k\<rparr>))"
  using extend_loop_eq [OF assms, of "unat n" 0] by (simp add: extend_by_def Let_def)

lemma extend_by_ok:
  assumes "pool_ok addr c"
  shows "pool_ok addr (snd (extend_by addr n c))"
    and "may_draw (snd (extend_by addr n c)) = may_draw c"
  unfolding extend_by_def using extend_loop_eq [OF assms, of "unat n" 0] by blast+

section \<open>The pool's contract\<close>

text \<open>
  \<open>may c\<close> are the subaddresses the pool may hand out, now or later: a draw hands out one of them
  and never again, until it is put back.
\<close>

locale address_pool =
  fixes draw_address :: "'c \<Rightarrow> ('f + sub_index \<times> string) \<times> 'c"
    and put_back :: "sub_index \<Rightarrow> string \<Rightarrow> 'c \<Rightarrow> 'c"
    and addr :: "sub_index \<Rightarrow> string"
    and pok :: "'c \<Rightarrow> bool"
    and may :: "'c \<Rightarrow> sub_index set"
  assumes draw_Inr: "pok c \<Longrightarrow> draw_address c = (Inr (x, a), c') \<Longrightarrow>
      pok c' \<and> a = addr x \<and> x \<in> may c \<and> may c' = may c - {x}"
    and draw_Inl: "pok c \<Longrightarrow> draw_address c = (Inl f, c') \<Longrightarrow> pok c' \<and> may c' = may c"
    and put_back: "pok c \<Longrightarrow> x \<notin> may c \<Longrightarrow> a = addr x \<Longrightarrow>
      pok (put_back x a c) \<and> may (put_back x a c) = insert x (may c)"
begin

text \<open>Two draws without a return in between give different subaddresses.\<close>

lemma draws_differ:
  assumes "pok c" and "draw_address c = (Inr (x, a), c')" and "draw_address c' = (Inr (y, b), c'')"
  shows "x \<noteq> y"
  using draw_Inr [OF assms(1,2)] draw_Inr [of c' y b c''] assms(3) by auto

lemma wp_draws:
  assumes "pok c"
  shows "wp (for_loop (\<lambda>_ xs. bind draw_address (\<lambda>x. ret (xs @ [x]))) is [])
    (\<lambda>xs c'. pok c' \<and> distinct (map fst xs) \<and> list_all (\<lambda>(x, a). a = addr x) xs \<and>
       set (map fst xs) \<subseteq> may c \<and> may c' = may c - set (map fst xs))
    (\<lambda>_ _. True) c"
proof (rule wp_for_loop_inv)
  fix i xs c1
  assume I: "pok c1 \<and> distinct (map fst xs) \<and> list_all (\<lambda>(x, a). a = addr x) xs \<and>
       set (map fst xs) \<subseteq> may c \<and> may c1 = may c - set (map fst xs)"
  show "wp (bind draw_address (\<lambda>x. ret (xs @ [x])))
    (\<lambda>xs c'. pok c' \<and> distinct (map fst xs) \<and> list_all (\<lambda>(x, a). a = addr x) xs \<and>
       set (map fst xs) \<subseteq> may c \<and> may c' = may c - set (map fst xs)) (\<lambda>_ _. True) c1"
    unfolding wp_bind wp_ret by (rule wp_I) (use I draw_Inr [of c1] in \<open>auto split: prod.splits\<close>)
qed (use assms in simp)

lemma put_back_undoes_draw:
  assumes "pok c" and "draw_address c = (Inr (x, a), c')"
  shows "pok (put_back x a c')" and "may (put_back x a c') = may c"
  using draw_Inr [OF assms] put_back [of c' x a] by auto

end

lemma pool_ok_rng [simp]:
  "pool_ok addr (c\<lparr>sc_rng := g\<rparr>) = pool_ok addr c" "may_draw (c\<lparr>sc_rng := g\<rparr>) = may_draw c"
  by (simp_all add: pool_ok_def may_draw_def beyond_def)

lemma beyond_available [simp]: "beyond (c\<lparr>sc_available := m\<rparr>) = beyond c"
  by (simp add: beyond_def)

lemma pool_ok_shift_remove:
  assumes ok: "pool_ok addr c" and rm: "im_shift_remove_index i (sc_available c) = Some ((x, a), rest)"
  shows "pool_ok addr (c\<lparr>sc_available := rest\<rparr>)" and "a = addr x" and "x \<in> may_draw c"
    and "may_draw (c\<lparr>sc_available := rest\<rparr>) = may_draw c - {x}"
proof -
  have ms: "set (sc_available c) = insert (x, a) (set rest)"
    using mset_im_shift_remove_index [OF rm] by (metis set_mset_add_mset_insert set_mset_mset)
  have wf: "hm_wf (sc_available c)" using ok by (simp add: pool_ok_def)
  note r = hm_wf_shift_remove_index [OF rm wf]
  from ok ms r show "pool_ok addr (c\<lparr>sc_available := rest\<rparr>)" and "a = addr x" and "x \<in> may_draw c"
    and "may_draw (c\<lparr>sc_available := rest\<rparr>) = may_draw c - {x}"
    by (auto simp: pool_ok_def may_draw_def list_all_iff)
qed

text \<open>Whatever the random numbers, a draw keeps the contract.\<close>

definition drawn ::
  "(sub_index \<Rightarrow> string) \<Rightarrow> 'r subaddress_cache \<Rightarrow>
   ('f + sub_index \<times> string) \<times> 'r subaddress_cache \<Rightarrow> bool" where
  "drawn addr c = (\<lambda>(r, c'). pool_ok addr c' \<and>
     (case r of Inl _ \<Rightarrow> may_draw c' = may_draw c
      | Inr (x, a) \<Rightarrow> a = addr x \<and> x \<in> may_draw c \<and> may_draw c' = may_draw c - {x}))"

lemma remove_random_drawn:
  fixes c :: "'r subaddress_cache" and r :: "('e fault + sub_index \<times> string) \<times> 'r subaddress_cache"
  assumes "remove_random gen_range addr c = Some r" and "pool_ok addr c"
  shows "drawn addr c r"
proof -
  have "pool_ok addr c \<longrightarrow> drawn addr c r"
  proof (rule remove_random.raw_induct
      [where P = "\<lambda>gen_range addr c r. pool_ok addr c \<longrightarrow> drawn addr c r", OF _ assms(1)], intro impI)
    fix rec gen_range and addr :: "sub_index \<Rightarrow> string" and c :: "'r subaddress_cache"
      and r :: "('e fault + sub_index \<times> string) \<times> 'r subaddress_cache"
    assume IH: "\<And>gen_range addr c r. rec gen_range addr c = Some r \<Longrightarrow> pool_ok addr c \<longrightarrow> drawn addr c r"
      and body: "(if sc_available c = [] then Some (Inl Panic, c)
        else
          (let (map_index, rng') = gen_range (length (sc_available c)) (sc_rng c);
               c1 = c\<lparr>sc_rng := rng'\<rparr>
           in case im_shift_remove_index map_index (sc_available c1) of
                None \<Rightarrow> rec gen_range addr c1
              | Some (kv, rest) \<Rightarrow>
                  (let c2 = c1\<lparr>sc_available := rest\<rparr> in
                   Some (Inr kv,
                     if length rest \<le> unat min_available_subaddresses
                     then snd (extend_by addr min_available_subaddresses c2) else c2)))) =
        Some r"
      and ok: "pool_ok addr c"
    obtain i g where g: "gen_range (length (sc_available c)) (sc_rng c) = (i, g)" by fastforce
    consider (empty) "sc_available c = []"
      | (retry) "sc_available c \<noteq> []" "im_shift_remove_index i (sc_available c) = None"
      | (draw) x a rest where "sc_available c \<noteq> []"
          "im_shift_remove_index i (sc_available c) = Some ((x, a), rest)"
      by (metis not_None_eq prod.exhaust)
    then show "drawn addr c r"
    proof cases
      case empty
      with body ok show ?thesis by (auto simp: drawn_def)
    next
      case retry
      with body g have "rec gen_range addr (c\<lparr>sc_rng := g\<rparr>) = Some r" by simp
      from IH [OF this] ok show ?thesis by (auto simp: drawn_def split: prod.splits sum.splits)
    next
      case draw
      have "pool_ok addr (c\<lparr>sc_rng := g\<rparr>)" using ok by simp
      from pool_ok_shift_remove [OF this, of i x a rest] draw(2)
      have rest: "pool_ok addr (c\<lparr>sc_rng := g, sc_available := rest\<rparr>)" "a = addr x" "x \<in> may_draw c"
        "may_draw (c\<lparr>sc_rng := g, sc_available := rest\<rparr>) = may_draw c - {x}" by simp_all
      from draw body g have "r = (Inr (x, a),
          if length rest \<le> unat min_available_subaddresses
          then snd (extend_by addr min_available_subaddresses (c\<lparr>sc_rng := g, sc_available := rest\<rparr>))
          else c\<lparr>sc_rng := g, sc_available := rest\<rparr>)"
        by (simp add: Let_def)
      with rest show ?thesis by (simp add: drawn_def extend_by_ok)
    qed
  qed
  with assms(2) show ?thesis by blast
qed

text \<open>With a generator that stays in its range there is no retry.\<close>

lemma remove_random_in_range:
  assumes "sc_available c \<noteq> []"
    and "gen_range (length (sc_available c)) (sc_rng c) = (i, g)" and "i < length (sc_available c)"
  shows "remove_random gen_range addr c = Some (Inr (sc_available c ! i),
    (let c2 = c\<lparr>sc_rng := g, sc_available := take i (sc_available c) @ drop (Suc i) (sc_available c)\<rparr>
     in if length (sc_available c) \<le> 101 then snd (extend_by addr 100 c2) else c2))"
  using assms
  by (subst remove_random.simps)
    (auto simp: im_shift_remove_index_def Let_def min_available_subaddresses_def)

lemma pool_ok_insert:
  assumes "pool_ok addr c" and "x \<notin> may_draw c" and "a = addr x"
  shows "pool_ok addr (subaddress_cache_insert x a c)"
    and "may_draw (subaddress_cache_insert x a c) = insert x (may_draw c)"
  using assms
  by (auto simp: pool_ok_def may_draw_def subaddress_cache_insert_def update_append_new list_all_iff)

interpretation pool: address_pool "draw gen_range addr" subaddress_cache_insert addr
    "pool_ok addr" may_draw
  for gen_range :: "nat \<Rightarrow> 'r \<Rightarrow> nat \<times> 'r" and addr
proof unfold_locales
  fix c x a c'
  assume "pool_ok addr c" and "draw gen_range addr c = (Inr (x, a), c')"
  then show "pool_ok addr c' \<and> a = addr x \<and> x \<in> may_draw c \<and> may_draw c' = may_draw c - {x}"
    using remove_random_drawn [of gen_range addr c]
    by (auto simp: draw_def drawn_def split: option.splits)
next
  fix c f c'
  assume "pool_ok addr c" and "draw gen_range addr c = (Inl f, c')"
  then show "pool_ok addr c' \<and> may_draw c' = may_draw c"
    using remove_random_drawn [of gen_range addr c]
    by (auto simp: draw_def drawn_def split: option.splits)
qed (simp_all add: pool_ok_insert)

section \<open>The initial pool\<close>

lemma hm_extend_distinct: "distinct (map fst kvs) \<Longrightarrow> hm_extend [] kvs = kvs"
proof (induction kvs rule: rev_induct)
  case (snoc kv kvs)
  then show ?case by (cases kv) (simp add: hm_extend_def update_append_new)
qed (simp add: hm_extend_def)

lemma subaddress_cache_init_eq:
  assumes "st_try_iter S s = Inr (map Inr is)"
  shows "\<exists>c. subaddress_cache_init S addr M rng s = Inr c \<and> sc_major_index c = M \<and>
    pool_ok addr c \<and>
    sc_highest_minor_index c =
      max 99 (if is = [] then 0 else minor (Max (index ` set is))) \<and>
    available c = {SubIndex M m | m. m \<le> sc_highest_minor_index c} - index ` set is"
proof -
  define h where "h = max 99 (if is = [] then 0 else minor (Max (index ` set is)))"
  define gen where "gen = map (\<lambda>k. (k, addr k)) (indices M 0 (Suc (unat h)))"
  have h: "max (min_available_subaddresses - 1)
      (if map index is = [] then 0 else minor (Max (set (map index is)))) = h"
    by (simp add: h_def min_available_subaddresses_def)
  have bound: "Suc (unat h) \<le> 2 ^ 32" using unat_less_32 [of h] by simp
  have gen: "generate_range addr (SubIndex M 0) (SubIndex M h) = gen"
    by (simp add: generate_range_eq gen_def)
  have fst_gen: "map fst gen = indices M 0 (Suc (unat h))"
    by (simp add: gen_def o_def)
  have ext: "hm_extend [] gen = gen"
    by (rule hm_extend_distinct) (simp only: fst_gen distinct_indices [OF bound])
  let ?c = "\<lparr>sc_major_index = M, sc_highest_minor_index = h,
    sc_available = hm_retain (\<lambda>k. k \<notin> set (map index is)) gen, sc_rng = rng\<rparr>"
  have init: "subaddress_cache_init S addr M rng s = Inr ?c"
    unfolding subaddress_cache_init_def assms sum.case map_map o_def map_sum.simps
      collect_results_Inr Let_def h gen ext ..
  have keys: "fst ` set gen = {SubIndex M m | m. m \<le> h}"
    using set_indices [OF bound, of M 0]
    by (simp only: fst_gen set_map [symmetric]) (auto simp: word_le_nat_alt less_Suc_eq_le)
  have avail: "available ?c = {SubIndex M m | m. m \<le> h} - index ` set is"
    by (simp only: keys_hm_retain subaddress_cache.simps keys) auto
  have "hm_wf (sc_available ?c)"
    using distinct_indices [OF bound] by (simp add: fst_gen)
  moreover have "available ?c \<inter> beyond ?c = {}"
    unfolding avail beyond_def by auto
  moreover have "list_all (\<lambda>(k, a). a = addr k) (sc_available ?c)"
    by (auto simp: list_all_iff hm_retain_def gen_def)
  ultimately have "pool_ok addr ?c" by (simp add: pool_ok_def)
  with init avail show ?thesis by (intro exI [of _ ?c]) (simp add: h_def)
qed

end
