(* ===== verification/Gateway.thy ===== *)
theory Gateway
  imports Scan_Any Subaddress_Cache
begin

text \<open>
  \<open>src/src/payment_gateway.rs\<close>: the gateway, its scanning thread, and the calls of its users.

  The gateway and its thread share the store, the publisher, the two heights, the highest minor
  index and the command channel; they are fields of one state. The thread's step is one round of
  its loop. The mutex of \<open>scanner_handle\<close> is explicit: taking it again in the same call never
  returns. Arguments stand for the other crates: the store \<open>S\<close>, the client \<open>R\<close>, \<open>gen_range\<close> and
  \<open>addr\<close> of the pool, \<open>M\<close> of the scanner, and \<open>new_checker\<close> and \<open>table_len\<close> for \<open>SubKeyChecker\<close>.
\<close>

section \<open>State\<close>

text \<open>
  \<open>SubKeyChecker::new\<close> of a range of major and a range of minor indices, ends excluded, and the
  size of its table.
\<close>

record 'k checker_ops =
  ck_new :: "u32 \<Rightarrow> u32 \<Rightarrow> u32 \<Rightarrow> u32 \<Rightarrow> 'k"
  ck_table_len :: "'k \<Rightarrow> nat"

datatype message_to_scanner = Stop

text \<open>
  The scanning thread: at the top of its loop, waiting for ever inside a scan, or finished, with
  what \<open>join\<close> gives.
\<close>

datatype 'e thread =
    Running
  | Stuck
  | Exited "'e accept_xmr_error option"
  | Panicked

fun is_finished :: "'e thread \<Rightarrow> bool" where
  "is_finished Running = False"
| "is_finished Stuck = False"
| "is_finished (Exited _) = True"
| "is_finished Panicked = True"

record ('tx, 'k) scanner =
  sr_block_cache :: "'tx block_cache"
  sr_txpool_cache :: "'tx txpool_cache"
  sr_first_scan :: bool
  sr_checker :: 'k

record ('tx, 'k, 's, 'w, 'r, 'e) gateway =
  gw_world :: 'w
  gw_store :: 's
  gw_subaddresses :: "'r subaddress_cache"
  gw_major_index :: u32
  gw_block_cache_height :: u64
  gw_cached_daemon_height :: u64
  gw_publisher :: publisher
  gw_handle :: "'e thread option"
  gw_handle_locked :: bool
  gw_commands :: "message_to_scanner list"
  gw_scanner :: "('tx, 'k) scanner option"

type_synonym ('tx, 'k, 's, 'w, 'r, 'e, 'a) gw_act =
  "(('tx, 'k, 's, 'w, 'r, 'e) gateway, 'e accept_xmr_error fault, 'a) act"

datatype 'e gateway_status = IsRunning | NotRunning | HasError "'e accept_xmr_error"

section \<open>Access to the parts\<close>

definition gw_get ::
  "(('tx, 'k, 's, 'w, 'r, 'e) gateway \<Rightarrow> 'a) \<Rightarrow> ('tx, 'k, 's, 'w, 'r, 'e, 'a) gw_act" where
  "gw_get f = (\<lambda>g. (Inr (f g), g))"

definition gw_put ::
  "(('tx, 'k, 's, 'w, 'r, 'e) gateway \<Rightarrow> ('tx, 'k, 's, 'w, 'r, 'e) gateway) \<Rightarrow>
   ('tx, 'k, 's, 'w, 'r, 'e, unit) gw_act" where
  "gw_put f = (\<lambda>g. (Inr (), f g))"

definition gw_on_store :: "('s, 'e, 'a) act \<Rightarrow> ('tx, 'k, 's, 'w, 'r, 'e, 'a) gw_act" where
  "gw_on_store m = (\<lambda>g. case m (gw_store g) of
     (Inl e, s) \<Rightarrow> (Inl (Raise (InvoiceStorage e)), g\<lparr>gw_store := s\<rparr>)
   | (Inr x, s) \<Rightarrow> (Inr x, g\<lparr>gw_store := s\<rparr>))"

definition gw_on_pool ::
  "('r subaddress_cache, 'e accept_xmr_error fault, 'a) act \<Rightarrow> ('tx, 'k, 's, 'w, 'r, 'e, 'a) gw_act" where
  "gw_on_pool m = (\<lambda>g. case m (gw_subaddresses g) of (r, c) \<Rightarrow> (r, g\<lparr>gw_subaddresses := c\<rparr>))"

definition gw_on_publisher :: "(publisher \<Rightarrow> 'a \<times> publisher) \<Rightarrow> ('tx, 'k, 's, 'w, 'r, 'e, 'a) gw_act" where
  "gw_on_publisher f = (\<lambda>g. case f (gw_publisher g) of (x, p) \<Rightarrow> (Inr x, g\<lparr>gw_publisher := p\<rparr>))"

text \<open>\<open>scanner_handle.lock()\<close>, and the end of the guard.\<close>

definition lock_handle :: "('tx, 'k, 's, 'w, 'r, 'e, unit) gw_act" where
  "lock_handle = (\<lambda>g. if gw_handle_locked g then (Inl Blocked, g) else (Inr (), g\<lparr>gw_handle_locked := True\<rparr>))"

definition unlock_handle :: "('tx, 'k, 's, 'w, 'r, 'e, unit) gw_act" where
  "unlock_handle = gw_put (\<lambda>g. g\<lparr>gw_handle_locked := False\<rparr>)"

text \<open>\<open>Option::take\<close> on the handle.\<close>

definition take_handle :: "('tx, 'k, 's, 'w, 'r, 'e, 'e thread option) gw_act" where
  "take_handle = (\<lambda>g. (Inr (gw_handle g), g\<lparr>gw_handle := None\<rparr>))"

section \<open>Building the gateway\<close>

definition gateway_build ::
  "('s, 'e) storage_ops \<Rightarrow> (sub_index \<Rightarrow> string) \<Rightarrow> u32 \<Rightarrow> 'r \<Rightarrow> 'w \<Rightarrow> 's \<Rightarrow>
   'e accept_xmr_error + ('tx, 'k, 's, 'w, 'r, 'e) gateway" where
  "gateway_build S addr major_index rng w s =
     (case subaddress_cache_init S addr major_index rng s of
        Inl e \<Rightarrow> Inl (InvoiceStorage e)
      | Inr subaddresses \<Rightarrow>
          Inr \<lparr>gw_world = w, gw_store = s, gw_subaddresses = subaddresses,
               gw_major_index = major_index, gw_block_cache_height = 0,
               gw_cached_daemon_height = 0, gw_publisher = publisher_new, gw_handle = None,
               gw_handle_locked = False, gw_commands = [], gw_scanner = None\<rparr>)"

section \<open>Calls\<close>

definition new_invoice ::
  "('s, 'e) storage_ops \<Rightarrow> (nat \<Rightarrow> 'r \<Rightarrow> nat \<times> 'r) \<Rightarrow> (sub_index \<Rightarrow> string) \<Rightarrow>
   u64 \<Rightarrow> u64 \<Rightarrow> u64 \<Rightarrow> string \<Rightarrow> ('tx, 'k, 's, 'w, 'r, 'e, invoice_id) gw_act" where
  "new_invoice S gen_range addr piconeros confs expiration desc =
     bind (gw_on_pool (draw gen_range addr)) (\<lambda>(sub_index, subaddress).
     bind (gw_get gw_cached_daemon_height) (\<lambda>creation_height.
     let i = invoice_new subaddress sub_index creation_height piconeros confs expiration desc in
     bind (gw_on_store (st_insert S i)) (\<lambda>_.
     bind (gw_on_publisher (\<lambda>p. ((), publisher_insert_invoice (invoice_id i) p))) (\<lambda>_.
     ret (invoice_id i)))))"

definition remove_invoice ::
  "('s, 'e) storage_ops \<Rightarrow> invoice_id \<Rightarrow> ('tx, 'k, 's, 'w, 'r, 'e, invoice option) gw_act" where
  "remove_invoice S k =
     bind (gw_on_store (st_remove S k)) (\<lambda>removed.
       case removed of
         Some old \<Rightarrow>
           bind (gw_put (\<lambda>g. g\<lparr>gw_subaddresses :=
                   subaddress_cache_insert (sub_index k) (address old) (gw_subaddresses g)\<rparr>)) (\<lambda>_.
           bind (gw_on_publisher (\<lambda>p. ((), publisher_remove_invoice k p))) (\<lambda>_.
           ret (Some old)))
       | None \<Rightarrow> ret None)"

definition get_invoice ::
  "('s, 'e) storage_ops \<Rightarrow> invoice_id \<Rightarrow> ('tx, 'k, 's, 'w, 'r, 'e, invoice option) gw_act" where
  "get_invoice S k = gw_on_store (\<lambda>s. (st_get S k s, s))"

definition gateway_daemon_height ::
  "('w, 'tx) rpc_ops \<Rightarrow> ('tx, 'k, 's, 'w, 'r, 'e, u64) gw_act" where
  "gateway_daemon_height R = (\<lambda>g. case rpc_daemon_height R (gw_world g) of
       (Inl e, w) \<Rightarrow> (Inl (rpc_fault e), g\<lparr>gw_world := w\<rparr>)
     | (Inr h, w) \<Rightarrow> (Inr h, g\<lparr>gw_world := w\<rparr>))"

definition cache_height :: "('tx, 'k, 's, 'w, 'r, 'e, u64) gw_act" where
  "cache_height = gw_get gw_block_cache_height"

definition gateway_subscribe ::
  "sender_id \<Rightarrow> invoice_id \<Rightarrow> ('tx, 'k, 's, 'w, 'r, 'e, Pubsub.address option) gw_act" where
  "gateway_subscribe sid k = gw_on_publisher (subscribe sid k)"

definition gateway_subscribe_all ::
  "sender_id \<Rightarrow> ('tx, 'k, 's, 'w, 'r, 'e, Pubsub.address) gw_act" where
  "gateway_subscribe_all sid = gw_on_publisher (subscribe_all sid)"

section \<open>The scanning thread\<close>

definition default_block_cache_size :: nat where
  "default_block_cache_size = 10"

definition saturating_add_one :: "u32 \<Rightarrow> u32" where
  "saturating_add_one m = (case checked_add m 1 of Some n \<Rightarrow> n | None \<Rightarrow> - 1)"

text \<open>The checker a thread starts with: the range of major indices is \<open>1..2\<close>.\<close>

definition initial_checker :: "'k checker_ops \<Rightarrow> u32 \<Rightarrow> 'k" where
  "initial_checker C highest_minor_index = ck_new C 1 2 0 (highest_minor_index + 1)"

definition update_checker :: "'k checker_ops \<Rightarrow> u32 \<Rightarrow> u32 \<Rightarrow> 'k \<Rightarrow> 'k" where
  "update_checker C major_index highest_minor_index checker =
     (if ck_table_len C checker \<le> unat highest_minor_index
      then ck_new C major_index (saturating_add_one major_index) 0
             (saturating_add_one highest_minor_index)
      else checker)"

text \<open>\<open>Scanner::new\<close> with the gateway's store and its two shared heights.\<close>

definition gw_scanner_new ::
  "('w, 'tx) rpc_ops \<Rightarrow> ('s, 'e) storage_ops \<Rightarrow> ('tx, 'k) monero_ops \<Rightarrow>
   ('tx, 'k, 's, 'w, 'r, 'e, 'tx block_cache \<times> 'tx txpool_cache) gw_act" where
  "gw_scanner_new R S M = (\<lambda>g.
     case scanner_new R S M default_block_cache_size (gw_store g)
            ((gw_block_cache_height g, gw_cached_daemon_height g), gw_world g) of
       (r, (hs, w)) \<Rightarrow>
         (r, g\<lparr>gw_block_cache_height := fst hs, gw_cached_daemon_height := snd hs, gw_world := w\<rparr>))"

text \<open>
  \<open>run\<close>. Arguments say whether the thread can be spawned and whether it gets its runtime; a
  thread without a runtime ends with an error.
\<close>

definition run ::
  "('w, 'tx) rpc_ops \<Rightarrow> ('s, 'e) storage_ops \<Rightarrow> ('tx, 'k) monero_ops \<Rightarrow> 'k checker_ops \<Rightarrow>
   string option \<Rightarrow> string option \<Rightarrow> ('tx, 'k, 's, 'w, 'r, 'e, unit) gw_act" where
  "run R S M C spawn_error runtime_error =
     bind lock_handle (\<lambda>_.
     bind (gw_get gw_handle) (\<lambda>handle.
     bind unlock_handle (\<lambda>_.
       if (case handle of Some t \<Rightarrow> \<not> is_finished t | None \<Rightarrow> False) then stop (Raise AlreadyRunning)
       else
         bind (gw_scanner_new R S M) (\<lambda>(block_cache, txpool_cache).
         bind lock_handle (\<lambda>_.
         case spawn_error of
           Some e \<Rightarrow> bind unlock_handle (\<lambda>_. stop (Raise (Threading e)))
         | None \<Rightarrow>
             bind (gw_put (\<lambda>g. g\<lparr>
                     gw_handle := Some (case runtime_error of
                         Some e \<Rightarrow> Exited (Some (Threading e)) | None \<Rightarrow> Running),
                     gw_scanner := Some \<lparr>sr_block_cache = block_cache,
                       sr_txpool_cache = txpool_cache, sr_first_scan = True,
                       sr_checker = initial_checker C (sc_highest_minor_index (gw_subaddresses g))\<rparr>\<rparr>))
               (\<lambda>_. unlock_handle))))))"

text \<open>The scan of the thread on the shared state.\<close>

definition scan_of :: "('tx, 'k, 's, 'w, 'r, 'e) gateway \<Rightarrow> ('tx, 'k) scanner \<Rightarrow> ('tx, 's, 'w) scan_state" where
  "scan_of g sr = \<lparr>sn_store = gw_store g, sn_block_cache = sr_block_cache sr,
     sn_txpool_cache = sr_txpool_cache sr, sn_publisher = gw_publisher g,
     sn_first_scan = sr_first_scan sr, sn_world = gw_world g\<rparr>"

definition after_scan ::
  "('tx, 's, 'w) scan_state \<Rightarrow> ('tx, 'k) scanner \<Rightarrow> ('tx, 'k, 's, 'w, 'r, 'e) gateway \<Rightarrow>
   ('tx, 'k, 's, 'w, 'r, 'e) gateway" where
  "after_scan \<sigma> sr g = g\<lparr>gw_store := sn_store \<sigma>, gw_publisher := sn_publisher \<sigma>,
     gw_world := sn_world \<sigma>, gw_block_cache_height := bc_height (sn_block_cache \<sigma>),
     gw_cached_daemon_height := bc_daemon_height (sn_block_cache \<sigma>),
     gw_scanner := Some (sr\<lparr>sr_block_cache := sn_block_cache \<sigma>,
       sr_txpool_cache := sn_txpool_cache \<sigma>, sr_first_scan := sn_first_scan \<sigma>\<rparr>)\<rparr>"

text \<open>
  One round of the loop: a waiting message stops the thread; otherwise the checker is brought up
  to date and a scan is made, whose error is only logged.
\<close>

definition thread_step ::
  "('w, 'tx) rpc_ops \<Rightarrow> ('s, 'e) storage_ops \<Rightarrow> ('tx, 'k) monero_ops \<Rightarrow> 'k checker_ops \<Rightarrow>
   ('tx, 'k, 's, 'w, 'r, 'e) gateway \<Rightarrow> ('tx, 'k, 's, 'w, 'r, 'e) gateway" where
  "thread_step R S M C g =
     (case (gw_handle g, gw_scanner g) of
        (Some Running, Some sr) \<Rightarrow>
          (case gw_commands g of
             Stop # rest \<Rightarrow> g\<lparr>gw_commands := rest, gw_handle := Some (Exited None)\<rparr>
           | [] \<Rightarrow>
               (let checker = update_checker C (gw_major_index g)
                      (sc_highest_minor_index (gw_subaddresses g)) (sr_checker sr);
                    sr' = sr\<lparr>sr_checker := checker\<rparr>
                in case scan R S M checker (scan_of g sr') of
                     (Inl Panic, \<sigma>) \<Rightarrow> (after_scan \<sigma> sr' g)\<lparr>gw_handle := Some Panicked\<rparr>
                   | (Inl Blocked, \<sigma>) \<Rightarrow> (after_scan \<sigma> sr' g)\<lparr>gw_handle := Some Stuck\<rparr>
                   | (_, \<sigma>) \<Rightarrow> after_scan \<sigma> sr' g))
      | _ \<Rightarrow> g)"

section \<open>Status and stop\<close>

text \<open>\<open>JoinHandle::join\<close> of a thread that has finished.\<close>

fun joined :: "'e thread \<Rightarrow> 'e accept_xmr_error fault + unit" where
  "joined (Exited None) = Inr ()"
| "joined (Exited (Some e)) = Inl (Raise e)"
| "joined Panicked = Inl (Raise ScanningThreadPanic)"
| "joined _ = Inl Blocked"

text \<open>
  \<open>status\<close>. In the branch of a finished thread the mutex is locked a second time, with the first
  guard alive.
\<close>

definition status :: "('tx, 'k, 's, 'w, 'r, 'e, 'e gateway_status) gw_act" where
  "status =
     bind lock_handle (\<lambda>_.
     bind (gw_get gw_handle) (\<lambda>handle.
     bind (case handle of
             None \<Rightarrow> ret NotRunning
           | Some t \<Rightarrow>
               if is_finished t then
                 bind lock_handle (\<lambda>_.
                 bind take_handle (\<lambda>owned_handle.
                 bind unlock_handle (\<lambda>_.
                   case map_option joined owned_handle of
                     None \<Rightarrow> ret NotRunning
                   | Some (Inr _) \<Rightarrow> ret NotRunning
                   | Some (Inl (Raise e)) \<Rightarrow> ret (HasError e)
                   | Some (Inl f) \<Rightarrow> stop f)))
               else ret IsRunning) (\<lambda>st.
     bind unlock_handle (\<lambda>_. ret st))))"

text \<open>
  \<open>stop\<close>. The guard lives to the end of the \<open>match\<close>. Joining a thread that runs lets it take its
  next step, where the message waits for it.
\<close>

definition join_thread ::
  "('w, 'tx) rpc_ops \<Rightarrow> ('s, 'e) storage_ops \<Rightarrow> ('tx, 'k) monero_ops \<Rightarrow> 'k checker_ops \<Rightarrow>
   'e thread \<Rightarrow> ('tx, 'k, 's, 'w, 'r, 'e, unit) gw_act" where
  "join_thread R S M C t = (\<lambda>g.
     (let g' = thread_step R S M C (g\<lparr>gw_handle := Some t\<rparr>)
      in (case gw_handle g' of Some t' \<Rightarrow> joined t' | None \<Rightarrow> Inl Blocked, g'\<lparr>gw_handle := None\<rparr>)))"

definition join_finished :: "'e thread \<Rightarrow> ('tx, 'k, 's, 'w, 'r, 'e, unit) gw_act" where
  "join_finished t = (\<lambda>g. (joined t, g))"

text \<open>The guard is dropped when the call ends, with whatever result; a call that blocks keeps it.\<close>

definition release_after ::
  "('tx, 'k, 's, 'w, 'r, 'e, 'a) gw_act \<Rightarrow> ('tx, 'k, 's, 'w, 'r, 'e, 'a) gw_act" where
  "release_after m = (\<lambda>g. case m g of
     (r, g') \<Rightarrow> (r, if r = Inl Blocked then g' else g'\<lparr>gw_handle_locked := False\<rparr>))"

definition gateway_stop ::
  "('w, 'tx) rpc_ops \<Rightarrow> ('s, 'e) storage_ops \<Rightarrow> ('tx, 'k) monero_ops \<Rightarrow> 'k checker_ops \<Rightarrow>
   ('tx, 'k, 's, 'w, 'r, 'e, unit) gw_act" where
  "gateway_stop R S M C =
     bind lock_handle (\<lambda>_.
     bind take_handle (\<lambda>handle.
       case handle of
         None \<Rightarrow> unlock_handle
       | Some t \<Rightarrow>
           release_after
             (if is_finished t then join_finished t
              else
                bind (gw_put (\<lambda>g. g\<lparr>gw_commands := gw_commands g @ [Stop]\<rparr>)) (\<lambda>_.
                join_thread R S M C t))))"

section \<open>Tracked invoices and the pool\<close>

text \<open>
  The contract of a store together with a pool. In a \<open>separate\<close> pair every tracked invoice has a
  subaddress of its own, which the pool does not hand out, and shows its address.
\<close>

locale tracked_pool =
  invoice_storage S ok lookup + address_pool draw_address put_back addr pok may
  for S :: "('s, 'e) storage_ops" and ok and lookup
    and draw_address :: "'c \<Rightarrow> ('f + sub_index \<times> string) \<times> 'c"
    and put_back and addr and pok and may
begin

definition separate :: "'s \<Rightarrow> 'c \<Rightarrow> bool" where
  "separate s c \<longleftrightarrow> ok s \<and> pok c \<and>
     (\<forall>k i. lookup s k = Some i \<longrightarrow> index i \<notin> may c \<and> address i = addr (index i) \<and> totals_ok i) \<and>
     (\<forall>k i k' i'. lookup s k = Some i \<longrightarrow> lookup s k' = Some i' \<longrightarrow> index i = index i' \<longrightarrow> k = k')"

lemma separate_Inl:
  assumes "separate s c" and "draw_address c = (Inl f, c')"
  shows "separate s c'"
  using assms draw_Inl [OF _ assms(2)] by (simp add: separate_def)

lemma separate_issue:
  assumes sep: "separate s c" and draw: "draw_address c = (Inr (x, a), c')"
    and i: "index i = x" "address i = a" "totals_ok i" and ins: "st_insert S i s = (r, s')"
  shows "separate s' c'"
proof -
  have s: "ok s" and c: "pok c" using sep by (simp_all add: separate_def)
  from draw_Inr [OF c draw] have c': "pok c'" "a = addr x" "x \<in> may c" "may c' = may c - {x}" by auto
  have free: "index j \<noteq> x" if "lookup s k = Some j" for k j
    using sep c'(3) that by (auto simp: separate_def)
  have "lookup s (invoice_id i) = None"
  proof (rule ccontr)
    assume "lookup s (invoice_id i) \<noteq> None"
    then obtain j where j: "lookup s (invoice_id i) = Some j" by blast
    from keyed [OF s j] have "index j = x" using i(1) by (simp add: invoice_id_def)
    with free [OF j] show False by simp
  qed
  from insert_new [OF s this] ins have "ok s'" "lookup s' = (lookup s)(invoice_id i \<mapsto> i)" by auto
  then show ?thesis
    using sep c' i free by (fastforce simp: separate_def split: if_splits)
qed

lemma separate_release:
  assumes sep: "separate s c" and rm: "st_remove S k s = (Inr (Some old), s')"
  shows "separate s' (put_back (sub_index k) (address old) c)"
proof -
  have s: "ok s" and c: "pok c" using sep by (simp_all add: separate_def)
  from remove [OF s, of k] rm have old: "lookup s k = Some old" and s': "ok s'"
    "lookup s' = (lookup s)(k := None)" by auto
  have k: "sub_index k = index old" using keyed [OF s old] by (auto simp: invoice_id_def)
  have "index old \<notin> may c" "address old = addr (index old)"
    using sep old by (auto simp: separate_def)
  from put_back [OF c this]
  have c': "pok (put_back (sub_index k) (address old) c)"
    "may (put_back (sub_index k) (address old) c) = insert (index old) (may c)"
    by (simp_all add: k)
  have "index i \<noteq> index old" if "lookup s k' = Some i" "k' \<noteq> k" for k' i
    using sep that old unfolding separate_def by blast
  then show ?thesis
    using sep s' c' by (auto simp: separate_def split: if_splits)
qed

lemma separate_remove_None:
  assumes "separate s c" and "st_remove S k s = (Inr None, s')"
  shows "separate s' c"
proof -
  have "ok s'" "lookup s' = lookup s"
    using assms remove [of s k] by (auto simp: separate_def fun_upd_idem)
  with assms(1) show ?thesis by (simp add: separate_def)
qed

lemma remove_never_fails: "separate s c \<Longrightarrow> st_remove S k s \<noteq> (Inl e, s')"
  using remove [of s k] by (auto simp: separate_def)

lemma separate_amends:
  assumes "separate s c" and "ok s'" and "amends (lookup s) (lookup s')"
  shows "separate s' c"
proof -
  have same: "\<exists>i. lookup s k = Some i \<and> rescanned i j" if "lookup s' k = Some j" for k j
    using amends_Some [OF assms(3) that] .
  show ?thesis
    unfolding separate_def
  proof (intro conjI allI impI)
    fix k i assume "lookup s' k = Some i"
    from same [OF this] show "index i \<notin> may c" and "address i = addr (index i)" and "totals_ok i"
      using assms(1) by (auto simp: separate_def rescanned_def same_request_def)
  next
    fix k i k' i' assume "lookup s' k = Some i" "lookup s' k' = Some i'" and eq: "index i = index i'"
    from same [OF this(1)] same [OF this(2)] obtain j j' where
      "lookup s k = Some j" "lookup s k' = Some j'" "index j = index j'"
      using eq by (auto simp: rescanned_def same_request_def)
    then show "k = k'" using assms(1) unfolding separate_def by blast
  qed (use assms in \<open>auto simp: separate_def\<close>)
qed

end

interpretation gw: tracked_pool in_memory in_memory_ok map_of "draw gen_range addr"
    subaddress_cache_insert addr "pool_ok addr" may_draw
  for gen_range :: "nat \<Rightarrow> 'r \<Rightarrow> nat \<times> 'r" and addr
  by unfold_locales

section \<open>Histories of a gateway\<close>

text \<open>
  What may happen to a gateway: the calls of its users, whether they succeed or fail, the rounds
  of the scanning thread, and what subscribers do with their channels. The daemon and the
  network may do anything between two steps.
\<close>

inductive gw_step ::
  "('w, 'tx) rpc_ops \<Rightarrow> ('s, 'e) storage_ops \<Rightarrow> ('tx, 'k) monero_ops \<Rightarrow> 'k checker_ops \<Rightarrow>
   (nat \<Rightarrow> 'r \<Rightarrow> nat \<times> 'r) \<Rightarrow> (sub_index \<Rightarrow> string) \<Rightarrow>
   ('tx, 'k, 's, 'w, 'r, 'e) gateway \<Rightarrow> ('tx, 'k, 's, 'w, 'r, 'e) gateway \<Rightarrow> bool"
  for R S M C gen_range addr where
  new: "new_invoice S gen_range addr piconeros confs expiration desc g = (r, g') \<Longrightarrow>
    gw_step R S M C gen_range addr g g'"
| remove: "remove_invoice S k g = (r, g') \<Longrightarrow> gw_step R S M C gen_range addr g g'"
| subscribe: "gateway_subscribe sid k g = (r, g') \<Longrightarrow> gw_step R S M C gen_range addr g g'"
| subscribe_all: "gateway_subscribe_all sid g = (r, g') \<Longrightarrow> gw_step R S M C gen_range addr g g'"
| run: "run R S M C spawn_error runtime_error g = (r, g') \<Longrightarrow> gw_step R S M C gen_range addr g g'"
| status: "status g = (r, g') \<Longrightarrow> gw_step R S M C gen_range addr g g'"
| stop: "gateway_stop R S M C g = (r, g') \<Longrightarrow> gw_step R S M C gen_range addr g g'"
| thread: "gw_step R S M C gen_range addr g (thread_step R S M C g)"
| receive: "try_recv a (gw_publisher g) = (r, p) \<Longrightarrow>
    gw_step R S M C gen_range addr g (g\<lparr>gw_publisher := p\<rparr>)"
| unsubscribe: "gw_step R S M C gen_range addr g (g\<lparr>gw_publisher := drop_subscriber a (gw_publisher g)\<rparr>)"
| world: "gw_step R S M C gen_range addr g (g\<lparr>gw_world := w\<rparr>)"

inductive gw_reaches ::
  "('w, 'tx) rpc_ops \<Rightarrow> ('s, 'e) storage_ops \<Rightarrow> ('tx, 'k) monero_ops \<Rightarrow> 'k checker_ops \<Rightarrow>
   (nat \<Rightarrow> 'r \<Rightarrow> nat \<times> 'r) \<Rightarrow> (sub_index \<Rightarrow> string) \<Rightarrow>
   ('tx, 'k, 's, 'w, 'r, 'e) gateway \<Rightarrow> ('tx, 'k, 's, 'w, 'r, 'e) gateway \<Rightarrow> bool"
  for R S M C gen_range addr where
  start: "gw_reaches R S M C gen_range addr g g"
| step: "gw_reaches R S M C gen_range addr g g' \<Longrightarrow> gw_step R S M C gen_range addr g' g'' \<Longrightarrow>
    gw_reaches R S M C gen_range addr g g''"

inductive_cases gw_reachesE: "gw_reaches R S M C gen_range addr g g'"

section \<open>The invariant of a gateway on the in-memory store\<close>

lemma wp_gw_get [wp_simps]: "wp (gw_get f) Q E = (\<lambda>g. Q (f g) g)"
  by (simp add: wp_def gw_get_def fun_eq_iff)

lemma wp_gw_put [wp_simps]: "wp (gw_put f) Q E = (\<lambda>g. Q () (f g))"
  by (simp add: wp_def gw_put_def fun_eq_iff)

lemma wp_gw_on_publisher [wp_simps]:
  "wp (gw_on_publisher f) Q E = (\<lambda>g. case f (gw_publisher g) of (x, p) \<Rightarrow> Q x (g\<lparr>gw_publisher := p\<rparr>))"
  by (simp add: wp_def gw_on_publisher_def fun_eq_iff split: prod.splits)

lemma wp_lock_handle [wp_simps]:
  "wp lock_handle Q E = (\<lambda>g. if gw_handle_locked g then E Blocked g else Q () (g\<lparr>gw_handle_locked := True\<rparr>))"
  by (simp add: wp_def lock_handle_def fun_eq_iff)

lemma wp_unlock_handle [wp_simps]:
  "wp unlock_handle Q E = (\<lambda>g. Q () (g\<lparr>gw_handle_locked := False\<rparr>))"
  by (simp add: unlock_handle_def wp_simps)

lemma wp_take_handle [wp_simps]:
  "wp take_handle Q E = (\<lambda>g. Q (gw_handle g) (g\<lparr>gw_handle := None\<rparr>))"
  by (simp add: wp_def take_handle_def fun_eq_iff)

definition gw_inv ::
  "(sub_index \<Rightarrow> string) \<Rightarrow> ('tx, 'k, in_memory, 'w, 'r, 'e) gateway \<Rightarrow> bool" where
  "gw_inv addr g \<longleftrightarrow>
     tracked_pool.separate in_memory_ok map_of addr (pool_ok addr) may_draw
       (gw_store g) (gw_subaddresses g) \<and>
     pub_wf (gw_publisher g)"

text \<open>The fields the invariant does not read.\<close>

lemma gw_inv_other [simp]:
  "gw_inv addr (g\<lparr>gw_world := w\<rparr>) = gw_inv addr g"
  "gw_inv addr (g\<lparr>gw_handle := h\<rparr>) = gw_inv addr g"
  "gw_inv addr (g\<lparr>gw_handle_locked := l\<rparr>) = gw_inv addr g"
  "gw_inv addr (g\<lparr>gw_commands := cs\<rparr>) = gw_inv addr g"
  "gw_inv addr (g\<lparr>gw_scanner := sr\<rparr>) = gw_inv addr g"
  "gw_inv addr (g\<lparr>gw_block_cache_height := h1\<rparr>) = gw_inv addr g"
  "gw_inv addr (g\<lparr>gw_cached_daemon_height := h2\<rparr>) = gw_inv addr g"
  by (simp_all add: gw_inv_def)

lemma gw_inv_publisher: "gw_inv addr g \<Longrightarrow> pub_wf p \<Longrightarrow> gw_inv addr (g\<lparr>gw_publisher := p\<rparr>)"
  by (simp add: gw_inv_def)

lemma gw_inv_new_invoice:
  fixes g :: "('tx, 'k, in_memory, 'w, 'r, in_memory_error) gateway"
  assumes inv: "gw_inv addr g"
    and new: "new_invoice in_memory gen_range addr piconeros confs expiration desc g = (r, g')"
  shows "gw_inv addr g'"
proof -
  have sep: "tracked_pool.separate in_memory_ok map_of addr (pool_ok addr) may_draw
      (gw_store g) (gw_subaddresses g)" and wf: "pub_wf (gw_publisher g)"
    using inv by (simp_all add: gw_inv_def)
  obtain d c where d: "draw gen_range addr (gw_subaddresses g) =
      (d :: in_memory_error accept_xmr_error fault + _, c)" by fastforce
  show ?thesis
  proof (cases d)
    case (Inl f)
    then have "g' = g\<lparr>gw_subaddresses := c\<rparr>"
      using new d by (simp add: new_invoice_def gw_on_pool_def bind_apply)
    then show ?thesis
      using gw.separate_Inl [OF sep d [unfolded Inl]] wf by (simp add: gw_inv_def)
  next
    case (Inr xa)
    obtain x a where xa: "xa = (x, a)" by (cases xa)
    let ?i = "invoice_new a x (gw_cached_daemon_height g) piconeros confs expiration desc"
    obtain t s where t: "st_insert in_memory ?i (gw_store g) = (t, s)" by fastforce
    have "tracked_pool.separate in_memory_ok map_of addr (pool_ok addr) may_draw s c"
      by (rule gw.separate_issue [OF sep d [unfolded Inr xa] _ _ totals_ok_new t])
        (simp_all add: invoice_new_def)
    then show ?thesis
      using new d t wf
      by (auto simp: new_invoice_def gw_on_pool_def gw_get_def gw_on_store_def gw_on_publisher_def
          bind_apply Inr xa Let_def gw_inv_def pub_wf_insert_invoice split: sum.splits)
  qed
qed

lemma gw_inv_remove_invoice:
  assumes inv: "gw_inv addr g" and rm: "remove_invoice in_memory k g = (r, g')"
  shows "gw_inv addr g'"
proof -
  have sep: "tracked_pool.separate in_memory_ok map_of addr (pool_ok addr) may_draw
      (gw_store g) (gw_subaddresses g)" and wf: "pub_wf (gw_publisher g)"
    using inv by (simp_all add: gw_inv_def)
  obtain t s where t: "st_remove in_memory k (gw_store g) = (t, s)" by fastforce
  from gw.remove_never_fails [OF sep] t obtain old where old: "t = Inr old" by (cases t) auto
  show ?thesis
  proof (cases old)
    case None
    then show ?thesis
      using rm t old wf gw.separate_remove_None [OF sep, of k s]
      by (auto simp: remove_invoice_def gw_on_store_def bind_apply gw_inv_def)
  next
    case (Some i)
    then show ?thesis
      using rm t old wf gw.separate_release [OF sep, of k i s]
      by (auto simp: remove_invoice_def gw_on_store_def gw_put_def gw_on_publisher_def bind_apply
          gw_inv_def pub_wf_remove_invoice)
  qed
qed

lemma gw_inv_after_scan:
  fixes g :: "('tx, 'k, in_memory, 'w, 'r, in_memory_error) gateway"
  assumes inv: "gw_inv addr g" and run: "scan R in_memory M checker (scan_of g sr) = (r, \<sigma>)"
  shows "gw_inv addr (after_scan \<sigma> sr g)"
proof -
  have sep: "tracked_pool.separate in_memory_ok map_of addr (pool_ok addr) may_draw
      (gw_store g) (gw_subaddresses g)" and wf: "pub_wf (gw_publisher g)"
    using inv by (simp_all add: gw_inv_def)
  have "in_memory_ok (sn_store (scan_of g sr))"
    using sep by (simp add: scan_of_def gw.separate_def)
  from mem.wp_scan_amends [OF this, of R M checker] run
  have "in_memory_ok (sn_store \<sigma>)" "amends (map_of (gw_store g)) (map_of (sn_store \<sigma>))"
    by (auto simp: wp_def scan_of_def split: sum.splits)
  from gw.separate_amends [OF sep this]
  have "tracked_pool.separate in_memory_ok map_of addr (pool_ok addr) may_draw
      (sn_store \<sigma>) (gw_subaddresses g)" .
  moreover have "pub_wf (sn_publisher (scan_of g sr))" using wf by (simp add: scan_of_def)
  from pub_wf_scan [OF this, of R in_memory M checker] run have "pub_wf (sn_publisher \<sigma>)"
    by (auto simp: wp_def split: sum.splits)
  ultimately show ?thesis by (simp add: after_scan_def gw_inv_def)
qed

lemma gw_inv_thread_step:
  assumes "gw_inv addr g"
  shows "gw_inv addr (thread_step R in_memory M C g)"
  using assms
  by (auto simp: thread_step_def Let_def gw_inv_after_scan
      split: option.splits thread.splits list.splits message_to_scanner.splits prod.splits
        sum.splits fault.splits)

lemma wp_gw_scanner_new:
  assumes "\<And>x h1 h2 w. Q x (g\<lparr>gw_block_cache_height := h1, gw_cached_daemon_height := h2, gw_world := w\<rparr>)"
    and "\<And>e h1 h2 w. E e (g\<lparr>gw_block_cache_height := h1, gw_cached_daemon_height := h2, gw_world := w\<rparr>)"
  shows "wp (gw_scanner_new R S M) Q E g"
  using assms by (auto simp: wp_def gw_scanner_new_def split: prod.splits sum.splits)

lemma gw_inv_run:
  fixes g :: "('tx, 'k, in_memory, 'w, 'r, in_memory_error) gateway"
  assumes "gw_inv addr g" and "run R in_memory M C spawn_error runtime_error g = (r, g')"
  shows "gw_inv addr g'"
proof -
  let ?I = "\<lambda>g :: ('tx, 'k, in_memory, 'w, 'r, in_memory_error) gateway. gw_inv addr g"
  have "wp (run R in_memory M C spawn_error runtime_error) (\<lambda>_. ?I) (\<lambda>_. ?I) g"
    using assms(1)
    by (auto simp: run_def wp_simps split: option.splits prod.splits intro!: wp_gw_scanner_new)
  with assms(2) show ?thesis by (auto simp: wp_def split: sum.splits)
qed

lemma gw_inv_status:
  fixes g :: "('tx, 'k, in_memory, 'w, 'r, in_memory_error) gateway"
  assumes "gw_inv addr g" and "status g = (r, g')"
  shows "gw_inv addr g'"
proof -
  let ?I = "\<lambda>g :: ('tx, 'k, in_memory, 'w, 'r, in_memory_error) gateway. gw_inv addr g"
  have "wp status (\<lambda>_. ?I) (\<lambda>_. ?I) g"
    using assms(1) by (auto simp: status_def wp_simps split: option.splits)
  with assms(2) show ?thesis by (auto simp: wp_def split: sum.splits)
qed

lemma wp_release_after [wp_simps]:
  "wp (release_after m) Q E g = wp m (\<lambda>x g'. Q x (g'\<lparr>gw_handle_locked := False\<rparr>))
     (\<lambda>e g'. E e (if e = Blocked then g' else g'\<lparr>gw_handle_locked := False\<rparr>)) g"
  by (auto simp: wp_def release_after_def split: prod.splits sum.splits)

lemma wp_join_finished:
  "(\<And>e. E e g) \<Longrightarrow> Q () g \<Longrightarrow> wp (join_finished t) Q E g"
  by (simp add: wp_def join_finished_def split: sum.splits)

lemma wp_join_thread:
  assumes "\<And>g'. g' = (thread_step R S M C (g\<lparr>gw_handle := Some t\<rparr>))\<lparr>gw_handle := None\<rparr> \<Longrightarrow> Q () g'"
    and "\<And>e g'. g' = (thread_step R S M C (g\<lparr>gw_handle := Some t\<rparr>))\<lparr>gw_handle := None\<rparr> \<Longrightarrow> E e g'"
  shows "wp (join_thread R S M C t) Q E g"
  using assms by (simp add: join_thread_def wp_def Let_def split: sum.splits)

lemma gw_inv_stop:
  fixes g :: "('tx, 'k, in_memory, 'w, 'r, in_memory_error) gateway"
  assumes inv: "gw_inv addr g" and "gateway_stop R in_memory M C g = (r, g')"
  shows "gw_inv addr g'"
proof -
  let ?I = "\<lambda>g :: ('tx, 'k, in_memory, 'w, 'r, in_memory_error) gateway. gw_inv addr g"
  have locked: "gw_inv addr g \<Longrightarrow> wp (join_thread R in_memory M C t)
      (\<lambda>_. gw_inv addr) (\<lambda>_. gw_inv addr) g" for g t
    by (rule wp_join_thread) (simp_all add: gw_inv_thread_step)
  have "wp (gateway_stop R in_memory M C) (\<lambda>_. ?I) (\<lambda>_. ?I) g"
    using inv
    by (simp add: gateway_stop_def wp_simps locked wp_join_finished split: option.splits)
  with assms(2) show ?thesis by (auto simp: wp_def split: sum.splits)
qed

lemma gw_inv_subscribe:
  assumes "gw_inv addr g" and "gateway_subscribe sid k g = (r, g')"
  shows "gw_inv addr g'"
proof -
  obtain x p where p: "subscribe sid k (gw_publisher g) = (x, p)" by fastforce
  with assms(1) have "pub_wf p" by (auto simp: gw_inv_def intro: pub_wf_subscribe)
  moreover have "g' = g\<lparr>gw_publisher := p\<rparr>"
    using assms(2) p by (simp add: gateway_subscribe_def gw_on_publisher_def)
  ultimately show ?thesis using assms(1) gw_inv_publisher by blast
qed

lemma gw_inv_subscribe_all:
  "gw_inv addr g \<Longrightarrow> gateway_subscribe_all sid g = (r, g') \<Longrightarrow> gw_inv addr g'"
  using pub_wf_subscribe_all [of "gw_publisher g" sid]
  by (auto simp: gateway_subscribe_all_def gw_on_publisher_def gw_inv_def split: prod.splits)

lemma pub_wf_try_recv: "pub_wf p \<Longrightarrow> try_recv a p = (r, p') \<Longrightarrow> pub_wf p'"
  by (auto simp: try_recv_def split: list.splits intro: pub_wf_channels)

lemma pub_wf_drop_subscriber: "pub_wf p \<Longrightarrow> pub_wf (drop_subscriber a p)"
  by (simp add: drop_subscriber_def pub_wf_channels)

lemma gw_inv_step:
  fixes g g' :: "('tx, 'k, in_memory, 'w, 'r, in_memory_error) gateway"
  assumes "gw_step R in_memory M C gen_range addr g g'" and inv: "gw_inv addr g"
  shows "gw_inv addr g'"
  using assms(1)
proof cases
  case new
  then show ?thesis by (rule gw_inv_new_invoice [OF inv])
next
  case remove
  then show ?thesis by (rule gw_inv_remove_invoice [OF inv])
next
  case subscribe
  then show ?thesis by (rule gw_inv_subscribe [OF inv])
next
  case subscribe_all
  then show ?thesis by (rule gw_inv_subscribe_all [OF inv])
next
  case run
  then show ?thesis by (rule gw_inv_run [OF inv])
next
  case status
  then show ?thesis by (rule gw_inv_status [OF inv])
next
  case stop
  then show ?thesis by (rule gw_inv_stop [OF inv])
next
  case thread
  then show ?thesis using gw_inv_thread_step [OF inv] by simp
next
  case receive
  then show ?thesis using inv pub_wf_try_recv by (auto simp: gw_inv_def)
next
  case unsubscribe
  then show ?thesis using inv pub_wf_drop_subscriber by (auto simp: gw_inv_def)
next
  case world
  then show ?thesis using inv by simp
qed

lemma gw_inv_reaches:
  fixes g g' :: "('tx, 'k, in_memory, 'w, 'r, in_memory_error) gateway"
  assumes "gw_reaches R in_memory M C gen_range addr g g'" and "gw_inv addr g"
  shows "gw_inv addr g'"
  using assms by (induction rule: gw_reaches.induct) (auto intro: gw_inv_step)

section \<open>The gateway at its start\<close>

text \<open>
  A store the gateway may start from: its invoices are of the gateway's account, have
  subaddresses of their own, show their address, and have the totals of their transfers.
\<close>

definition good_store :: "(sub_index \<Rightarrow> string) \<Rightarrow> u32 \<Rightarrow> in_memory \<Rightarrow> bool" where
  "good_store addr M s \<longleftrightarrow> in_memory_ok s \<and> distinct (map (index \<circ> snd) s) \<and>
     list_all (\<lambda>(_, i). major (index i) = M \<and> address i = addr (index i) \<and> totals_ok i) s"

lemma minor_le_Max:
  assumes "finite A" and "x \<in> A" and "\<And>y. y \<in> A \<Longrightarrow> major y = M"
  shows "minor x \<le> minor (Max A)"
proof -
  have "x \<le> Max A" and "Max A \<in> A" using assms(1,2) by (auto intro: Max_in)
  then have "major x = major (Max A)" using assms(2,3) by simp
  with \<open>x \<le> Max A\<close> show ?thesis by (auto simp: sub_index_le_iff)
qed

lemma gateway_build_inv:
  assumes good: "good_store addr M s"
    and build: "gateway_build in_memory addr M rng w s =
      (Inr g :: _ + ('tx, 'k, in_memory, 'w, 'r, in_memory_error) gateway)"
  shows "gw_inv addr g"
proof -
  have ok: "in_memory_ok s" using good by (simp add: good_store_def)
  have iter: "st_try_iter in_memory s = Inr (map Inr (map snd s))"
    by (simp add: in_memory_def in_memory_defs o_def case_prod_beta)
  from subaddress_cache_init_eq [OF iter, of addr M rng] obtain c where
    c: "subaddress_cache_init in_memory addr M rng s = Inr c" "sc_major_index c = M" "pool_ok addr c"
      "sc_highest_minor_index c =
        max 99 (if map snd s = [] then 0 else minor (Max (index ` set (map snd s))))"
      "available c = {SubIndex M m | m. m \<le> sc_highest_minor_index c} - index ` set (map snd s)"
    by blast
  have g: "gw_store g = s" "gw_subaddresses g = c" "gw_publisher g = publisher_new"
    using build c(1) by (auto simp: gateway_build_def)
  have inv: "(k, i) \<in> set s" if "map_of s k = Some i" for k i
    using that by (rule map_of_SomeD)
  have all: "major (index i) = M \<and> address i = addr (index i) \<and> totals_ok i" if "(k, i) \<in> set s" for k i
    using good that by (auto simp: good_store_def list_all_iff)
  have "index i \<notin> may_draw c" if "(k, i) \<in> set s" for k i
  proof -
    have m: "major (index i) = M" using all that by blast
    have "minor (index i) \<le> minor (Max (index ` set (map snd s)))"
      by (rule minor_le_Max [where M = M]) (use that all in \<open>auto simp: image_iff Bex_def\<close>)
    moreover have "map snd s \<noteq> []" using that by auto
    ultimately have "minor (index i) \<le> sc_highest_minor_index c" unfolding c(4) by (simp add: le_max_iff_disj)
    moreover have "index i \<in> index ` set (map snd s)" using that by force
    ultimately show ?thesis
      using m c(2) unfolding may_draw_def beyond_def c(5) by (cases "index i") auto
  qed
  moreover have "k = k'" if "(k, i) \<in> set s" "(k', i') \<in> set s" "index i = index i'" for k i k' i'
  proof -
    have "inj_on (index \<circ> snd) (set s)" using good by (simp add: good_store_def distinct_map)
    from inj_onD [OF this _ that(1,2)] that(3) show ?thesis by simp
  qed
  ultimately show ?thesis
    using ok c(3) all inv unfolding gw_inv_def g gw.separate_def
    by (simp add: pub_wf_new) blast
qed

end
