(* ===== verification/Gateway_Calls.thy ===== *)
theory Gateway_Calls
  imports Gateway
begin

text \<open>
  What the calls of \<open>src/src/payment_gateway.rs\<close> do on a gateway that keeps its invariant: the
  invoices they track and release, and the life of the scanning thread.
\<close>

section \<open>Creating and removing invoices\<close>

definition separated :: "(sub_index \<Rightarrow> string) \<Rightarrow> ('tx, 'k, in_memory, 'w, 'r, 'e) gateway \<Rightarrow> bool" where
  "separated addr g = tracked_pool.separate in_memory_ok map_of addr (pool_ok addr) may_draw
     (gw_store g) (gw_subaddresses g)"

lemma gw_inv_separated: "gw_inv addr g \<longleftrightarrow> separated addr g \<and> pub_wf (gw_publisher g)"
  by (simp add: gw_inv_def separated_def)

lemma separated_store: "separated addr g \<Longrightarrow> in_memory_ok (gw_store g)"
  by (simp add: separated_def gw.separate_def)

lemma separated_fresh:
  assumes "separated addr g" and "x \<in> may_draw (gw_subaddresses g)"
  shows "map_of (gw_store g) (InvoiceId x h) = None"
proof (rule ccontr)
  assume "map_of (gw_store g) (InvoiceId x h) \<noteq> None"
  then obtain i where i: "map_of (gw_store g) (InvoiceId x h) = Some i" by blast
  from in_memory_keyed [OF separated_store [OF assms(1)] i] have "index i = x"
    by (simp add: invoice_id_def)
  with assms i show False by (auto simp: separated_def gw.separate_def)
qed

lemma new_invoice_result:
  fixes g :: "('tx, 'k, in_memory, 'w, 'r, in_memory_error) gateway"
  assumes inv: "gw_inv addr g"
    and draw: "draw gen_range addr (gw_subaddresses g) =
      (Inr (x, a) :: in_memory_error accept_xmr_error fault + _, c)"
  shows "\<exists>g'. new_invoice in_memory gen_range addr piconeros confs expiration desc g =
      (Inr (InvoiceId x (gw_cached_daemon_height g)), g') \<and>
    map_of (gw_store g) (InvoiceId x (gw_cached_daemon_height g)) = None \<and>
    map_of (gw_store g') = (map_of (gw_store g))(InvoiceId x (gw_cached_daemon_height g) \<mapsto>
      invoice_new (addr x) x (gw_cached_daemon_height g) piconeros confs expiration desc) \<and>
    gw_subaddresses g' = c \<and>
    map_of (pb_invoice_subs (gw_publisher g')) (InvoiceId x (gw_cached_daemon_height g)) = Some []"
proof -
  let ?h = "gw_cached_daemon_height g"
  let ?i = "invoice_new a x ?h piconeros confs expiration desc"
  have sep: "separated addr g" using inv by (simp add: gw_inv_separated)
  then have pool: "pool_ok addr (gw_subaddresses g)" by (simp add: separated_def gw.separate_def)
  from pool.draw_Inr [OF pool draw] have c: "a = addr x" "x \<in> may_draw (gw_subaddresses g)" by auto
  have fresh: "map_of (gw_store g) (InvoiceId x ?h) = None" by (rule separated_fresh [OF sep c(2)])
  from mem.insert_new [OF separated_store [OF sep], of ?i] fresh obtain s where
    "st_insert in_memory ?i (gw_store g) = (Inr (), s)"
    "map_of s = (map_of (gw_store g))(InvoiceId x ?h \<mapsto> ?i)" by auto
  then show ?thesis
    using draw fresh c(1)
    by (auto simp: new_invoice_def gw_on_pool_def gw_get_def gw_on_store_def gw_on_publisher_def
        bind_apply Let_def publisher_insert_invoice_def update_conv')
qed

lemma remove_invoice_result:
  fixes g :: "('tx, 'k, in_memory, 'w, 'r, in_memory_error) gateway"
  assumes inv: "gw_inv addr g"
  shows "\<exists>g'. remove_invoice in_memory k g = (Inr (map_of (gw_store g) k), g') \<and>
    map_of (gw_store g') = (map_of (gw_store g))(k := None) \<and>
    may_draw (gw_subaddresses g') = may_draw (gw_subaddresses g) \<union>
      (case map_of (gw_store g) k of None \<Rightarrow> {} | Some i \<Rightarrow> {index i}) \<and>
    (map_of (gw_store g) k \<noteq> None \<longrightarrow> map_of (pb_invoice_subs (gw_publisher g')) k = None)"
proof -
  have sep: "separated addr g" using inv by (simp add: gw_inv_separated)
  then have pool: "pool_ok addr (gw_subaddresses g)" by (simp add: separated_def gw.separate_def)
  note s = separated_store [OF sep]
  from mem.remove [OF s, of k] obtain s' where s': "st_remove in_memory k (gw_store g) =
      (Inr (map_of (gw_store g) k), s')" "map_of s' = (map_of (gw_store g))(k := None)" by blast
  show ?thesis
  proof (cases "map_of (gw_store g) k")
    case None
    then show ?thesis
      using s' by (auto simp: remove_invoice_def gw_on_store_def bind_apply)
  next
    case (Some i)
    have k: "sub_index k = index i" using in_memory_keyed [OF s Some] by (auto simp: invoice_id_def)
    have "index i \<notin> may_draw (gw_subaddresses g)" "address i = addr (index i)"
      using sep Some by (auto simp: separated_def gw.separate_def)
    from pool_ok_insert(2) [OF pool this]
    have "may_draw (subaddress_cache_insert (index i) (address i) (gw_subaddresses g)) =
      insert (index i) (may_draw (gw_subaddresses g))" .
    then show ?thesis
      using s' Some
      by (auto simp: remove_invoice_def gw_on_store_def gw_put_def gw_on_publisher_def bind_apply k
          publisher_remove_invoice_def delete_conv')
  qed
qed

section \<open>The scanning thread\<close>

lemma run_already_running:
  assumes "gw_handle g = Some t" and "\<not> is_finished t" and "\<not> gw_handle_locked g"
  shows "run R S M C spawn_error runtime_error g = (Inl (Raise AlreadyRunning), g)"
  using assms by (simp add: run_def bind_apply lock_handle_def unlock_handle_def gw_get_def gw_put_def)

lemma status_not_running:
  "gw_handle g = None \<Longrightarrow> \<not> gw_handle_locked g \<Longrightarrow> status g = (Inr NotRunning, g)"
  by (simp add: status_def bind_apply lock_handle_def unlock_handle_def gw_get_def gw_put_def)

text \<open>With the mutex held for ever, no call that needs it returns.\<close>

lemma locked_blocks:
  assumes "gw_handle_locked g"
  shows "status g = (Inl Blocked, g)" and "gateway_stop R S M C g = (Inl Blocked, g)"
    and "run R S M C spawn_error runtime_error g = (Inl Blocked, g)"
  using assms by (simp_all add: status_def gateway_stop_def run_def bind_apply lock_handle_def)

section \<open>A gateway that has just been built\<close>

lemma gateway_build_eq:
  assumes "st_try_iter S s = Inr (map Inr is)"
  shows "\<exists>g :: ('tx, 'k, 's, 'w, 'r, 'e) gateway. gateway_build S addr M rng w s = Inr g \<and> gw_store g = s \<and> gw_world g = w \<and>
    gw_cached_daemon_height g = 0 \<and> pool_ok addr (gw_subaddresses g) \<and>
    sc_major_index (gw_subaddresses g) = M \<and>
    sc_highest_minor_index (gw_subaddresses g) =
      max 99 (if is = [] then 0 else minor (Max (index ` set is))) \<and>
    available (gw_subaddresses g) =
      {SubIndex M m | m. m \<le> sc_highest_minor_index (gw_subaddresses g)} - index ` set is"
  using subaddress_cache_init_eq [OF assms, of addr M rng] by (auto simp: gateway_build_def)

text \<open>Its pool can be empty, and then the first invoice ends in a panic.\<close>

lemma new_invoice_empty_pool:
  fixes S :: "('s, 'e) storage_ops"
  assumes "sc_available (gw_subaddresses g) = []"
  shows "new_invoice S gen_range addr piconeros confs expiration desc g = (Inl Panic, g)"
proof -
  have "draw gen_range addr (gw_subaddresses g) = (Inl Panic :: 'e accept_xmr_error fault + _, gw_subaddresses g)"
    using assms by (simp add: draw_def remove_random.simps)
  then show ?thesis by (simp add: new_invoice_def gw_on_pool_def bind_apply)
qed

end
