(* ===== verification/Interleaving.thy ===== *)
theory Interleaving
  imports Gateway_Calls
begin

text \<open>
  Calls in the middle of a scan. A round of the thread in \<open>src/src/payment_gateway.rs\<close> is broken up
  where \<open>src/src/scanner.rs\<close> lets go of the store: the search, the reading of the stored invoices (under
  one read lock), the saving of each updated invoice (each under a write lock) and the flush. Between
  these steps users may call the gateway, so an invoice that is saved may have been removed or its
  subaddress may have been issued again.
\<close>

section \<open>A round of the thread in steps\<close>

text \<open>What the thread holds between two steps of a round.\<close>

datatype phase =
    Idle
  | Found nat "(sub_index \<times> transfer) list"
  | Saving "invoice list"

type_synonym ('tx, 'k, 's, 'w, 'r, 'e) config = "('tx, 'k, 's, 'w, 'r, 'e) gateway \<times> phase"

fun settle :: "'e fault \<Rightarrow> ('tx, 'k, 's, 'w, 'r, 'd) gateway \<Rightarrow> ('tx, 'k, 's, 'w, 'r, 'd) gateway" where
  "settle Panic g = g\<lparr>gw_handle := Some Panicked\<rparr>"
| "settle Blocked g = g\<lparr>gw_handle := Some Stuck\<rparr>"
| "settle (Raise e) g = g"

definition scan_part ::
  "('tx, 's, 'w, 'e, 'a) scan_act \<Rightarrow> ('a \<Rightarrow> phase) \<Rightarrow> ('tx, 'k) scanner \<Rightarrow>
   ('tx, 'k, 's, 'w, 'r, 'e) gateway \<Rightarrow> ('tx, 'k, 's, 'w, 'r, 'e) config" where
  "scan_part m next_phase sr g =
     (case m (scan_of g sr) of
        (Inl f, \<sigma>) \<Rightarrow> (settle f (after_scan \<sigma> sr g), Idle)
      | (Inr x, \<sigma>) \<Rightarrow> (after_scan \<sigma> sr g, next_phase x))"

fun phase_act ::
  "('s, 'e) storage_ops \<Rightarrow> phase \<Rightarrow> ('tx, 's, 'w, 'e, phase) scan_act" where
  "phase_act S Idle = ret Idle"
| "phase_act S (Found n found) = bind (scan_prepare S n found) (\<lambda>is. ret (Saving is))"
| "phase_act S (Saving []) = bind (on_store (query (st_flush S))) (\<lambda>_. ret Idle)"
| "phase_act S (Saving (i # is)) = bind (save_invoice S i ()) (\<lambda>_. ret (Saving is))"

definition phase_step ::
  "('w, 'tx) rpc_ops \<Rightarrow> ('s, 'e) storage_ops \<Rightarrow> ('tx, 'k) monero_ops \<Rightarrow> 'k checker_ops \<Rightarrow>
   ('tx, 'k, 's, 'w, 'r, 'e) config \<Rightarrow> ('tx, 'k, 's, 'w, 'r, 'e) config" where
  "phase_step R S M C = (\<lambda>(g, ph).
     case (gw_handle g, gw_scanner g) of
       (Some Running, Some sr) \<Rightarrow>
         (if ph = Idle then
            (case gw_commands g of
               Stop # rest \<Rightarrow> (g\<lparr>gw_commands := rest, gw_handle := Some (Exited None)\<rparr>, Idle)
             | [] \<Rightarrow>
                 (let sr' = sr\<lparr>sr_checker := update_checker C (gw_major_index g)
                              (sc_highest_minor_index (gw_subaddresses g)) (sr_checker sr)\<rparr>
                  in scan_part (scan_find R S M (sr_checker sr')) (\<lambda>(n, found). Found n found) sr' g))
          else scan_part (phase_act S ph) (\<lambda>ph'. ph') sr g)
     | _ \<Rightarrow> (g, ph))"

text \<open>
  The histories with calls at any moment. \<open>run\<close> and \<open>stop\<close> take effect between two rounds: \<open>stop\<close>
  waits for the round to end.
\<close>

inductive interleaved ::
  "('w, 'tx) rpc_ops \<Rightarrow> ('s, 'e) storage_ops \<Rightarrow> ('tx, 'k) monero_ops \<Rightarrow> 'k checker_ops \<Rightarrow>
   (nat \<Rightarrow> 'r \<Rightarrow> nat \<times> 'r) \<Rightarrow> (sub_index \<Rightarrow> string) \<Rightarrow>
   ('tx, 'k, 's, 'w, 'r, 'e) gateway \<Rightarrow> ('tx, 'k, 's, 'w, 'r, 'e) config \<Rightarrow> bool"
  for R S M C gen_range addr g0 where
  start: "interleaved R S M C gen_range addr g0 (g0, Idle)"
| new: "interleaved R S M C gen_range addr g0 (g, ph) \<Longrightarrow>
    new_invoice S gen_range addr piconeros confs expiration desc g = (r, g') \<Longrightarrow>
    interleaved R S M C gen_range addr g0 (g', ph)"
| remove: "interleaved R S M C gen_range addr g0 (g, ph) \<Longrightarrow> remove_invoice S k g = (r, g') \<Longrightarrow>
    interleaved R S M C gen_range addr g0 (g', ph)"
| subscribe: "interleaved R S M C gen_range addr g0 (g, ph) \<Longrightarrow> gateway_subscribe sid k g = (r, g') \<Longrightarrow>
    interleaved R S M C gen_range addr g0 (g', ph)"
| subscribe_all: "interleaved R S M C gen_range addr g0 (g, ph) \<Longrightarrow>
    gateway_subscribe_all sid g = (r, g') \<Longrightarrow> interleaved R S M C gen_range addr g0 (g', ph)"
| status: "interleaved R S M C gen_range addr g0 (g, ph) \<Longrightarrow> status g = (r, g') \<Longrightarrow>
    interleaved R S M C gen_range addr g0 (g', ph)"
| run: "interleaved R S M C gen_range addr g0 (g, Idle) \<Longrightarrow>
    run R S M C spawn_error runtime_error g = (r, g') \<Longrightarrow>
    interleaved R S M C gen_range addr g0 (g', Idle)"
| stop: "interleaved R S M C gen_range addr g0 (g, Idle) \<Longrightarrow> gateway_stop R S M C g = (r, g') \<Longrightarrow>
    interleaved R S M C gen_range addr g0 (g', Idle)"
| thread: "interleaved R S M C gen_range addr g0 c \<Longrightarrow>
    interleaved R S M C gen_range addr g0 (phase_step R S M C c)"
| receive: "interleaved R S M C gen_range addr g0 (g, ph) \<Longrightarrow> try_recv a (gw_publisher g) = (r, p) \<Longrightarrow>
    interleaved R S M C gen_range addr g0 (g\<lparr>gw_publisher := p\<rparr>, ph)"
| unsubscribe: "interleaved R S M C gen_range addr g0 (g, ph) \<Longrightarrow>
    interleaved R S M C gen_range addr g0 (g\<lparr>gw_publisher := drop_subscriber a (gw_publisher g)\<rparr>, ph)"
| world: "interleaved R S M C gen_range addr g0 (g, ph) \<Longrightarrow>
    interleaved R S M C gen_range addr g0 (g\<lparr>gw_world := w\<rparr>, ph)"

section \<open>An undisturbed round\<close>

text \<open>With no call in between, the steps make up one round of \<open>thread_step\<close>.\<close>

definition refreshed ::
  "('tx, 's, 'w) scan_state \<Rightarrow> ('tx, 'k) scanner \<Rightarrow> ('tx, 'k) scanner" where
  "refreshed \<sigma> sr = sr\<lparr>sr_block_cache := sn_block_cache \<sigma>, sr_txpool_cache := sn_txpool_cache \<sigma>,
     sr_first_scan := sn_first_scan \<sigma>\<rparr>"

lemma scan_of_after_scan [simp]: "scan_of (after_scan \<sigma> sr g) (refreshed \<sigma> sr) = \<sigma>"
  by (simp add: scan_of_def after_scan_def refreshed_def)

lemma after_scan_twice [simp]: "after_scan \<sigma>' (refreshed \<sigma> sr) (after_scan \<sigma> sr g) = after_scan \<sigma>' sr g"
  by (simp add: after_scan_def refreshed_def)

lemma after_scan_sel [simp]:
  "gw_handle (after_scan \<sigma> sr g) = gw_handle g" "gw_scanner (after_scan \<sigma> sr g) = Some (refreshed \<sigma> sr)"
  by (simp_all add: after_scan_def refreshed_def)

definition finish ::
  "('tx, 'k, 's, 'w, 'r, 'e) gateway \<Rightarrow> ('tx, 'k) scanner \<Rightarrow>
   (('e accept_xmr_error fault + unit) \<times> ('tx, 's, 'w) scan_state) \<Rightarrow> ('tx, 'k, 's, 'w, 'r, 'e) gateway" where
  "finish g sr = (\<lambda>(r, \<sigma>). case r of Inl f \<Rightarrow> settle f (after_scan \<sigma> sr g) | Inr _ \<Rightarrow> after_scan \<sigma> sr g)"

lemma thread_step_finish:
  assumes "gw_handle g = Some Running" and "gw_scanner g = Some sr" and "gw_commands g = []"
    and "sr' = sr\<lparr>sr_checker := update_checker C (gw_major_index g)
      (sc_highest_minor_index (gw_subaddresses g)) (sr_checker sr)\<rparr>"
  shows "thread_step R S M C g = finish g sr' (scan R S M (sr_checker sr') (scan_of g sr'))"
  using assms
  by (auto simp: thread_step_def finish_def Let_def split: prod.splits sum.splits fault.splits)

lemma settle_store [simp]: "gw_store (settle f g) = gw_store g"
  by (cases f) simp_all

lemma finish_store [simp]: "gw_store (finish g sr (r, \<sigma>)) = sn_store \<sigma>"
  by (simp add: finish_def after_scan_def split: sum.splits)

text \<open>The rest of a round from a phase on.\<close>

fun rest_of_round :: "('s, 'e) storage_ops \<Rightarrow> phase \<Rightarrow> ('tx, 's, 'w, 'e, unit) scan_act" where
  "rest_of_round S Idle = ret ()"
| "rest_of_round S (Found n found) = bind (scan_prepare S n found) (scan_save S)"
| "rest_of_round S (Saving is) = scan_save S is"

lemma rest_of_round_step:
  assumes "ph \<noteq> Idle"
  shows "rest_of_round S ph = bind (phase_act S ph) (rest_of_round S)"
  using assms
  by (cases "(S, ph)" rule: phase_act.cases)
    (auto simp: scan_save_def bind_def ret_def fun_eq_iff split: prod.split sum.split)

lemma rounds_finish:
  fixes g :: "('tx, 'k, 's, 'w, 'r, 'e) gateway"
  assumes "gw_handle g = Some Running"
  shows "\<exists>n. (phase_step R S M C ^^ n) (after_scan \<sigma> sr g, ph) = (finish g sr (rest_of_round S ph \<sigma>), Idle)"
proof -
  have unit_step: "phase_step R S M C (after_scan \<sigma> sr g, ph) =
      (case phase_act S ph \<sigma> of
         (Inl f, \<sigma>') \<Rightarrow> (settle f (after_scan \<sigma>' sr g), Idle)
       | (Inr ph', \<sigma>') \<Rightarrow> (after_scan \<sigma>' sr g, ph'))" if "ph \<noteq> Idle" for \<sigma> ph
    using that assms by (simp add: phase_step_def scan_part_def split: prod.split sum.split)
  let ?ends = "\<lambda>\<sigma> ph. \<exists>n. (phase_step R S M C ^^ n) (after_scan \<sigma> sr g, ph) =
    (finish g sr (rest_of_round S ph \<sigma>), Idle)"
  have one: "?ends \<sigma> ph" if more: "\<And>\<sigma>' ph'. phase_act S ph \<sigma> = (Inr ph', \<sigma>') \<Longrightarrow>
?ends \<sigma>' ph'"
    and ph: "ph \<noteq> Idle" for \<sigma> ph
  proof (cases "phase_act S ph \<sigma>")
    case (Pair r \<sigma>')
    show ?thesis
    proof (cases r)
      case (Inl f)
      show ?thesis
        by (rule exI [of _ 1])
          (simp add: unit_step [OF ph] Pair Inl rest_of_round_step [OF ph] bind_apply finish_def)
    next
      case (Inr ph')
      from more [OF Pair [unfolded Inr]] obtain n where
        "(phase_step R S M C ^^ n) (after_scan \<sigma>' sr g, ph') = (finish g sr (rest_of_round S ph' \<sigma>'), Idle)" ..
      then show ?thesis
        by (intro exI [of _ "Suc n"])
          (simp add: funpow_Suc_right unit_step [OF ph] Pair Inr rest_of_round_step [OF ph] bind_apply
            del: funpow.simps)
    qed
  qed
  have idle: "?ends \<sigma> Idle" for \<sigma>
    by (rule exI [of _ 0]) (simp add: finish_def)
  have saving: "?ends \<sigma> (Saving is)" for "is" \<sigma>
  proof (induction "is" arbitrary: \<sigma>)
    case Nil
    show ?case by (rule one) (auto simp: bind_apply finish_def intro!: exI [of _ 0] split: prod.splits sum.splits)
  next
    case (Cons i "is")
    show ?case
    proof (rule one)
      fix \<sigma>' ph' assume "phase_act S (Saving (i # is)) \<sigma> = (Inr ph', \<sigma>')"
      then have "ph' = Saving is" by (auto simp: bind_apply split: prod.splits sum.splits)
      then show "?ends \<sigma>' ph'" by (simp only: Cons.IH)
    qed simp
  qed
  show ?thesis
  proof (cases ph)
    case Idle
    then show ?thesis using idle by simp
  next
    case (Found m found)
    have "?ends \<sigma> (Found m found)"
    proof (rule one)
      fix \<sigma>' ph' assume "phase_act S (Found m found) \<sigma> = (Inr ph', \<sigma>')"
      then obtain "is" where "ph' = Saving is" by (auto simp: bind_apply split: prod.splits sum.splits)
      then show "?ends \<sigma>' ph'" by (simp only: saving)
    qed simp
    with Found show ?thesis by (simp only:)
  next
    case (Saving "is")
    then show ?thesis using saving by simp
  qed
qed

lemma undisturbed_round:
  assumes "gw_handle g = Some Running" and "gw_scanner g = Some sr"
  shows "\<exists>n. (phase_step R S M C ^^ n) (g, Idle) = (thread_step R S M C g, Idle)"
proof (cases "gw_commands g")
  case (Cons c rest)
  with assms show ?thesis
    by (cases c) (auto simp: thread_step_def phase_step_def intro!: exI [of _ 1])
next
  case Nil
  define sr' where "sr' = sr\<lparr>sr_checker := update_checker C (gw_major_index g)
    (sc_highest_minor_index (gw_subaddresses g)) (sr_checker sr)\<rparr>"
  let ?find = "scan_find R S M (sr_checker sr') (scan_of g sr')"
  have first: "phase_step R S M C (g, Idle) =
      scan_part (scan_find R S M (sr_checker sr')) (\<lambda>(n, found). Found n found) sr' g"
    using assms Nil by (simp add: phase_step_def sr'_def)
  have round: "thread_step R S M C g = finish g sr' (scan R S M (sr_checker sr') (scan_of g sr'))"
    by (rule thread_step_finish [OF assms Nil sr'_def])
  show ?thesis
  proof (cases ?find)
    case (Pair r \<sigma>)
    show ?thesis
    proof (cases r)
      case (Inl f)
      show ?thesis
        by (rule exI [of _ 1])
          (simp add: first round scan_part_def scan_def bind_apply Pair Inl finish_def)
    next
      case (Inr nf)
      obtain m found where nf: "nf = (m, found)" by (cases nf)
      obtain n where "(phase_step R S M C ^^ n) (after_scan \<sigma> sr' g, Found m found) =
          (finish g sr' (rest_of_round S (Found m found) \<sigma>), Idle)"
        using rounds_finish [OF assms(1)] by blast
      then show ?thesis
        by (intro exI [of _ "Suc n"])
          (simp add: funpow_Suc_right first round scan_part_def scan_def bind_apply Pair Inr nf
            del: funpow.simps)
    qed
  qed
qed

section \<open>The invariant with calls in between\<close>

text \<open>
  Whatever was tracked when the invoices were read, saving one of them later keeps the store and the
  pool apart: an invoice that is no longer tracked is not written.
\<close>

context tracked_pool
begin

lemma separate_update:
  assumes sep: "separate s c" and i: "address i = addr (index i)" "totals_ok i"
    and upd: "st_update S i s = (r, s')"
  shows "separate s' c"
proof -
  have s: "ok s" using sep by (simp add: separate_def)
  from update [OF s, of i] upd have s': "ok s'" "lookup s' = (if lookup s (invoice_id i) = None
      then lookup s else (lookup s)(invoice_id i \<mapsto> i))" by auto
  show ?thesis
  proof (cases "lookup s (invoice_id i)")
    case None
    then show ?thesis using sep s' by (simp add: separate_def)
  next
    case (Some old)
    have ix: "index old = index i" using keyed [OF s Some] by (simp add: invoice_id_def)
    have "\<exists>j. lookup s k = Some j \<and> index j = index j'" if "lookup s' k = Some j'" for k j'
      using that Some ix s'(2) by (auto split: if_splits)
    then show ?thesis
      using sep s' i Some unfolding separate_def by (auto split: if_splits) metis+
  qed
qed

end

definition pending_ok :: "(sub_index \<Rightarrow> string) \<Rightarrow> phase \<Rightarrow> bool" where
  "pending_ok addr ph \<longleftrightarrow>
     (case ph of Saving is \<Rightarrow> \<forall>i \<in> set is. address i = addr (index i) \<and> totals_ok i | _ \<Rightarrow> True)"

lemma pending_ok_simps [simp]:
  "pending_ok addr Idle" "pending_ok addr (Found n found)"
  "pending_ok addr (Saving is) \<longleftrightarrow> (\<forall>i \<in> set is. address i = addr (index i) \<and> totals_ok i)"
  by (simp_all add: pending_ok_def)

definition scan_inv ::
  "(sub_index \<Rightarrow> string) \<Rightarrow> 'r subaddress_cache \<Rightarrow> ('tx, in_memory, 'w) scan_state \<Rightarrow> bool" where
  "scan_inv addr c \<sigma> \<longleftrightarrow>
     tracked_pool.separate in_memory_ok map_of addr (pool_ok addr) may_draw (sn_store \<sigma>) c \<and>
     pub_wf (sn_publisher \<sigma>)"

lemma gw_inv_after_scan_iff: "gw_inv addr (after_scan \<sigma> sr g) \<longleftrightarrow> scan_inv addr (gw_subaddresses g) \<sigma>"
  by (simp add: gw_inv_def scan_inv_def after_scan_def)

lemma scan_inv_scan_of: "scan_inv addr (gw_subaddresses g) (scan_of g sr) \<longleftrightarrow> gw_inv addr g"
  by (simp add: gw_inv_def scan_inv_def scan_of_def)

lemma gw_inv_settle [simp]: "gw_inv addr (settle f g) \<longleftrightarrow> gw_inv addr g"
  by (cases f) simp_all

lemma wp_scan_part:
  assumes "wp m (\<lambda>x \<sigma>. scan_inv addr (gw_subaddresses g) \<sigma> \<and> pending_ok addr (next_phase x))
      (\<lambda>_. scan_inv addr (gw_subaddresses g)) (scan_of g sr)"
    and "scan_part m next_phase sr g = (g', ph')"
  shows "gw_inv addr g' \<and> pending_ok addr ph'"
  using assms
  by (auto simp: scan_part_def wp_def gw_inv_after_scan_iff split: prod.splits sum.splits)

lemma scan_inv_find:
  fixes R :: "('w, 'tx) rpc_ops" and \<sigma> :: "('tx, in_memory, 'w) scan_state"
  assumes "scan_inv addr c \<sigma>"
  shows "wp (scan_find R in_memory M checker :: ('tx, in_memory, 'w, in_memory_error, _) scan_act)
    (\<lambda>_. scan_inv addr c) (\<lambda>_. scan_inv addr c) \<sigma>"
  by (rule wp_mono [OF scan_find_keeps]) (use assms in \<open>auto simp: scan_inv_def\<close>)

lemma scan_inv_prepare:
  fixes \<sigma> :: "('tx, in_memory, 'w) scan_state"
  assumes "scan_inv addr c \<sigma>"
  shows "wp (scan_prepare in_memory n found :: ('tx, in_memory, 'w, in_memory_error, _) scan_act)
    (\<lambda>is \<sigma>. scan_inv addr c \<sigma> \<and> pending_ok addr (Saving is)) (\<lambda>_. scan_inv addr c) \<sigma>"
proof -
  have ok: "in_memory_ok (sn_store \<sigma>)" using assms by (simp add: scan_inv_def gw.separate_def)
  obtain "is" where "is": "st_try_iter in_memory (sn_store \<sigma>) = Inr (map Inr is)"
      "\<And>i. i \<in> set is \<longleftrightarrow> map_of (sn_store \<sigma>) (invoice_id i) = Some i"
    using mem.iter [OF ok] by blast
  have "address j = addr (index j) \<and> totals_ok j"
    if j: "j \<in> set (List.map_filter (update_invoice H d found) is)" for H d j
  proof -
    from j obtain i where i: "i \<in> set is" "update_invoice H d found i = Some j"
      by (auto simp: List.map_filter_def)
    then have "rescanned i j" using rescanned_refresh [of i H d found] by (simp add: refresh_def)
    moreover have "map_of (sn_store \<sigma>) (invoice_id i) = Some i" using i(1) "is"(2) by simp
    then have "address i = addr (index i) \<and> totals_ok i"
      using assms unfolding scan_inv_def gw.separate_def by blast
    ultimately show ?thesis by (simp add: rescanned_def same_request_def)
  qed
  then show ?thesis using assms by (simp add: scan_prepare_def wp_simps "is"(1))
qed

lemma scan_inv_save:
  fixes \<sigma> :: "('tx, in_memory, 'w) scan_state"
  assumes inv: "scan_inv addr c \<sigma>" and i: "address i = addr (index i)" "totals_ok i"
  shows "wp (save_invoice in_memory i () :: ('tx, in_memory, 'w, in_memory_error, _) scan_act)
    (\<lambda>_. scan_inv addr c) (\<lambda>_. scan_inv addr c) \<sigma>"
proof -
  obtain r s where rs: "st_update in_memory i (sn_store \<sigma>) = (r, s)" by fastforce
  have "tracked_pool.separate in_memory_ok map_of addr (pool_ok addr) may_draw s c"
    by (rule gw.separate_update [where addr = addr, OF _ i rs]) (use inv in \<open>simp add: scan_inv_def\<close>)
  then show ?thesis
    using inv
    by (auto simp: save_invoice_def rs scan_inv_def on_publisher_def wp_def dest: pub_wf_send_updates
        split: prod.splits sum.splits)
qed

lemma gw_inv_phase_step:
  fixes g :: "('tx, 'k, in_memory, 'w, 'r, in_memory_error) gateway"
  assumes inv: "gw_inv addr g" "pending_ok addr ph"
    and ps: "phase_step R in_memory M C (g, ph) = (g', ph')"
  shows "gw_inv addr g' \<and> pending_ok addr ph'"
proof (cases "\<exists>sr. gw_handle g = Some Running \<and> gw_scanner g = Some sr")
  case False
  then have "phase_step R in_memory M C (g, ph) = (g, ph)"
    by (auto simp: phase_step_def split: option.split thread.split)
  then show ?thesis using inv ps by simp
next
  case True
  then obtain sr where run: "gw_handle g = Some Running" "gw_scanner g = Some sr" by blast
  have I: "scan_inv addr (gw_subaddresses g) (scan_of g sr')" for sr' :: "('tx, 'k) scanner"
    using inv(1) by (simp add: scan_inv_scan_of)
  show ?thesis
  proof (cases ph)
    case Idle
    have find: "scan_part (scan_find R in_memory M checker) (\<lambda>(n, found). Found n found) sr' g = (g', ph') \<Longrightarrow>
        ?thesis" for checker sr'
      by (erule wp_scan_part [rotated]) (rule wp_mono [OF scan_inv_find [OF I]], auto)
    show ?thesis
      using ps inv(1) find
      by (auto simp: phase_step_def run Idle Let_def split: list.splits message_to_scanner.splits)
  next
    case (Found n found)
    then have "scan_part (phase_act in_memory ph) (\<lambda>p. p) sr g = (g', ph')"
      using ps by (simp add: phase_step_def run)
    then show ?thesis
      by (rule wp_scan_part [rotated])
        (simp add: Found wp_simps, rule wp_mono [OF scan_inv_prepare [OF I]], auto)
  next
    case (Saving "is")
    then have part: "scan_part (phase_act in_memory ph) (\<lambda>p. p) sr g = (g', ph')"
      using ps by (simp add: phase_step_def run)
    show ?thesis
    proof (cases "is")
      case Nil
      show ?thesis
        by (rule wp_scan_part [OF _ part])
          (use I in \<open>simp add: Saving Nil wp_simps in_memory_def default_flush_def\<close>)
    next
      case (Cons i rest)
      then have i: "address i = addr (index i)" "totals_ok i" "pending_ok addr (Saving rest)"
        using inv(2) Saving by auto
      show ?thesis
        by (rule wp_scan_part [OF _ part])
          (simp add: Saving Cons wp_simps, rule wp_mono [OF scan_inv_save [OF I i(1,2)]], use i(3) in auto)
    qed
  qed
qed

lemma interleaved_inv:
  fixes g0 :: "('tx, 'k, in_memory, 'w, 'r, in_memory_error) gateway"
  assumes "interleaved R in_memory M C gen_range addr g0 c" and "gw_inv addr g0"
  shows "gw_inv addr (fst c) \<and> pending_ok addr (snd c)"
  using assms
proof (induction rule: interleaved.induct)
  case (new g ph piconeros confs expiration desc r g')
  then show ?case using gw_inv_new_invoice [of addr g] by auto
next
  case (remove g ph k r g')
  then show ?case using gw_inv_remove_invoice [of addr g] by auto
next
  case (subscribe g ph sid k r g')
  then show ?case using gw_inv_subscribe [of addr g] by auto
next
  case (subscribe_all g ph sid r g')
  then show ?case using gw_inv_subscribe_all [of addr g] by auto
next
  case (status g ph r g')
  then show ?case using gw_inv_status [of addr g] by auto
next
  case (run g spawn_error runtime_error r g')
  then show ?case using gw_inv_run [of addr g] by auto
next
  case (stop g r g')
  then show ?case using gw_inv_stop [of addr g] by auto
next
  case (thread c)
  then show ?case
    using gw_inv_phase_step [of addr "fst c" "snd c" R M C] by (metis prod.collapse)
next
  case (receive g ph a r p)
  then show ?case using pub_wf_try_recv by (auto simp: gw_inv_def)
next
  case (unsubscribe g ph a)
  then show ?case using pub_wf_drop_subscriber by (auto simp: gw_inv_def)
qed simp_all

text \<open>The histories of whole rounds are among those with calls in between.\<close>

lemma interleaved_rounds:
  "interleaved R S M C gen_range addr g0 c \<Longrightarrow> interleaved R S M C gen_range addr g0 ((phase_step R S M C ^^ n) c)"
  by (induction n) (auto intro: interleaved.thread)

lemma reaches_interleaved:
  "gw_reaches R S M C gen_range addr g0 g \<Longrightarrow> interleaved R S M C gen_range addr g0 (g, Idle)"
proof (induction rule: gw_reaches.induct)
  case (step g0 g g')
  from step.hyps(2) step.IH show ?case
  proof cases
    case thread
    show ?thesis
    proof (cases "\<exists>sr. gw_handle g = Some Running \<and> gw_scanner g = Some sr")
      case True
      then obtain n where "(phase_step R S M C ^^ n) (g, Idle) = (thread_step R S M C g, Idle)"
        using undisturbed_round by blast
      with interleaved_rounds [OF step.IH, of n] thread show ?thesis by simp
    next
      case False
      then have "thread_step R S M C g = g"
        by (auto simp: thread_step_def split: option.split thread.split)
      with step.IH thread show ?thesis by simp
    qed
  qed (auto intro: interleaved.intros)
qed (rule interleaved.start)

end
