(* ===== verification/Scan_Faults.thy ===== *)
theory Scan_Faults
  imports Scan_Progress
begin

text \<open>
  Two ways in which \<open>src/src/scanner.rs\<close> loses the chain: a scan whose txpool request fails after the
  block cache has taken in a block never searches that block, and the first scan of a scanner
  searches blocks whose payments the stored invoices already have.
\<close>

section \<open>A block that is never searched\<close>

text \<open>The chain as a scanner sees it that has missed the block at height \<open>g\<close>.\<close>

definition without_block :: "(u64 \<Rightarrow> 'tx cached_block) \<Rightarrow> u64 \<Rightarrow> u64 \<Rightarrow> 'tx cached_block" where
  "without_block chain g = chain(g := (cb_id (chain g), cb_height (chain g), cb_block (chain g), []))"

lemma chain_pay_without:
  "chain_pay M checker (without_block chain g) x n =
     (if of_nat n = g then {#} else chain_pay M checker chain x n)"
  by (simp add: chain_pay_def without_block_def paid_in_def)

lemma of_nat_eq_64: "n < 2 ^ 64 \<Longrightarrow> of_nat n = g \<longleftrightarrow> n = unat g" for g :: u64
  by (auto simp: word_unat_eq_iff unsigned_of_nat take_bit_nat_eq_self)

text \<open>Its payments are those of the chain but for those in the missed block.\<close>

lemma chain_transfers_without:
  assumes "c \<le> unat g" and "g \<le> h"
  shows "chain_transfers (chain_pay M checker (without_block chain g) x) c (Suc (unat h)) +
      image_mset (\<lambda>a. Transfer a (Some g)) (chain_pay M checker chain x (unat g)) =
    chain_transfers (chain_pay M checker chain x) c (Suc (unat h))"
proof -
  let ?pay = "chain_pay M checker chain x" and ?gap = "chain_pay M checker (without_block chain g) x"
  have gh: "unat g < Suc (unat h)" using assms(2) by (simp add: word_le_nat_alt)
  have h: "unat h < 2 ^ 64" using unsigned_less [of h, where ?'a = nat] by simp
  have "?gap n = ?pay n" if "n \<noteq> unat g" "n < Suc (unat h)" for n
    using that h of_nat_eq_64 [of n g] by (simp add: chain_pay_without)
  then have "chain_transfers ?gap c (unat g) = chain_transfers ?pay c (unat g)"
    "chain_transfers ?gap (Suc (unat g)) (Suc (unat h)) = chain_transfers ?pay (Suc (unat g)) (Suc (unat h))"
    using gh by (auto intro!: chain_transfers_cong)
  moreover have "chain_transfers p c (Suc (unat h)) = chain_transfers p c (unat g) +
      (image_mset (\<lambda>a. Transfer a (Some g)) (p (unat g)) + chain_transfers p (Suc (unat g)) (Suc (unat h)))" for p
  proof -
    have "chain_transfers p (unat g) (Suc (unat h)) =
        chain_transfers p (unat g) (Suc (unat g)) + chain_transfers p (Suc (unat g)) (Suc (unat h))"
      using gh by (intro chain_transfers_split) simp_all
    moreover have "chain_transfers p (unat g) (Suc (unat g)) = image_mset (\<lambda>a. Transfer a (Some g)) (p (unat g))"
      by (simp add: chain_transfers_def)
    ultimately show ?thesis
      using chain_transfers_split [of c "unat g" "Suc (unat h)" p] assms(1) gh by simp
  qed
  moreover have "?gap (unat g) = {#}" by (simp add: chain_pay_without)
  ultimately show ?thesis by (simp add: add_ac)
qed

lemma follows_without:
  assumes f: "follows M checker chain h i" and h: "h < H" "h + 1 < H"
  shows "follows M checker (without_block chain (h + 1)) (h + 1) i"
proof -
  let ?c = "unat (creation_height i)"
  let ?pay = "chain_pay M checker chain (index i)"
    and ?gap = "chain_pay M checker (without_block chain (h + 1)) (index i)"
  have g: "unat (h + 1) = Suc (unat h)" using unat_succ [OF h(1)] by simp
  have b: "Suc (unat h) < 2 ^ 64" using unsigned_less [of "h + 1", where ?'a = nat] unfolding g by simp
  have "?gap n = ?pay n" if "n < Suc (unat h)" for n
    using that b of_nat_eq_64 [of n "h + 1"] by (simp add: chain_pay_without g)
  then have old: "chain_transfers ?gap ?c (Suc (unat h)) = chain_transfers ?pay ?c (Suc (unat h))"
    by (auto intro!: chain_transfers_cong)
  have new: "?gap (Suc (unat h)) = {#}" by (simp add: chain_pay_without)
  have "chain_transfers ?gap ?c (Suc (Suc (unat h))) = chain_transfers ?gap ?c (Suc (unat h))"
    using new by (simp add: chain_transfers_def sum.atLeastLessThan_Suc not_le)
  with f old show ?thesis by (simp add: follows_def g)
qed

text \<open>The scan that fails: the caches are ahead of the invoices afterwards.\<close>

lemma scan_txpool_fails:
  fixes R :: "('w, 'tx) rpc_ops" and \<sigma> :: "('tx, 's, 'w) scan_state" and S :: "('s, 'e) storage_ops"
  assumes serves: "serves R W chain H" and valid: "valid_chain chain H"
    and fails: "\<forall>w \<in> W. \<exists>w' \<in> W. rpc_txpool_hashes R w = (Inl (Failed e), w')"
    and nonempty: "st_is_empty S (sn_store \<sigma>) = Inr False" and w: "sn_world \<sigma> \<in> W"
    and c: "can_follow chain H (sn_block_cache \<sigma>)"
  shows "\<exists>\<sigma>'. scan R S M checker \<sigma> = (Inl (Raise (Rpc e)), \<sigma>') \<and> sn_world \<sigma>' \<in> W \<and>
    sn_store \<sigma>' = sn_store \<sigma> \<and> sn_publisher \<sigma>' = sn_publisher \<sigma> \<and>
    sn_txpool_cache \<sigma>' = sn_txpool_cache \<sigma> \<and> sn_first_scan \<sigma>' = sn_first_scan \<sigma> \<and>
    sn_block_cache \<sigma>' = (let c = sn_block_cache \<sigma>; h = next_height (bc_height c) H
      in c\<lparr>bc_daemon_height := H, bc_height := h, bc_blocks := chain_top chain h (bc_cache_size c)\<rparr>)"
proof -
  from wp_total [OF wp_block_cache_update_chain [OF serves valid w c, where ?'e = 'e]]
  obtain n w1 where up: "block_cache_update R (sn_block_cache \<sigma>, sn_world \<sigma>) =
      (Inr n :: 'e accept_xmr_error fault + nat, ((sn_block_cache \<sigma>)\<lparr>bc_daemon_height := H,
        bc_height := next_height (bc_height (sn_block_cache \<sigma>)) H,
        bc_blocks := chain_top chain (next_height (bc_height (sn_block_cache \<sigma>)) H)
          (bc_cache_size (sn_block_cache \<sigma>))\<rparr>, w1))" and "w1 \<in> W" by auto
  with fails obtain w2 where "rpc_txpool_hashes R w1 = (Inl (Failed e), w2)" "w2 \<in> W" by blast
  then have "txpool_cache_update R (mo_hash M) (t, w1) =
      (Inl (Raise (Rpc e)) :: 'e accept_xmr_error fault + 'tx list, (t, w2))" for t
    by (simp add: txpool_cache_update_def bind_apply)
  with up nonempty \<open>w2 \<in> W\<close> show ?thesis
    by (simp add: scan_def scan_find_def update_caches_def bind_apply on_store_def query_def
        storage_result_def on_block_cache_def on_txpool_cache_def Let_def)
qed

context invoice_storage begin

lemma missed_in_step:
  assumes inv: "in_step M checker W chain \<sigma>" and ready: "ready_to_scan chain chain H (sn_block_cache \<sigma>)"
    and valid: "valid_chain chain H" and more: "bc_height (sn_block_cache \<sigma>) + 1 < H"
    and \<sigma>': "sn_world \<sigma>' \<in> W" "sn_store \<sigma>' = sn_store \<sigma>" "sn_txpool_cache \<sigma>' = sn_txpool_cache \<sigma>"
      "sn_first_scan \<sigma>' = sn_first_scan \<sigma>"
    and cache: "sn_block_cache \<sigma>' = (let c = sn_block_cache \<sigma>; h = next_height (bc_height c) H
      in c\<lparr>bc_daemon_height := H, bc_height := h, bc_blocks := chain_top chain h (bc_cache_size c)\<rparr>)"
  shows "bc_height (sn_block_cache \<sigma>') = bc_height (sn_block_cache \<sigma>) + 1"
    and "in_step M checker W (without_block chain (bc_height (sn_block_cache \<sigma>) + 1)) \<sigma>'"
    and "H \<le> H2 \<Longrightarrow> valid_chain chain H2 \<Longrightarrow> ready_to_scan chain chain H2 (sn_block_cache \<sigma>')"
proof -
  let ?c = "sn_block_cache \<sigma>"
  have h: "bc_height ?c < H" "0 < bc_cache_size ?c" "bc_cache_size ?c \<le> Suc (unat (bc_height ?c))"
    using ready by (auto simp: ready_to_scan_def can_follow_def bc_wf_def)
  show height: "bc_height (sn_block_cache \<sigma>') = bc_height ?c + 1"
    using cache more by (simp add: next_height_def Let_def)
  show "in_step M checker W (without_block chain (bc_height ?c + 1)) \<sigma>'"
    using inv follows_without [OF _ h(1) more, of M checker chain] unfolding in_step_def height \<sigma>' by (auto simp: \<sigma>')
  assume H2: "H \<le> H2" "valid_chain chain H2"
  have "can_follow chain H2 (sn_block_cache \<sigma>')"
    by (rule can_follow_chain_top [OF H2(2), of "bc_height ?c + 1" "bc_cache_size ?c"])
      (use cache more H2(1) h unat_succ [OF h(1)] in \<open>auto simp: next_height_def Let_def\<close>)
  then show "ready_to_scan chain chain H2 (sn_block_cache \<sigma>')"
    using cache by (simp add: ready_to_scan_def Let_def)
qed

text \<open>The scans that follow search the blocks above the missed one only.\<close>

lemma spliced_above:
  assumes ready: "ready_to_scan chain chain H (sn_block_cache \<sigma>)"
    and found: "scan_found M checker P W chain H \<sigma> n found \<sigma>1" and g: "g \<le> bc_height (sn_block_cache \<sigma>)"
    and h: "h = next_height (bc_height (sn_block_cache \<sigma>)) H"
  shows "spliced (without_block chain g) (without_block chain g) chain h (unat h + 1 - n)"
proof -
  let ?c = "sn_block_cache \<sigma>"
  have lt: "bc_height ?c < H" and top: "bc_blocks ?c = chain_top chain (bc_height ?c) (bc_cache_size ?c)"
    using ready by (auto simp: ready_to_scan_def can_follow_def)
  have "n = (if bc_height ?c + 1 < H then 1 else 0)"
    using found top by (simp add: scan_found_def updated_ok_def Let_def)
  then have "unat h + 1 - n = Suc (unat (bc_height ?c))"
    using unat_succ [OF lt] by (simp add: h next_height_def)
  moreover have "unat g \<le> unat (bc_height ?c)" using g by (simp add: word_le_nat_alt)
  ultimately show ?thesis by (auto simp: spliced_def without_block_def)
qed

lemma wp_scan_after_missing:
  fixes R :: "('w, 'tx) rpc_ops" and \<sigma> :: "('tx, 's, 'w) scan_state"
  assumes serves: "serves R W chain H" and valid: "valid_chain chain H"
    and pool: "serves_pool R W (scannable M checker (\<lambda>_. True))"
    and txs: "\<forall>x < H. \<forall>tx \<in> set (cb_txs (chain x)). payable M checker tx"
    and inv: "in_step M checker W (without_block chain g) \<sigma>" and g: "g \<le> bc_height (sn_block_cache \<sigma>)"
    and ready: "ready_to_scan chain chain H (sn_block_cache \<sigma>)"
    and some: "lookup (sn_store \<sigma>) k = Some i" and p: "pub_wf (sn_publisher \<sigma>)"
    and room: "spare (m + card (dom (lookup (sn_store \<sigma>)))) (sn_publisher \<sigma>)"
  shows "wp (scan R S M checker)
    (\<lambda>_ \<sigma>'. in_step M checker W (without_block chain g) \<sigma>' \<and> g \<le> bc_height (sn_block_cache \<sigma>') \<and>
       ready_to_scan chain chain H (sn_block_cache \<sigma>') \<and>
       bc_height (sn_block_cache \<sigma>') = next_height (bc_height (sn_block_cache \<sigma>)) H \<and>
       dom (lookup (sn_store \<sigma>')) = dom (lookup (sn_store \<sigma>)) \<and>
       pub_wf (sn_publisher \<sigma>') \<and> spare m (sn_publisher \<sigma>'))
    (\<lambda>_ _. False) \<sigma>"
proof -
  let ?h = "bc_height (sn_block_cache \<sigma>)"
  have s: "ok (sn_store \<sigma>)" using inv by (simp add: in_step_def)
  have "?h < H" using ready by (simp add: ready_to_scan_def can_follow_def)
  then have "?h \<le> next_height ?h H" using next_height_props(2) by (simp add: word_le_nat_alt)
  with g have "g \<le> next_height ?h H" by simp
  then show ?thesis
    by (intro wp_mono [OF wp_conj [OF wp_scan_spliced [OF serves valid pool txs inv ready some
            spliced_above [OF ready _ g refl]] wp_scan_spare [OF s p room]]]) auto
qed

lemma wp_scans_after_missing:
  fixes R :: "('w, 'tx) rpc_ops" and \<sigma> :: "('tx, 's, 'w) scan_state"
  assumes serves: "serves R W chain H" and valid: "valid_chain chain H"
    and pool: "serves_pool R W (scannable M checker (\<lambda>_. True))"
    and txs: "\<forall>x < H. \<forall>tx \<in> set (cb_txs (chain x)). payable M checker tx"
    and inv: "in_step M checker W (without_block chain g) \<sigma>" and g: "g \<le> bc_height (sn_block_cache \<sigma>)"
    and ready: "ready_to_scan chain chain H (sn_block_cache \<sigma>)"
    and some: "lookup (sn_store \<sigma>) k = Some i" and p: "pub_wf (sn_publisher \<sigma>)"
    and room: "spare (n * card (dom (lookup (sn_store \<sigma>)))) (sn_publisher \<sigma>)"
  shows "wp (for_loop (\<lambda>_ _. scan R S M checker) [0..<n] ())
    (\<lambda>_ \<sigma>'. in_step M checker W (without_block chain g) \<sigma>' \<and> g \<le> bc_height (sn_block_cache \<sigma>') \<and>
       unat (bc_height (sn_block_cache \<sigma>')) = min (unat (bc_height (sn_block_cache \<sigma>)) + n) (unat H - 1) \<and>
       dom (lookup (sn_store \<sigma>')) = dom (lookup (sn_store \<sigma>)))
    (\<lambda>_ _. False) \<sigma>"
proof -
  let ?D = "dom (lookup (sn_store \<sigma>))"
  let ?I = "\<lambda>j \<sigma>' :: ('tx, 's, 'w) scan_state. in_step M checker W (without_block chain g) \<sigma>' \<and>
    g \<le> bc_height (sn_block_cache \<sigma>') \<and> ready_to_scan chain chain H (sn_block_cache \<sigma>') \<and>
    unat (bc_height (sn_block_cache \<sigma>')) = min (unat (bc_height (sn_block_cache \<sigma>)) + j) (unat H - 1) \<and>
    dom (lookup (sn_store \<sigma>')) = ?D \<and> pub_wf (sn_publisher \<sigma>') \<and> spare ((n - j) * card ?D) (sn_publisher \<sigma>')"
  have "wp (for_loop (\<lambda>_ _. scan R S M checker) [0..<n] ()) (\<lambda>_. ?I n) (\<lambda>_ _. False) \<sigma>"
  proof (rule wp_for_loop [where I = "\<lambda>pre _. ?I (length pre)"])
    have "bc_height (sn_block_cache \<sigma>) < H" using ready by (simp add: ready_to_scan_def can_follow_def)
    then show "?I (length ([] :: nat list)) \<sigma>" using inv g ready p room by (simp add: word_less_nat_alt)
  next
    fix pre j post and \<sigma>1 :: "('tx, 's, 'w) scan_state" and u :: unit
    assume upt: "[0..<n] = pre @ j # post" and I: "?I (length pre) \<sigma>1"
    have "length pre < n" using arg_cong [OF upt, of length] by simp
    then have "n - length pre = Suc (n - Suc (length pre))" by simp
    then have room1: "spare ((n - Suc (length pre)) * card ?D + card (dom (lookup (sn_store \<sigma>1)))) (sn_publisher \<sigma>1)"
      using I by (simp add: add.commute)
    from some I obtain i1 where i1: "lookup (sn_store \<sigma>1) k = Some i1" by blast
    from I have I': "in_step M checker W (without_block chain g) \<sigma>1" "g \<le> bc_height (sn_block_cache \<sigma>1)"
      "ready_to_scan chain chain H (sn_block_cache \<sigma>1)" "pub_wf (sn_publisher \<sigma>1)"
      "dom (lookup (sn_store \<sigma>1)) = ?D" by blast+
    have "bc_height (sn_block_cache \<sigma>1) < H" using I'(3) by (simp add: ready_to_scan_def can_follow_def)
    then have top: "unat (next_height (bc_height (sn_block_cache \<sigma>1)) H) =
        min (unat (bc_height (sn_block_cache \<sigma>)) + Suc (length pre)) (unat H - 1)"
      using I unat_succ [of "bc_height (sn_block_cache \<sigma>1)" H]
      by (auto simp: next_height_def word_less_nat_alt)
    show "wp (scan R S M checker) (\<lambda>_. ?I (length (pre @ [j]))) (\<lambda>_ _. False) \<sigma>1"
      by (rule wp_mono [OF wp_scan_after_missing [OF serves valid pool txs I'(1,2,3) i1 I'(4) room1]])
        (use I'(5) top in auto)
  qed simp
  then show ?thesis by (rule wp_mono) auto
qed

end

section \<open>Blocks that are searched twice\<close>

text \<open>
  The transfers of one invoice after a search of all \<open>sz\<close> cached blocks, when only the blocks above
  \<open>h\<close> count as updated: those it had stay, and those of the cached blocks are added to them.
\<close>

lemma refresh_doubles:
  assumes old: "follows M checker chain h i" and h: "unat h' = unat h + n" "unat h' + 1 < 2 ^ 64"
    and found: "found_in_blocks M checker P h' (chain_top chain h' sz) sz fb" and P: "P (index i)"
    and sz: "sz \<le> Suc (unat h')" and fp: "\<forall>(x, t) \<in> set fp. t_height t = None"
    and pays: "\<And>k. k < sz \<Longrightarrow> \<forall>tx \<in> set (cb_txs (chain (h' - of_nat k))). payable M checker tx"
  shows "confirmed (mset (transfers (refresh h' (h' - of_nat n + 1) (fb @ fp) i))) =
    confirmed (mset (transfers i)) + chain_transfers (chain_pay M checker chain (index i))
      (max (Suc (unat h') - sz) (unat (creation_height i))) (Suc (unat h'))"
proof -
  let ?c = "unat (creation_height i)" and ?H = "unat h'" and ?pay = "chain_pay M checker chain (index i)"
  let ?pool = "image_mset t_amount (mset (map snd (filter (\<lambda>(x, t). x = index i) fp)))"
  have fb: "mset (map snd (filter (\<lambda>(x, t). x = index i) fb)) = chain_transfers ?pay (Suc ?H - sz) (Suc ?H)"
  proof -
    have top: "chain_top chain h' sz ! k = chain (of_nat ?H - of_nat k)" if "k < sz" for k
      using that by simp
    have "\<forall>tx \<in> set (cb_txs (chain_top chain h' sz ! k)). payable M checker tx" if "k < sz" for k
      using pays [OF that] top [OF that] by simp
    from found_in_blocks_payments [of M checker P ?H, OF _ _ _ P top this] found sz h(2)
    show ?thesis by simp
  qed
  have "mset (map snd (filter (\<lambda>(x, t). x = index i) fp)) = image_mset (\<lambda>a. Transfer a None) ?pool"
    by (rule unconfirmed_image) (use fp in auto)
  then have all: "mset (map snd (filter (\<lambda>(x, t). x = index i) (fb @ fp))) =
      chain_transfers ?pay (Suc ?H - sz) (Suc ?H) + image_mset (\<lambda>a. Transfer a None) ?pool"
    unfolding filter_append map_append mset_append fb by simp
  have c: "0 < ?c" "?c < 2 ^ 64" and hb: "unat h < 2 ^ 64"
    using old unsigned_less [of "creation_height i", where ?'a = nat] unsigned_less [of h, where ?'a = nat]
    by (auto simp: follows_def unat_gt_0)
  have old': "confirmed (mset (transfers i)) = chain_transfers ?pay ?c (Suc (unat h))"
    using old by (simp add: follows_def)
  have "h' = h + of_nat n" using arg_cong [OF h(1), of "of_nat :: nat \<Rightarrow> u64"] by simp
  then have d: "(of_nat (Suc (unat h)) :: u64) = h' - of_nat n + 1" by simp
  have "mset (transfers (refresh (of_nat ?H) (of_nat (Suc (unat h))) (fb @ fp) i)) =
    chain_transfers ?pay ?c (Suc (unat h)) + chain_transfers ?pay (max (Suc ?H - sz) ?c) (Suc ?H) +
      image_mset (\<lambda>a. Transfer a None) ?pool"
    by (rule refresh_transfers [OF _ c(1) _ hb c(2) _ _ old' _ all]) (use h in simp_all)
  then show ?thesis unfolding d old' by simp
qed

context invoice_storage begin

lemma wp_first_scan:
  fixes R :: "('w, 'tx) rpc_ops" and \<sigma> :: "('tx, 's, 'w) scan_state" and H :: u64
  defines "h' \<equiv> next_height (bc_height (sn_block_cache \<sigma>)) H"
  assumes serves: "serves R W chain H" and valid: "valid_chain chain H"
    and pool: "serves_pool R W (scannable M checker (\<lambda>_. True))"
    and txs: "\<forall>x < H. \<forall>tx \<in> set (cb_txs (chain x)). payable M checker tx"
    and s: "ok (sn_store \<sigma>)" and w: "sn_world \<sigma> \<in> W" and first: "sn_first_scan \<sigma>"
    and tp: "pool_unconfirmed (sn_txpool_cache \<sigma>)"
    and ready: "ready_to_scan chain chain H (sn_block_cache \<sigma>)"
    and in_step: "\<And>k i. lookup (sn_store \<sigma>) k = Some i \<Longrightarrow> follows M checker chain (bc_height (sn_block_cache \<sigma>)) i"
    and some: "lookup (sn_store \<sigma>) k0 = Some i0"
  shows "wp (scan R S M checker)
    (\<lambda>_ \<sigma>'. \<forall>k i. lookup (sn_store \<sigma>) k = Some i \<longrightarrow>
      (\<exists>i'. lookup (sn_store \<sigma>') k = Some i' \<and> confirmed (mset (transfers i')) =
         confirmed (mset (transfers i)) + chain_transfers (chain_pay M checker chain (index i))
           (max (Suc (unat h') - bc_cache_size (sn_block_cache \<sigma>)) (unat (creation_height i))) (Suc (unat h'))))
    (\<lambda>e _. e = Blocked) \<sigma>"
proof -
  let ?P = "\<lambda>x. st_contains_sub_index S x (sn_store \<sigma>) = Inr True"
  let ?c = "sn_block_cache \<sigma>" and ?sz = "bc_cache_size (sn_block_cache \<sigma>)" and ?h = "bc_height (sn_block_cache \<sigma>)"
  have c: "can_follow chain H ?c" and top: "bc_blocks ?c = chain_top chain ?h ?sz"
    using ready by (simp_all add: ready_to_scan_def)
  have h: "?h < H" "?sz \<le> Suc (unat ?h)" using c by (simp_all add: can_follow_def)
  note hp = next_height_props [OF h(1), folded h'_def]
  have "unat h' < unat H" using hp(1) by (simp add: word_less_nat_alt)
  then have bound: "unat h' + 1 < 2 ^ 64" using unsigned_less [of H, where ?'a = nat] by simp
  have sz: "?sz \<le> Suc (unat h')" using h(2) hp(2) by linarith
  have pays: "\<forall>tx \<in> set (cb_txs (chain (h' - of_nat k))). payable M checker tx" if "k < ?sz" for k
  proof -
    have "k \<le> unat h'" using that sz by linarith
    with txs le_less_trans [OF sub_of_nat_le hp(1)] show ?thesis by blast
  qed
  have contains: "st_contains_sub_index S x (sn_store \<sigma>) = Inr (?P x)" for x
    using contains_total [OF s, of x] by auto
  have nonempty: "st_is_empty S (sn_store \<sigma>) = Inr False" using some by (auto simp: is_empty [OF s])
  have saves: "wp (bind (scan_prepare S n found) (scan_save S) :: ('tx, 's, 'w, 'e, unit) scan_act)
      (\<lambda>_ \<sigma>'. \<forall>k i. lookup (sn_store \<sigma>) k = Some i \<longrightarrow>
        (\<exists>i'. lookup (sn_store \<sigma>') k = Some i' \<and> confirmed (mset (transfers i')) =
           confirmed (mset (transfers i)) + chain_transfers (chain_pay M checker chain (index i))
             (max (Suc (unat h') - ?sz) (unat (creation_height i))) (Suc (unat h'))))
      (\<lambda>e _. e = Blocked) \<sigma>1"
    if found: "scan_found M checker ?P W chain H \<sigma> n found \<sigma>1" for n found \<sigma>1
  proof -
    have \<sigma>1: "sn_store \<sigma>1 = sn_store \<sigma>" "bc_height (sn_block_cache \<sigma>1) = h'"
      and n: "n = (if ?h + 1 < H then 1 else 0)"
      using found top by (simp_all add: scan_found_def updated_ok_def Let_def h'_def)
    have h': "unat h' = unat ?h + n" using unat_succ [OF h(1)] by (simp add: n h'_def next_height_def)
    obtain fb fp where f: "found = fb @ fp" "\<forall>(x, t) \<in> set fp. t_height t = None"
      and fb: "found_in_blocks M checker ?P h' (chain_top chain h' ?sz) ?sz fb"
      using found first by (auto simp: scan_found_def Let_def h'_def)
    have "confirmed (mset (transfers (refresh h' (h' - of_nat n + 1) found i))) =
        confirmed (mset (transfers i)) + chain_transfers (chain_pay M checker chain (index i))
          (max (Suc (unat h') - ?sz) (unat (creation_height i))) (Suc (unat h'))"
      if i: "lookup (sn_store \<sigma>) k = Some i" for k i
    proof -
      have "?P (index i)"
        using contains_tracked [OF s, of k] i keyed [OF s i] by (auto simp: invoice_id_def)
      from refresh_doubles [OF in_step [OF i] h' bound fb this sz f(2) pays] show ?thesis by (simp add: f(1))
    qed
    with wp_scan_write [of \<sigma>1 h' n found, unfolded \<sigma>1, OF s refl] show ?thesis
      by (auto elim!: wp_mono)
  qed
  have "wp (scan_find R S M checker :: ('tx, 's, 'w, 'e, nat \<times> (sub_index \<times> transfer) list) scan_act)
    (\<lambda>(n, found) \<sigma>'. scan_found M checker ?P W chain H \<sigma> n found \<sigma>' \<and> \<not> sn_first_scan \<sigma>') (\<lambda>_ _. False) \<sigma>"
    by (rule wp_scan_find [OF serves valid pool txs contains nonempty w c tp])
  then show ?thesis
    unfolding scan_def wp_bind
    by (rule wp_mono) (use saves in \<open>auto simp: wp_bind split: prod.splits\<close>)
qed

end

end
