(* ===== verification/Scan_Publish.thy ===== *)
theory Scan_Publish
  imports Scan_Progress
begin

text \<open>
  What the subscribers are told of a scan: while no subscriber has gone and all have room, a scan sends
  each invoice it has changed once, to the subscribers of that invoice and to those of all invoices, in
  the order of the saves; and a scan that changes an invoice a full channel is to hear of waits for it.
\<close>

section \<open>Several publications\<close>

definition all_open :: "publisher \<Rightarrow> bool" where
  "all_open p \<longleftrightarrow> (\<forall>key. \<forall>s \<in> set (subs_of key p). is_open p s)"

definition audience :: "publisher \<Rightarrow> invoice \<Rightarrow> address set" where
  "audience p i = addresses (Some (invoice_id i)) p \<union> addresses None p"

definition queue :: "publisher \<Rightarrow> address \<Rightarrow> invoice list" where
  "queue p a = ch_queue (pb_channels p ! a)"

definition told :: "publisher \<Rightarrow> invoice list \<Rightarrow> publisher \<Rightarrow> bool" where
  "told p us p' \<longleftrightarrow> pub_wf p' \<and> all_open p' \<and>
     length (pb_channels p') = length (pb_channels p) \<and>
     (\<forall>key. subs_of key p' = subs_of key p) \<and>
     (\<forall>a < length (pb_channels p). queue p' a = queue p a @ filter (\<lambda>u. a \<in> audience p u) us)"

lemma told_Nil: "pub_wf p \<Longrightarrow> all_open p \<Longrightarrow> told p [] p"
  by (simp add: told_def)

lemma audience_cong: "(\<And>key. subs_of key p' = subs_of key p) \<Longrightarrow> audience p' = audience p"
  by (simp add: audience_def addresses_def fun_eq_iff)

lemma addresses_less: "pub_wf p \<Longrightarrow> a \<in> addresses key p \<Longrightarrow> a < length (pb_channels p)"
  using pub_wf_subs_ok [of p key] by (auto simp: addresses_def subs_ok_def)

lemma all_open_audience:
  "all_open p \<Longrightarrow> a \<in> audience p i \<Longrightarrow> ch_open (pb_channels p ! a)"
  by (auto simp: audience_def addresses_def all_open_def is_open_def)

lemma wp_send_updates_told:
  assumes told: "told p us q" and room: "spare (Suc n) q"
  shows "wp (send_updates i :: (publisher, 'e fault, unit) act)
    (\<lambda>_ q'. told p (us @ [i]) q' \<and> spare n q') (\<lambda>_ _. False) q"
proof -
  have wf: "pub_wf q" and "open": "all_open q" using told by (simp_all add: told_def)
  from send_updates_delivers [OF wf spare_roomy [OF wf room] spare_roomy [OF wf room], of i]
  obtain q' where q': "send_updates i q = (Inr () :: 'e fault + unit, q')"
    and chs: "pb_channels q' = deliver i (audience q i) (pb_channels q)"
    and subs: "\<And>key. subs_of key q' = (if key = Some (invoice_id i) \<or> key = None
      then takeWhile (is_open q) (subs_of key q) else subs_of key q)"
    unfolding audience_def by blast
  have same: "subs_of key q' = subs_of key q" for key
    using "open" by (simp add: subs all_open_def takeWhile_eq_all_conv)
  have "all_open q'"
    unfolding all_open_def
  proof (intro allI ballI)
    fix key s assume s: "s \<in> set (subs_of key q')"
    then have "snd s < length (pb_channels q)"
      using addresses_less [OF wf, of "snd s" key] by (simp add: same addresses_def)
    with s "open" show "is_open q' s" by (simp add: is_open_def chs all_open_def same)
  qed
  moreover have "queue q' a = queue q a @ (if a \<in> audience q i then [i] else [])"
    if "a < length (pb_channels q)" for a
    using that all_open_audience [OF "open", of a i] by (simp add: queue_def chs nth_deliver)
  moreover have "audience q = audience p"
    using told by (intro audience_cong) (simp add: told_def)
  ultimately have "told p (us @ [i]) q'"
    using told pub_wf_send_updates [OF wf q'] by (auto simp: told_def same chs)
  with q' spare_deliver [OF room chs] show ?thesis by (simp add: wp_def)
qed

section \<open>The publications of a scan\<close>

text \<open>The invoices that differ from what was stored before.\<close>

definition changed :: "(invoice_id \<rightharpoonup> invoice) \<Rightarrow> (invoice_id \<rightharpoonup> invoice) \<Rightarrow> invoice set" where
  "changed L L' = {i. L' (invoice_id i) = Some i \<and> L (invoice_id i) \<noteq> Some i}"

context invoice_storage begin

lemma wp_scan_save_told:
  assumes "ok (sn_store \<sigma>)" and "told p [] (sn_publisher \<sigma>)" and "spare (length is) (sn_publisher \<sigma>)"
  shows "wp (scan_save S is :: ('tx, 's, 'w, 'e, unit) scan_act)
    (\<lambda>_ \<sigma>'. told p is (sn_publisher \<sigma>')) (\<lambda>_ _. False) \<sigma>"
proof -
  let ?I = "\<lambda>us n \<sigma> :: ('tx, 's, 'w) scan_state.
    ok (sn_store \<sigma>) \<and> told p us (sn_publisher \<sigma>) \<and> spare n (sn_publisher \<sigma>)"
  have save: "wp (save_invoice S i ()) (\<lambda>_. ?I (us @ [i]) n) (\<lambda>_ _. False) \<sigma>"
    if I: "?I us (Suc n) \<sigma>" for us i n \<sigma>
  proof -
    obtain r s' where s': "st_update S i (sn_store \<sigma>) = (Inr r, s')" "ok s'"
      using update [of "sn_store \<sigma>" i] I by blast
    then have "save_invoice S i () \<sigma> = on_publisher (send_updates i) (\<sigma>\<lparr>sn_store := s'\<rparr>)"
      by (simp add: save_invoice_def)
    moreover have "wp (on_publisher (send_updates i)) (\<lambda>_. ?I (us @ [i]) n) (\<lambda>_ _. False) (\<sigma>\<lparr>sn_store := s'\<rparr>)"
      using s'(2) I by (auto simp: wp_simps intro!: wp_mono [OF wp_send_updates_told])
    ultimately show ?thesis by (simp add: wp_def)
  qed
  have "wp (for_loop (save_invoice S) is ()) (\<lambda>_. ?I is 0) (\<lambda>_ _. False) \<sigma>"
  proof (rule wp_for_loop [where I = "\<lambda>pre _. ?I pre (length is - length pre)"])
    show "?I [] (length is - length ([] :: invoice list)) \<sigma>" using assms by simp
  next
    fix pre i post \<sigma>1 and u :: unit
    assume "is": "is = pre @ i # post" and I: "?I pre (length is - length pre) \<sigma>1"
    then have "?I pre (Suc (length is - length (pre @ [i]))) \<sigma>1" by (simp add: Suc_diff_le)
    from save [OF this] show "wp (save_invoice S i u) (\<lambda>_. ?I (pre @ [i]) (length is - length (pre @ [i])))
      (\<lambda>_ _. False) \<sigma>1" by simp
  qed simp
  then show ?thesis
    unfolding scan_save_def wp_bind by (rule wp_mono) (auto simp: wp_simps flush)
qed

text \<open>What a scan saves is what it has changed.\<close>

lemma updates_are_changes:
  assumes "is": "distinct (map invoice_id is)" "\<And>i. i \<in> set is \<longleftrightarrow> lookup s (invoice_id i) = Some i"
    and key: "\<And>k i. lookup s k = Some i \<Longrightarrow> invoice_id i = k"
    and us: "us = List.map_filter (update_invoice H d found) is"
  shows "distinct us"
    and "set us = changed (lookup s) (\<lambda>k. map_option (refresh H d found) (lookup s k))"
proof -
  let ?u = "update_invoice H d found"
  have id: "invoice_id j = invoice_id i" if "?u i = Some j" for i j
    using invoice_id_refresh [of H d found i] that by (simp add: refresh_def)
  have differs: "j \<noteq> i" if u: "?u i = Some j" for i j
  proof -
    from u have "\<not> (mset (retained d i @ push_transfers found i) = mset (transfers i) \<and> current_height i = H + 1)"
      and "transfers j = retained d i @ push_transfers found i" and "current_height j = H + 1"
      by (auto simp: update_invoice_eq zeroed_def split: if_splits)
    then show ?thesis by auto
  qed
  have "map invoice_id us = map invoice_id (filter (\<lambda>i. ?u i \<noteq> None) is)"
    unfolding us using id by (induction "is") (auto simp: List.map_filter_def)
  then show "distinct us"
    using "is"(1) by (metis distinct_map distinct_map_filter)
  have "j \<in> set us \<longleftrightarrow> (\<exists>i. lookup s (invoice_id i) = Some i \<and> ?u i = Some j)" for j
    by (auto simp: us List.map_filter_def "is"(2) intro!: rev_image_eqI)
  also have "\<dots> j \<longleftrightarrow> j \<in> changed (lookup s) (\<lambda>k. map_option (refresh H d found) (lookup s k))" for j
  proof
    assume "\<exists>i. lookup s (invoice_id i) = Some i \<and> ?u i = Some j"
    then obtain i where i: "lookup s (invoice_id i) = Some i" "?u i = Some j" by blast
    then show "j \<in> changed (lookup s) (\<lambda>k. map_option (refresh H d found) (lookup s k))"
      using id [OF i(2)] differs [OF i(2)] by (simp add: changed_def refresh_def)
  next
    assume "j \<in> changed (lookup s) (\<lambda>k. map_option (refresh H d found) (lookup s k))"
    then obtain i where i: "lookup s (invoice_id j) = Some i" "j = refresh H d found i" "j \<noteq> i"
      by (auto simp: changed_def)
    then have "?u i = Some j" by (auto simp: refresh_def split: option.splits)
    with i(1) key [OF i(1)] show "\<exists>i. lookup s (invoice_id i) = Some i \<and> ?u i = Some j"
      by (intro exI [of _ i]) simp
  qed
  finally show "set us = changed (lookup s) (\<lambda>k. map_option (refresh H d found) (lookup s k))" by blast
qed

lemma wp_scan_told:
  fixes R :: "('w, 'tx) rpc_ops" and \<sigma> :: "('tx, 's, 'w) scan_state"
  assumes s: "ok (sn_store \<sigma>)" and p: "pub_wf (sn_publisher \<sigma>)" "all_open (sn_publisher \<sigma>)"
    and room: "spare (card (dom (lookup (sn_store \<sigma>)))) (sn_publisher \<sigma>)"
    and T: "\<And>\<sigma>'. T \<sigma>' \<longleftrightarrow> (\<exists>us. distinct us \<and>
      set us = changed (lookup (sn_store \<sigma>)) (lookup (sn_store \<sigma>')) \<and> told (sn_publisher \<sigma>) us (sn_publisher \<sigma>'))"
  shows "wp (scan R S M checker) (\<lambda>_. T) (\<lambda>_. T) \<sigma>"
proof -
  obtain "is" where "is": "st_try_iter S (sn_store \<sigma>) = Inr (map Inr is)" "distinct (map invoice_id is)"
      "\<And>i. i \<in> set is \<longleftrightarrow> lookup (sn_store \<sigma>) (invoice_id i) = Some i"
    using iter [OF s] by blast
  have unchanged: "T \<sigma>1" if "sn_store \<sigma>1 = sn_store \<sigma>" "sn_publisher \<sigma>1 = sn_publisher \<sigma>" for \<sigma>1
    using that told_Nil [OF p] by (auto simp: T changed_def intro!: exI [of _ "[]"])
  have tail: "wp (bind (scan_prepare S n found) (scan_save S) :: ('tx, 's, 'w, 'e, unit) scan_act)
      (\<lambda>_. T) (\<lambda>_. T) \<sigma>1"
    if same: "sn_store \<sigma>1 = sn_store \<sigma>" "sn_publisher \<sigma>1 = sn_publisher \<sigma>" for n found \<sigma>1
  proof -
    let ?H = "bc_height (sn_block_cache \<sigma>1)"
    let ?d = "?H - of_nat n + 1"
    let ?us = "List.map_filter (update_invoice ?H ?d found) is"
    have "wp (scan_save S ?us :: ('tx, 's, 'w, 'e, unit) scan_act)
        (\<lambda>_ \<sigma>'. told (sn_publisher \<sigma>) ?us (sn_publisher \<sigma>')) (\<lambda>_ _. False) \<sigma>1"
      using s told_Nil [OF p] spare_mono [OF room iter_length [OF s "is"(2,3)]]
      by (intro wp_scan_save_told) (simp_all add: same)
    moreover have eq: "\<sigma>1\<lparr>sn_store := sn_store \<sigma>\<rparr> = \<sigma>1" by (simp add: same(1) [symmetric])
    ultimately have "wp (bind (scan_prepare S n found) (scan_save S) :: ('tx, 's, 'w, 'e, unit) scan_act)
        (\<lambda>_ \<sigma>'. told (sn_publisher \<sigma>) ?us (sn_publisher \<sigma>')) (\<lambda>_ _. False) \<sigma>1"
      by (simp add: scan_prepare_def wp_simps "is"(1) same eq)
    from wp_conj [OF this wp_scan_write [OF s [folded same(1)] refl, of n found]]
    show ?thesis
      using updates_are_changes [OF "is"(2,3) keyed [OF s] refl, of ?H ?d found]
      by (elim wp_mono) (auto simp: T same(1))
  qed
  show ?thesis
    unfolding scan_def wp_bind
    by (rule wp_mono [OF scan_find_keeps]) (use tail unchanged in \<open>auto simp: wp_bind split: prod.splits\<close>)
qed

text \<open>
  A subscriber that does not read: once its channel is full, a scan that has to tell it something
  waits for ever, and no scan returns that has changed an invoice it is to be told of.
\<close>

lemma wp_save_stuffed:
  assumes s: "ok (sn_store \<sigma>)" and p: "pub_wf (sn_publisher \<sigma>)" "stuffed (sn_publisher \<sigma>) a"
    and key: "a \<in> addresses key (sn_publisher \<sigma>)"
  shows "wp (save_invoice S i () :: ('tx, 's, 'w, 'e, unit) scan_act)
    (\<lambda>_ \<sigma>'. ok (sn_store \<sigma>') \<and> pub_wf (sn_publisher \<sigma>') \<and> stuffed (sn_publisher \<sigma>') a \<and>
       a \<in> addresses key (sn_publisher \<sigma>') \<and> key \<noteq> None \<and> key \<noteq> Some (invoice_id i))
    (\<lambda>e _. e = Blocked) \<sigma>"
proof -
  obtain r s' where s': "st_update S i (sn_store \<sigma>) = (Inr r, s')" "ok s'"
    using update [OF s, of i] by blast
  then have save: "save_invoice S i () \<sigma> = on_publisher (send_updates i) (\<sigma>\<lparr>sn_store := s'\<rparr>)"
    by (simp add: save_invoice_def)
  have "wp (send_updates i :: (publisher, 'e accept_xmr_error fault, unit) act)
      (\<lambda>_ q. pub_wf q \<and> stuffed q a \<and> a \<in> addresses key q \<and> key \<noteq> None \<and> key \<noteq> Some (invoice_id i))
      (\<lambda>e _. e = Blocked) (sn_publisher \<sigma>)"
  proof (cases "key = None \<or> key = Some (invoice_id i)")
    case True
    with key have "a \<in> addresses (Some (invoice_id i)) (sn_publisher \<sigma>) \<union> addresses None (sn_publisher \<sigma>)" by auto
    from send_updates_stuffed [OF p this, where ?'e = "'e accept_xmr_error"] show ?thesis
      by (auto simp: wp_def split: prod.splits sum.splits)
  next
    case False
    then obtain k where k: "key = Some k" "k \<noteq> invoice_id i" by (cases key) auto
    show ?thesis
      using send_updates_beside [OF p key [unfolded k(1)] k(2)] pub_wf_send_updates [OF p(1)] k
      by (intro wp_conj [OF wp_I wp_send_updates, THEN wp_mono]) auto
  qed
  then have "wp (on_publisher (send_updates i) :: ('tx, 's, 'w, 'e, unit) scan_act)
    (\<lambda>_ \<sigma>'. ok (sn_store \<sigma>') \<and> pub_wf (sn_publisher \<sigma>') \<and> stuffed (sn_publisher \<sigma>') a \<and>
       a \<in> addresses key (sn_publisher \<sigma>') \<and> key \<noteq> None \<and> key \<noteq> Some (invoice_id i))
    (\<lambda>e _. e = Blocked) (\<sigma>\<lparr>sn_store := s'\<rparr>)"
    using s'(2) by (auto simp: wp_simps elim!: wp_mono)
  with save show ?thesis by (simp add: wp_def)
qed

lemma wp_scan_save_stuffed:
  assumes s: "ok (sn_store \<sigma>)" and p: "pub_wf (sn_publisher \<sigma>)" "stuffed (sn_publisher \<sigma>) a"
    and key: "a \<in> addresses key (sn_publisher \<sigma>)"
  shows "wp (scan_save S is :: ('tx, 's, 'w, 'e, unit) scan_act)
    (\<lambda>_ _. \<forall>i \<in> set is. key \<noteq> None \<and> key \<noteq> Some (invoice_id i)) (\<lambda>e _. e = Blocked) \<sigma>"
proof -
  let ?I = "\<lambda>pre \<sigma> :: ('tx, 's, 'w) scan_state. ok (sn_store \<sigma>) \<and> pub_wf (sn_publisher \<sigma>) \<and>
    stuffed (sn_publisher \<sigma>) a \<and> a \<in> addresses key (sn_publisher \<sigma>) \<and>
    (\<forall>i \<in> set pre. key \<noteq> None \<and> key \<noteq> Some (invoice_id i))"
  have "wp (for_loop (save_invoice S) is ()) (\<lambda>_. ?I is) (\<lambda>e _. e = Blocked) \<sigma>"
  proof (rule wp_for_loop [where I = "\<lambda>pre _. ?I pre"])
    fix pre i post and \<sigma>1 :: "('tx, 's, 'w) scan_state" and u :: unit
    assume I: "?I pre \<sigma>1"
    then show "wp (save_invoice S i u) (\<lambda>_. ?I (pre @ [i])) (\<lambda>e _. e = Blocked) \<sigma>1"
      using wp_save_stuffed [of \<sigma>1 a key i] by (auto elim!: wp_mono)
  qed (use assms in auto)
  then show ?thesis
    unfolding scan_save_def wp_bind by (rule wp_mono) (auto simp: wp_simps flush)
qed

lemma wp_scan_stuffed:
  fixes R :: "('w, 'tx) rpc_ops" and \<sigma> :: "('tx, 's, 'w) scan_state"
  assumes s: "ok (sn_store \<sigma>)" and p: "pub_wf (sn_publisher \<sigma>)" "stuffed (sn_publisher \<sigma>) a"
  shows "wp (scan R S M checker)
    (\<lambda>_ \<sigma>'. \<forall>u \<in> changed (lookup (sn_store \<sigma>)) (lookup (sn_store \<sigma>')). a \<notin> audience (sn_publisher \<sigma>) u)
    (\<lambda>e \<sigma>'. e = Blocked \<or> sn_store \<sigma>' = sn_store \<sigma>) \<sigma>"
proof -
  let ?Q = "\<lambda>\<sigma>' :: ('tx, 's, 'w) scan_state.
    \<forall>u \<in> changed (lookup (sn_store \<sigma>)) (lookup (sn_store \<sigma>')). a \<notin> audience (sn_publisher \<sigma>) u"
  obtain "is" where "is": "st_try_iter S (sn_store \<sigma>) = Inr (map Inr is)" "distinct (map invoice_id is)"
      "\<And>i. i \<in> set is \<longleftrightarrow> lookup (sn_store \<sigma>) (invoice_id i) = Some i"
    using iter [OF s] by blast
  have tail: "wp (bind (scan_prepare S n found) (scan_save S) :: ('tx, 's, 'w, 'e, unit) scan_act)
      (\<lambda>_. ?Q) (\<lambda>e \<sigma>'. e = Blocked \<or> sn_store \<sigma>' = sn_store \<sigma>) \<sigma>1"
    if same: "sn_store \<sigma>1 = sn_store \<sigma>" "sn_publisher \<sigma>1 = sn_publisher \<sigma>" for n found \<sigma>1
  proof -
    let ?H = "bc_height (sn_block_cache \<sigma>1)"
    let ?d = "?H - of_nat n + 1"
    let ?us = "List.map_filter (update_invoice ?H ?d found) is"
    have "wp (scan_save S ?us :: ('tx, 's, 'w, 'e, unit) scan_act)
        (\<lambda>_ _. \<forall>u \<in> set ?us. a \<notin> audience (sn_publisher \<sigma>) u) (\<lambda>e _. e = Blocked) \<sigma>1"
    proof (rule wp_I)
      fix x :: unit and \<sigma>' assume run: "scan_save S ?us \<sigma>1 = (Inr x :: 'e accept_xmr_error fault + unit, \<sigma>')"
      show "\<forall>u \<in> set ?us. a \<notin> audience (sn_publisher \<sigma>) u"
      proof (intro ballI notI)
        fix u assume u: "u \<in> set ?us" "a \<in> audience (sn_publisher \<sigma>) u"
        then obtain key where key: "key = None \<or> key = Some (invoice_id u)" "a \<in> addresses key (sn_publisher \<sigma>1)"
          by (auto simp: audience_def same)
        have "ok (sn_store \<sigma>1)" "pub_wf (sn_publisher \<sigma>1)" "stuffed (sn_publisher \<sigma>1) a"
          using s p by (simp_all add: same)
        from wp_InrD [OF wp_scan_save_stuffed [OF this key(2)] run] u(1) key(1) show False by blast
      qed
    next
      fix e \<sigma>' assume run: "scan_save S ?us \<sigma>1 = (Inl e :: 'e accept_xmr_error fault + unit, \<sigma>')"
      have "ok (sn_store \<sigma>1)" using s by (simp add: same)
      from wp_InlD [OF wp_scan_save [OF this] run] show "e = Blocked" .
    qed
    moreover have eq: "\<sigma>1\<lparr>sn_store := sn_store \<sigma>\<rparr> = \<sigma>1" by (simp add: same(1) [symmetric])
    ultimately have "wp (bind (scan_prepare S n found) (scan_save S) :: ('tx, 's, 'w, 'e, unit) scan_act)
        (\<lambda>_ _. \<forall>u \<in> set ?us. a \<notin> audience (sn_publisher \<sigma>) u) (\<lambda>e _. e = Blocked) \<sigma>1"
      by (simp add: scan_prepare_def wp_simps "is"(1) same eq)
    from wp_conj [OF this wp_scan_write [OF s [folded same(1)] refl, of n found]]
    show ?thesis
      using updates_are_changes(2) [OF "is"(2,3) keyed [OF s] refl, of ?H ?d found]
      by (elim wp_mono) (auto simp: same(1))
  qed
  show ?thesis
    unfolding scan_def wp_bind
    by (rule wp_mono [OF scan_find_keeps])
      (auto simp: wp_bind split: prod.splits intro!: wp_mono [OF tail [unfolded wp_bind]])
qed

end

end
