(* ===== verification/Gateway_Faults.thy ===== *)
theory Gateway_Faults
  imports Interleaving Scan_Faults Scan_Publish
begin

text \<open>
  What the faults of a scan do to a gateway of \<open>src/src/payment_gateway.rs\<close>: a gateway that is run on
  the store of an earlier run counts payments again in the first round of its thread, a full channel
  stops the thread, a panic of the client ends it, and a scan saves an invoice over one that was created
  while it ran.
\<close>

section \<open>The caches of a new scanner\<close>

lemma block_cache_init_chain:
  fixes R :: "('w, 'tx) rpc_ops"
  assumes serves: "serves R W chain H" and valid: "valid_chain chain H" and w: "w \<in> W"
    and h: "h < H" "sz \<le> Suc (unat h)"
  shows "\<exists>w' \<in> W. block_cache_init R sz h H w = (Inr \<lparr>bc_height = h, bc_daemon_height = H,
    bc_blocks = chain_top chain h sz, bc_cache_size = sz\<rparr>, w')"
proof -
  have "wp (for_loop (\<lambda>i blocks. bind (fetch_block R (h - of_nat i)) (\<lambda>b. ret (blocks @ [b]))) [0..<sz] [])
    (\<lambda>bs w'. bs = chain_top chain h sz \<and> w' \<in> W) (\<lambda>_ _. False) w"
  proof (rule wp_for_loop [where I = "\<lambda>pre bs w'. bs = chain_top chain h (length pre) \<and> w' \<in> W"])
    fix pre i post bs w'
    assume upt: "[0..<sz] = pre @ i # post" and I: "bs = chain_top chain h (length pre) \<and> w' \<in> W"
    then have i: "i = length pre" "i < sz" by (auto dest: upt_split)
    then have "i \<le> unat h" using h(2) by linarith
    then have lt: "h - of_nat i < H" using le_less_trans [OF sub_of_nat_le h(1)] by blast
    show "wp (bind (fetch_block R (h - of_nat i)) (\<lambda>b. ret (bs @ [b])))
        (\<lambda>bs w'. bs = chain_top chain h (length (pre @ [i])) \<and> w' \<in> W) (\<lambda>_ _. False) w'"
      unfolding wp_bind wp_ret
      by (rule wp_fetch_served [OF serves valid _ lt]) (use I i in \<open>auto simp: chain_top_def\<close>)
  qed (use w in \<open>auto simp: chain_top_def\<close>)
  from wp_total [OF this] show ?thesis by (auto simp: block_cache_init_def)
qed

text \<open>\<open>RpcClient::txpool\<close> answers too; what it answers is not searched.\<close>

definition serves_txpool :: "('w, 'tx) rpc_ops \<Rightarrow> 'w set \<Rightarrow> bool" where
  "serves_txpool R W \<longleftrightarrow> (\<forall>w \<in> W. \<exists>txs w'. rpc_txpool R w = (Inr txs, w') \<and> w' \<in> W)"

context invoice_storage begin

lemma scanner_new_chain:
  fixes R :: "('w, 'tx) rpc_ops"
  assumes serves: "serves R W chain H" and valid: "valid_chain chain H" and txpool: "serves_txpool R W"
    and w: "w \<in> W" and h: "h < H" "sz \<le> Suc (unat h)"
    and s: "ok s" and some: "lookup s k = Some i"
    and top: "\<And>k i. lookup s k = Some i \<Longrightarrow> current_height i = h + 1"
  shows "\<exists>t w'. scanner_new R S M sz s (hs, w) =
      (Inr (\<lparr>bc_height = h, bc_daemon_height = H, bc_blocks = chain_top chain h sz, bc_cache_size = sz\<rparr>, t),
       ((h, H), w')) \<and> tp_discovered t = [] \<and> w' \<in> W"
proof -
  have heights: "current_height ` tracked s = {h + 1}"
    using some keyed [OF s some] top by (auto simp: tracked_def)
  then have "tracked s \<noteq> {}" by auto
  with heights have lowest: "st_lowest_height S s = Inr (Some (h + 1))"
    by (simp add: lowest_height_tracked [OF s])
  obtain w1 where w1: "w1 \<in> W" "rpc_daemon_height R w = (Inr H, w1)" using serves w by (auto simp: serves_def)
  obtain w2 where w2: "w2 \<in> W" "block_cache_init R sz h H w1 = (Inr \<lparr>bc_height = h, bc_daemon_height = H,
    bc_blocks = chain_top chain h sz, bc_cache_size = sz\<rparr>, w2)"
    using block_cache_init_chain [OF serves valid w1(1) h] by blast
  obtain txs w3 where w3: "w3 \<in> W" "rpc_txpool R w2 = (Inr txs, w3)" using txpool w2(1) by (auto simp: serves_txpool_def)
  from w1 w2 w3 lowest show ?thesis
    by (simp add: scanner_new_def bind_apply storage_result_def Let_def join_acts_def txpool_cache_init_def)
qed

end

section \<open>The first round after a restart\<close>

text \<open>The checker the thread's first scan uses.\<close>

definition first_checker :: "'k checker_ops \<Rightarrow> ('tx, 'k, 's, 'w, 'r, 'e) gateway \<Rightarrow> 'k" where
  "first_checker C g = (let m = sc_highest_minor_index (gw_subaddresses g)
     in update_checker C (gw_major_index g) m (initial_checker C m))"

lemma run_then_scan:
  fixes g :: "('tx, 'k, 's, 'w, 'r, 'e) gateway"
  assumes new: "scanner_new R S M default_block_cache_size (gw_store g)
      ((gw_block_cache_height g, gw_cached_daemon_height g), gw_world g) = (Inr (bc, t), ((h, H), w))"
    and idle: "gw_handle g = None" "\<not> gw_handle_locked g" "gw_commands g = []"
  shows "\<exists>g1 sr. run R S M C None None g = (Inr (), g1) \<and>
    thread_step R S M C g1 = finish g1 sr (scan R S M (first_checker C g)
      \<lparr>sn_store = gw_store g, sn_block_cache = bc, sn_txpool_cache = t, sn_publisher = gw_publisher g,
       sn_first_scan = True, sn_world = w\<rparr>)"
proof -
  let ?m = "sc_highest_minor_index (gw_subaddresses g)"
  define sr where "sr = \<lparr>sr_block_cache = bc, sr_txpool_cache = t, sr_first_scan = True,
    sr_checker = initial_checker C ?m\<rparr>"
  define g1 where "g1 = g\<lparr>gw_block_cache_height := h, gw_cached_daemon_height := H, gw_world := w,
    gw_handle_locked := False, gw_handle := Some Running, gw_scanner := Some sr\<rparr>"
  have "run R S M C None None g = (Inr (), g1)"
    using new idle
    by (simp add: run_def bind_apply lock_handle_def unlock_handle_def gw_get_def gw_put_def
        gw_scanner_new_def g1_def sr_def)
  moreover define sr' where "sr' = sr\<lparr>sr_checker := first_checker C g\<rparr>"
  have "thread_step R S M C g1 = finish g1 sr' (scan R S M (sr_checker sr') (scan_of g1 sr'))"
    by (rule thread_step_finish [where sr = sr]) (simp_all add: g1_def idle sr'_def sr_def first_checker_def Let_def)
  ultimately show ?thesis
    by (intro exI [of _ g1] exI [of _ sr']) (simp add: scan_of_def g1_def sr'_def sr_def)
qed

lemma restart_doubles:
  fixes g :: "('tx, 'k, in_memory, 'w, 'r, in_memory_error) gateway" and h H :: u64
  assumes serves: "serves R W chain H" and valid: "valid_chain chain H"
    and pool: "serves_pool R W (scannable M (first_checker C g) (\<lambda>_. True))" and txpool: "serves_txpool R W"
    and txs: "\<forall>x < H. \<forall>tx \<in> set (cb_txs (chain x)). payable M (first_checker C g) tx"
    and h: "h < H" "9 \<le> unat h"
    and idle: "gw_handle g = None" "\<not> gw_handle_locked g" "gw_commands g = []" and w: "gw_world g \<in> W"
    and s: "in_memory_ok (gw_store g)" and nonempty: "gw_store g \<noteq> []"
    and in_step: "\<forall>k i. map_of (gw_store g) k = Some i \<longrightarrow>
      follows M (first_checker C g) chain h i \<and> current_height i = h + 1"
    and p: "pub_wf (gw_publisher g)" and room: "spare (card (dom (map_of (gw_store g)))) (gw_publisher g)"
  shows "\<exists>g1. run R in_memory M C None None g = (Inr (), g1) \<and>
    (\<forall>k i. map_of (gw_store g) k = Some i \<longrightarrow>
      (\<exists>i'. map_of (gw_store (thread_step R in_memory M C g1)) k = Some i' \<and> totals_ok i' \<and>
        confirmed (mset (transfers i')) = confirmed (mset (transfers i)) +
          chain_transfers (chain_pay M (first_checker C g) chain (index i))
            (max (unat (next_height h H) - 9) (unat (creation_height i))) (Suc (unat (next_height h H)))))"
proof -
  let ?bc = "\<lparr>bc_height = h, bc_daemon_height = H,
    bc_blocks = chain_top chain h default_block_cache_size, bc_cache_size = default_block_cache_size\<rparr>"
  have ten: "0 < default_block_cache_size" "default_block_cache_size \<le> Suc (unat h)"
    using h(2) by (simp_all add: default_block_cache_size_def)
  have "dom (map_of (gw_store g)) \<noteq> {}" using nonempty by (simp add: dom_map_of_conv_image_fst)
  then obtain k0 i0 where ki: "map_of (gw_store g) k0 = Some i0" by blast
  from mem.scanner_new_chain [OF serves valid txpool w h(1) ten(2) s ki] in_step obtain t w' where
    new: "scanner_new R in_memory M default_block_cache_size (gw_store g)
      ((gw_block_cache_height g, gw_cached_daemon_height g), gw_world g) = (Inr (?bc, t), ((h, H), w'))"
    and t: "tp_discovered t = []" "w' \<in> W" by blast
  define \<sigma> where "\<sigma> = \<lparr>sn_store = gw_store g, sn_block_cache = ?bc, sn_txpool_cache = t,
    sn_publisher = gw_publisher g, sn_first_scan = True, sn_world = w'\<rparr>"
  have \<sigma>: "sn_store \<sigma> = gw_store g" "sn_block_cache \<sigma> = ?bc" "sn_publisher \<sigma> = gw_publisher g"
    "sn_first_scan \<sigma>" "sn_world \<sigma> \<in> W" "pool_unconfirmed (sn_txpool_cache \<sigma>)"
    using t by (simp_all add: \<sigma>_def pool_unconfirmed_def)
  have ready: "ready_to_scan chain chain H (sn_block_cache \<sigma>)"
    using can_follow_chain_top [OF valid h(1) ten, of ?bc] by (simp add: ready_to_scan_def \<sigma>)
  have step: "follows M (first_checker C g) chain (bc_height (sn_block_cache \<sigma>)) i"
    if "map_of (sn_store \<sigma>) k = Some i" for k i using in_step that by (simp add: \<sigma>)
  have room': "spare (0 + card (dom (map_of (sn_store \<sigma>)))) (sn_publisher \<sigma>)" using room by (simp add: \<sigma>)
  let ?twice = "\<lambda>\<sigma>' :: ('tx, in_memory, 'w) scan_state. \<forall>k i. map_of (gw_store g) k = Some i \<longrightarrow>
      (\<exists>i'. map_of (sn_store \<sigma>') k = Some i' \<and> totals_ok i' \<and> confirmed (mset (transfers i')) =
        confirmed (mset (transfers i)) + chain_transfers (chain_pay M (first_checker C g) chain (index i))
          (max (unat (next_height h H) - 9) (unat (creation_height i))) (Suc (unat (next_height h H))))"
  have ok: "in_memory_ok (sn_store \<sigma>)" "pub_wf (sn_publisher \<sigma>)" "map_of (sn_store \<sigma>) k0 = Some i0"
    using s p ki by (simp_all add: \<sigma>)
  note scan = mem.wp_first_scan [OF serves valid pool txs ok(1) \<sigma>(5,4,6) ready step ok(3)]
  have "wp (scan R in_memory M (first_checker C g)) (\<lambda>_ _. True) (\<lambda>_ _. False) \<sigma>"
    by (rule wp_mono [OF wp_conj [OF scan mem.wp_scan_spare [OF ok(1,2) room']]]) auto
  from wp_total [OF this] obtain \<sigma>' where run: "scan R in_memory M (first_checker C g) \<sigma> = (Inr (), \<sigma>')" by auto
  have "totals_ok i'" if i': "map_of (sn_store \<sigma>') k = Some i'" for k i'
  proof -
    from wp_InrD [OF mem.wp_scan_amends [OF ok(1)] run] i'
    obtain i where i: "map_of (sn_store \<sigma>) k = Some i" "rescanned i i'" by (auto dest: amends_Some)
    with step [OF i(1)] show ?thesis by (simp add: rescanned_def follows_def)
  qed
  with wp_InrD [OF scan run] have twice: "?twice \<sigma>'"
    by (fastforce simp: \<sigma> default_block_cache_size_def)
  from run_then_scan [OF new idle, of C, folded \<sigma>_def] obtain g1 sr where
    "run R in_memory M C None None g = (Inr (), g1)" "thread_step R in_memory M C g1 = finish g1 sr (Inr (), \<sigma>')"
    unfolding run by blast
  with twice show ?thesis by (auto simp: finish_def after_scan_def)
qed

section \<open>A thread that waits for a channel\<close>

lemma thread_stuck:
  fixes g :: "('tx, 'k, in_memory, 'w, 'r, in_memory_error) gateway"
  assumes s: "in_memory_ok (gw_store g)" and p: "pub_wf (gw_publisher g)" "stuffed (gw_publisher g) a"
    and u: "u \<in> changed (map_of (gw_store g)) (map_of (gw_store (thread_step R in_memory M C g)))"
      "a \<in> audience (gw_publisher g) u"
  shows "gw_handle (thread_step R in_memory M C g) = Some Stuck"
proof -
  have "thread_step R in_memory M C g \<noteq> g" using u(1) by (auto simp: changed_def)
  moreover obtain sr where run: "gw_handle g = Some Running" "gw_scanner g = Some sr"
    using u(1) by (auto simp: changed_def thread_step_def split: option.splits thread.splits)
  moreover have none: "gw_commands g = []"
    using u(1) run by (auto simp: changed_def thread_step_def split: list.splits message_to_scanner.splits)
  define sr' where "sr' = sr\<lparr>sr_checker := update_checker C (gw_major_index g)
    (sc_highest_minor_index (gw_subaddresses g)) (sr_checker sr)\<rparr>"
  let ?\<sigma> = "scan_of g sr'"
  obtain r \<sigma>' where scan: "scan R in_memory M (sr_checker sr') ?\<sigma> = (r, \<sigma>')" by fastforce
  have step: "thread_step R in_memory M C g = finish g sr' (r, \<sigma>')"
    using thread_step_finish [OF run none sr'_def] scan by simp
  have \<sigma>: "sn_store ?\<sigma> = gw_store g" "sn_publisher ?\<sigma> = gw_publisher g" by (simp_all add: scan_of_def)
  have ch: "u \<in> changed (map_of (gw_store g)) (map_of (sn_store \<sigma>'))"
    using u(1) unfolding step by simp
  note stuffed = mem.wp_scan_stuffed [of ?\<sigma> a R M "sr_checker sr'", unfolded \<sigma>, OF s p]
  show ?thesis
  proof (cases r)
    case (Inl e)
    have "sn_store \<sigma>' \<noteq> gw_store g" using ch by (auto simp: changed_def)
    with wp_InlD [OF stuffed scan [unfolded Inl]] have "e = Blocked" by blast
    then show ?thesis by (simp add: step Inl finish_def)
  next
    case (Inr x)
    with wp_InrD [OF stuffed scan [unfolded Inr]] ch u(2) show ?thesis by blast
  qed
qed

text \<open>It makes no further step, and \<open>stop\<close> waits for it for ever.\<close>

lemma stuck_thread:
  assumes "gw_handle g = Some Stuck"
  shows "thread_step R S M C g = g" and "fst (gateway_stop R' S' M' C' g) = Inl Blocked"
  using assms
  by (simp_all add: thread_step_def gateway_stop_def bind_apply lock_handle_def take_handle_def
      release_after_def gw_put_def join_thread_def Let_def)

section \<open>A panic of the client\<close>

text \<open>A panic in the request for the next block ends the thread.\<close>

lemma client_panic_ends_thread:
  fixes g :: "('tx, 'k, in_memory, 'w, 'r, in_memory_error) gateway"
  assumes run: "gw_handle g = Some Running" "gw_scanner g = Some sr" "gw_commands g = []"
    and store: "gw_store g \<noteq> []"
    and height: "rpc_daemon_height R (gw_world g) = (Inr H, w)" "bc_height (sr_block_cache sr) < H - 1"
    and panic: "rpc_block R (bc_height (sr_block_cache sr) + 1) w = (Inl Crashed, w')"
  shows "gw_handle (thread_step R in_memory M C g) = Some Panicked"
proof -
  define sr' where "sr' = sr\<lparr>sr_checker := update_checker C (gw_major_index g)
    (sc_highest_minor_index (gw_subaddresses g)) (sr_checker sr)\<rparr>"
  have "st_is_empty in_memory (gw_store g) = Inr False"
    using store by (cases "gw_store g") (auto simp: in_memory_def in_memory_defs default_is_empty_def)
  moreover have "block_cache_update R (sr_block_cache sr, gw_world g) =
      (Inl Panic :: in_memory_error accept_xmr_error fault + nat,
       ((sr_block_cache sr)\<lparr>bc_daemon_height := H\<rparr>, w'))"
    using height panic by (simp add: block_cache_update_def fetch_block_def bind_apply)
  ultimately have "fst (scan R in_memory M (sr_checker sr') (scan_of g sr')) =
      (Inl Panic :: in_memory_error accept_xmr_error fault + unit)"
    by (simp add: scan_def scan_find_def update_caches_def bind_apply on_store_def query_def
        storage_result_def on_block_cache_def scan_of_def sr'_def)
  then show ?thesis
    by (auto simp: thread_step_finish [OF run sr'_def] finish_def split: prod.splits sum.splits)
qed

section \<open>A late save\<close>

lemma phase_step_save_store:
  fixes g :: "('tx, 'k, in_memory, 'w, 'r, in_memory_error) gateway"
  assumes "gw_handle g = Some Running" and "gw_scanner g = Some sr" and "in_memory_ok (gw_store g)"
  shows "map_of (gw_store (fst (phase_step R in_memory M C (g, Saving (i # is))))) =
    (if map_of (gw_store g) (invoice_id i) = None then map_of (gw_store g)
     else (map_of (gw_store g))(invoice_id i \<mapsto> i))"
proof -
  from mem.update [OF assms(3), of i] obtain s' where
    "st_update in_memory i (gw_store g) = (Inr (map_of (gw_store g) (invoice_id i)), s')"
    "map_of s' = (if map_of (gw_store g) (invoice_id i) = None then map_of (gw_store g)
     else (map_of (gw_store g))(invoice_id i \<mapsto> i))" by blast
  then show ?thesis
    using assms(1,2)
    by (auto simp: phase_step_def scan_part_def bind_apply save_invoice_def scan_of_def on_publisher_def
        after_scan_def split: prod.splits sum.splits)
qed

lemma late_save_of:
  fixes g :: "('tx, 'k, in_memory, 'w, 'r, in_memory_error) gateway"
  assumes inv: "gw_inv addr g" and run: "gw_handle g = Some Running" "gw_scanner g = Some sr"
    and draw: "draw gen_range addr (gw_subaddresses g) =
      (Inr (index j, a) :: in_memory_error accept_xmr_error fault + _, c)"
    and height: "gw_cached_daemon_height g = creation_height j"
  shows "\<exists>g'. new_invoice in_memory gen_range addr piconeros confs expiration desc g =
      (Inr (invoice_id j), g') \<and>
    map_of (gw_store g') (invoice_id j) =
      Some (invoice_new (addr (index j)) (index j) (creation_height j) piconeros confs expiration desc) \<and>
    map_of (gw_store (fst (phase_step R in_memory M C (g', Saving (j # is))))) (invoice_id j) = Some j"
proof -
  from new_invoice_result [OF inv draw, of piconeros confs expiration desc] obtain g' where new:
    "new_invoice in_memory gen_range addr piconeros confs expiration desc g = (Inr (invoice_id j), g')"
    "map_of (gw_store g') (invoice_id j) =
      Some (invoice_new (addr (index j)) (index j) (creation_height j) piconeros confs expiration desc)"
    by (auto simp: height invoice_id_def)
  have same: "gw_handle g' = Some Running" "gw_scanner g' = Some sr"
    using new(1) run
    by (auto simp: new_invoice_def gw_on_pool_def gw_get_def gw_on_store_def gw_on_publisher_def
        bind_apply Let_def split: prod.splits sum.splits)
  have "in_memory_ok (gw_store g')"
    using gw_inv_new_invoice [OF inv new(1)] by (auto simp: gw_inv_separated intro: separated_store)
  from phase_step_save_store [OF same this] new show ?thesis by (auto intro: exI [of _ g'])
qed

text \<open>The invoices a scan has read and is about to save are refreshed stored invoices.\<close>

lemma phase_step_read:
  fixes g :: "('tx, 'k, in_memory, 'w, 'r, in_memory_error) gateway"
  assumes s: "in_memory_ok (gw_store g)"
    and read: "phase_step R in_memory M C (g, Found n found) = (g1, Saving us)"
  shows "gw_handle g1 = Some Running" and "gw_scanner g1 \<noteq> None" and "gw_store g1 = gw_store g"
    and "j \<in> set us \<Longrightarrow> \<exists>i. map_of (gw_store g) (invoice_id j) = Some i \<and> same_request i j"
proof -
  obtain sr where run: "gw_handle g = Some Running" "gw_scanner g = Some sr"
    using read by (auto simp: phase_step_def split: option.splits thread.splits)
  obtain "is" where "is": "st_try_iter in_memory (gw_store g) = Inr (map Inr is)"
      "\<And>i. i \<in> set is \<longleftrightarrow> map_of (gw_store g) (invoice_id i) = Some i"
    using mem.iter [OF s] by blast
  let ?h = "bc_height (sr_block_cache sr)"
  let ?us = "List.map_filter (update_invoice ?h (?h - of_nat n + 1) found) is"
  have prep: "scan_prepare in_memory n found (scan_of g sr) =
      (Inr ?us :: in_memory_error accept_xmr_error fault + invoice list, scan_of g sr)"
    by (simp add: scan_prepare_def bind_apply get_scan_def on_store_def query_def storage_result_def "is"(1)
        scan_of_def)
  then have eq: "(g1, Saving us) = (after_scan (scan_of g sr) sr g, Saving ?us)"
    using read by (simp add: phase_step_def run scan_part_def bind_apply)
  then show "gw_handle g1 = Some Running" "gw_scanner g1 \<noteq> None" "gw_store g1 = gw_store g"
    using run by (simp_all add: scan_of_def after_scan_def)
  assume "j \<in> set us"
  with eq obtain i where i: "i \<in> set is" "update_invoice ?h (?h - of_nat n + 1) found i = Some j"
    by (auto simp: List.map_filter_def)
  then have j: "j = refresh ?h (?h - of_nat n + 1) found i" by (simp add: refresh_def)
  with i(1) "is"(2) show "\<exists>i. map_of (gw_store g) (invoice_id j) = Some i \<and> same_request i j"
    using rescanned_refresh [of i ?h "?h - of_nat n + 1" found] by (auto simp: rescanned_def)
qed

lemma late_save:
  fixes g :: "('tx, 'k, in_memory, 'w, 'r, in_memory_error) gateway"
  assumes inv: "gw_inv addr g"
    and read: "phase_step R in_memory M C (g, Found n found) = (g1, Saving (j # js))"
    and gone: "remove_invoice in_memory (invoice_id j) g1 = (r, g2)"
    and draw: "draw gen_range addr (gw_subaddresses g2) =
      (Inr (index j, a) :: in_memory_error accept_xmr_error fault + _, c)"
    and height: "gw_cached_daemon_height g2 = creation_height j"
  shows "\<exists>i g3. map_of (gw_store g) (invoice_id j) = Some i \<and> same_request i j \<and> r = Inr (Some i) \<and>
    new_invoice in_memory gen_range addr piconeros confs expiration desc g2 = (Inr (invoice_id j), g3) \<and>
    map_of (gw_store g3) (invoice_id j) =
      Some (invoice_new (addr (index j)) (index j) (creation_height j) piconeros confs expiration desc) \<and>
    map_of (gw_store (fst (phase_step R in_memory M C (g3, Saving (j # js))))) (invoice_id j) = Some j"
proof -
  have s: "in_memory_ok (gw_store g)" using inv by (auto simp: gw_inv_separated intro: separated_store)
  note rd = phase_step_read [OF s read]
  from rd(4) [of j] obtain i where i: "map_of (gw_store g) (invoice_id j) = Some i" "same_request i j" by auto
  have inv1: "gw_inv addr g1" using gw_inv_phase_step [OF inv _ read] by simp
  from remove_invoice_result [OF inv1, of "invoice_id j"] gone rd(3) i(1) have r: "r = Inr (Some i)" by auto
  have inv2: "gw_inv addr g2" using gw_inv_remove_invoice [OF inv1 gone] by auto
  from rd(2) obtain sr where "gw_scanner g1 = Some sr" by blast
  with gone rd(1) have run2: "gw_handle g2 = Some Running" "gw_scanner g2 = Some sr"
    by (auto simp: remove_invoice_def gw_on_store_def gw_put_def gw_on_publisher_def bind_apply
        split: prod.splits sum.splits option.splits)
  from late_save_of [OF inv2 run2 draw height, of piconeros confs expiration desc R M C js] i r show ?thesis
    by blast
qed

end
