(* ===== verification/Example.thy ===== *)
theory Example
  imports Coins Scan_Confirm Store_Calls Gateway_Faults
begin

text \<open>
  A small wallet and a daemon that serves one short chain, on which the properties are applied:
  one transaction, in block 12, pays 5 to subaddress 0/1.
\<close>

type_synonym example_tx = "nat \<times> owned_output list"

definition ex_index :: sub_index where
  "ex_index = SubIndex 0 1"

definition ex_monero :: "(example_tx, unit) monero_ops" where
  "ex_monero = \<lparr>mo_hash = (\<lambda>tx. of_nat (fst tx)), mo_unlock_time = (\<lambda>_. 0),
     mo_check_outputs = (\<lambda>tx _. Inr (snd tx))\<rparr>"

definition ex_txs :: "u64 \<Rightarrow> example_tx list" where
  "ex_txs h = (if h = 12 then [(1, [\<lparr>oo_sub_index = ex_index, oo_amount = Some 5\<rparr>])] else [])"

definition ex_chain :: "u64 \<Rightarrow> example_tx cached_block" where
  "ex_chain h = (ucast h, h, \<lparr>prev_id = ucast (h - 1), tx_hashes = [ucast h]\<rparr>, ex_txs h)"

definition ex_daemon :: "u64 \<Rightarrow> (unit, example_tx) rpc_ops" where
  "ex_daemon H = \<lparr>rpc_daemon_height = ret H,
     rpc_block = (\<lambda>h. ret (cb_id (ex_chain h), cb_block (ex_chain h))),
     rpc_block_transactions = (\<lambda>b. ret (ex_txs (ucast (hd (tx_hashes b))))),
     rpc_txpool = ret [], rpc_txpool_hashes = ret [], rpc_transactions_by_hashes = (\<lambda>_. ret [])\<rparr>"

definition ex_invoice :: invoice where
  "ex_invoice = invoice_new ''addr'' ex_index 12 5 2 10 ''goods''"

definition ex_scan :: "(example_tx, in_memory, unit) scan_state" where
  "ex_scan = \<lparr>sn_store = [(invoice_id ex_invoice, ex_invoice)],
     sn_block_cache = \<lparr>bc_height = 11, bc_daemon_height = 12, bc_blocks = chain_top ex_chain 11 2,
       bc_cache_size = 2\<rparr>,
     sn_txpool_cache = \<lparr>tp_transactions = [], tp_discovered = []\<rparr>, sn_publisher = publisher_new,
     sn_first_scan = False, sn_world = ()\<rparr>"

lemma ucast_hash [simp]: "ucast (ucast (h :: u64) :: hash) = h"
  by (rule ucast_up_ucast_id) (simp add: is_up_def target_size_def source_size_def word_size)

lemma ex_serves: "serves (ex_daemon H) UNIV ex_chain H"
  by (simp add: serves_def ex_daemon_def ex_chain_def)

lemma ex_valid: "valid_chain ex_chain H"
  by (simp add: valid_chain_def ex_chain_def)

lemma ex_payable: "tx \<in> set (ex_txs h) \<Longrightarrow> payable ex_monero () tx"
  by (auto simp: ex_txs_def payable_def ex_monero_def split: if_splits)

lemma ex_pool: "serves_pool (ex_daemon H) UNIV (scannable ex_monero () (\<lambda>_. True))"
  by (simp add: serves_pool_def ex_daemon_def)

lemma ex_chain_txs [simp]: "cb_txs (ex_chain h) = ex_txs h"
  by (simp add: ex_chain_def)

lemma ex_can_follow: "can_follow ex_chain 14 (sn_block_cache ex_scan)"
  by (rule can_follow_chain_top [OF ex_valid, of 11 14 2]) (simp_all add: ex_scan_def)

lemma ex_ready: "ready_to_scan ex_chain ex_chain 14 (sn_block_cache ex_scan)"
  using ex_can_follow by (simp add: ready_to_scan_def) (simp add: ex_scan_def)

lemma ex_scan_sel [simp]:
  "sn_store ex_scan = [(InvoiceId ex_index 12, ex_invoice)]" "sn_publisher ex_scan = publisher_new"
  "sn_world ex_scan = ()" "sn_first_scan ex_scan = False"
  "bc_height (sn_block_cache ex_scan) = 11" "pool_unconfirmed (sn_txpool_cache ex_scan)"
  by (simp_all add: ex_scan_def ex_invoice_def pool_unconfirmed_def)

lemma ex_store_ok: "in_memory_ok (sn_store ex_scan)"
  by (simp add: in_memory_ok_def bt_wf_def ex_invoice_def)

lemma ex_follows: "follows ex_monero () ex_chain 11 ex_invoice"
  unfolding ex_invoice_def by (rule follows_new) simp

lemma ex_all_payable: "\<forall>x < H. \<forall>tx \<in> set (cb_txs (ex_chain x)). payable ex_monero () tx"
  by (simp add: ex_payable)

lemma ex_tracked:
  "\<forall>k i. map_of (sn_store ex_scan) k = Some i \<longrightarrow>
     follows ex_monero () ex_chain (bc_height (sn_block_cache ex_scan)) i"
  by (auto simp: ex_follows)

lemma ex_next_height [simp]: "next_height (bc_height (sn_block_cache ex_scan)) 14 = 12"
  by (simp add: next_height_def)

lemma ex_ready_premises [simp]:
  "\<not> sn_first_scan ex_scan" "sn_world ex_scan \<in> UNIV" "sn_store ex_scan \<noteq> []"
  "pub_wf (sn_publisher ex_scan)" "spare n (sn_publisher ex_scan)"
  by (simp_all add: pub_wf_new)

text \<open>
  The same wallet as a gateway: the invoice after block 12 has been scanned, a gateway that has just
  been built on a store, with a small pool, and a daemon whose txpool cannot be read.
\<close>

definition ex_paid :: invoice where
  "ex_paid = add_up [Transfer 5 (Some 12)]
     (ex_invoice\<lparr>transfers := [Transfer 5 (Some 12)], current_height := 13\<rparr>)"

definition ex_checker :: "unit checker_ops" where
  "ex_checker = \<lparr>ck_new = (\<lambda>_ _ _ _. ()), ck_table_len = (\<lambda>_. 1000)\<rparr>"

definition ex_address :: "sub_index \<Rightarrow> string" where
  "ex_address x = show_sub_index x"

definition ex_gen_range :: "nat \<Rightarrow> unit \<Rightarrow> nat \<times> unit" where
  "ex_gen_range n g = (0, g)"

definition ex_apart :: invoice where
  "ex_apart = invoice_new (ex_address ex_index) ex_index 12 5 2 10 ''goods''"

definition ex_gateway ::
  "in_memory \<Rightarrow> (example_tx, unit, in_memory, unit, unit, in_memory_error) gateway" where
  "ex_gateway s = \<lparr>gw_world = (), gw_store = s,
     gw_subaddresses = \<lparr>sc_major_index = 0, sc_highest_minor_index = 3,
       sc_available = map (\<lambda>m. (SubIndex 0 m, ex_address (SubIndex 0 m))) [0, 2, 3], sc_rng = ()\<rparr>,
     gw_major_index = 0, gw_block_cache_height = 0, gw_cached_daemon_height = 0,
     gw_publisher = publisher_new, gw_handle = None, gw_handle_locked = False, gw_commands = [],
     gw_scanner = None\<rparr>"

definition ex_no_txpool :: "u64 \<Rightarrow> (unit, example_tx) rpc_ops" where
  "ex_no_txpool H = (ex_daemon H)\<lparr>rpc_txpool_hashes := stop (Failed (Timeout ''txpool''))\<rparr>"

definition ex_running ::
  "in_memory \<Rightarrow> (example_tx, unit, in_memory, unit, unit, in_memory_error) gateway" where
  "ex_running s = (ex_gateway s)\<lparr>gw_handle := Some Running,
     gw_scanner := Some \<lparr>sr_block_cache = sn_block_cache ex_scan,
       sr_txpool_cache = sn_txpool_cache ex_scan, sr_first_scan = False, sr_checker = ()\<rparr>\<rparr>"

lemma ex_pool_ok: "pool_ok ex_address (gw_subaddresses (ex_gateway s))"
  by (auto simp: pool_ok_def beyond_def ex_gateway_def word_less_nat_alt)

lemma ex_gateway_inv: "gw_inv ex_address (ex_gateway [])"
  using ex_pool_ok [of "[]"]
  by (simp add: gw_inv_def gw.separate_def) (simp add: ex_gateway_def in_memory_ok_def bt_wf_def pub_wf_new)

lemma ex_draw:
  "fst (draw ex_gen_range ex_address (gw_subaddresses (ex_gateway s)) :: ('e fault + _) \<times> _) =
     Inr (SubIndex 0 0, ex_address (SubIndex 0 0))"
  by (simp add: draw_def ex_gateway_def ex_gen_range_def remove_random_in_range)

definition ex_store :: in_memory where
  "ex_store = [(InvoiceId ex_index 12, ex_apart)]"

lemma ex_gateway_store_inv: "gw_inv ex_address (ex_gateway ex_store)"
proof -
  have "index ex_apart \<notin> may_draw (gw_subaddresses (ex_gateway ex_store))"
    by (simp add: may_draw_def beyond_def ex_gateway_def ex_apart_def invoice_new_def ex_index_def)
  moreover have "address ex_apart = ex_address (index ex_apart)" "totals_ok ex_apart"
    "in_memory_ok ex_store" by code_simp+
  ultimately show ?thesis
    using ex_pool_ok [of ex_store]
    by (simp add: gw_inv_def gw.separate_def)
      (auto simp: ex_gateway_def ex_store_def pub_wf_new split: if_splits)
qed

text \<open>The same scan with one subscriber to all invoices, and the invoice after a second scan.\<close>

definition ex_scan_subscribed :: "(example_tx, in_memory, unit) scan_state" where
  "ex_scan_subscribed = ex_scan\<lparr>sn_publisher := snd (subscribe_all 7 publisher_new)\<rparr>"

definition ex_confirmed :: invoice where
  "ex_confirmed = ex_paid\<lparr>current_height := 14\<rparr>"

lemma ex_subs_of: "subs_of key (sn_publisher ex_scan_subscribed) = (if key = None then [(7, 0)] else [])"
  by (simp add: ex_scan_subscribed_def subs_of_def subscribe_all_def publisher_new_def
      split: option.splits)

lemma ex_subscribed_queue:
  "length (pb_channels (sn_publisher ex_scan_subscribed)) = 1"
  "queue (sn_publisher ex_scan_subscribed) 0 = []"
  "0 \<in> audience (sn_publisher ex_scan_subscribed) i"
  by (simp_all add: audience_def addresses_def ex_subs_of)
    (simp_all add: queue_def ex_scan_subscribed_def subscribe_all_def publisher_new_def new_channel_def)

lemma ex_subscribed:
  "in_memory_ok (sn_store ex_scan_subscribed)" "pub_wf (sn_publisher ex_scan_subscribed)"
  "all_open (sn_publisher ex_scan_subscribed)"
  "spare (card (dom (map_of (sn_store ex_scan_subscribed)))) (sn_publisher ex_scan_subscribed)"
proof -
  have new: "sn_publisher ex_scan_subscribed = snd (subscribe_all 7 publisher_new)"
    and store: "sn_store ex_scan_subscribed = sn_store ex_scan" by (simp_all add: ex_scan_subscribed_def)
  show "in_memory_ok (sn_store ex_scan_subscribed)" using ex_store_ok store by simp
  show "pub_wf (sn_publisher ex_scan_subscribed)" unfolding new by (rule pub_wf_subscribe_all [OF pub_wf_new])
  show "all_open (sn_publisher ex_scan_subscribed)"
    unfolding all_open_def is_open_def ex_subs_of
    by (simp add: new subscribe_all_def publisher_new_def new_channel_def)
  show "spare (card (dom (map_of (sn_store ex_scan_subscribed)))) (sn_publisher ex_scan_subscribed)"
    unfolding store by (simp add: new spare_def subscribe_all_def publisher_new_def new_channel_def subscription_buffer_len_def)
qed

lemma ex_changed:
  "changed (map_of (sn_store ex_scan_subscribed))
     (map_of (sn_store (snd (scan (ex_daemon 14) in_memory ex_monero () ex_scan_subscribed)))) = {ex_paid}"
proof -
  have "sn_store (snd (scan (ex_daemon 14) in_memory ex_monero () ex_scan_subscribed)) =
      [(InvoiceId ex_index 12, ex_paid)]" by code_simp
  moreover have "sn_store ex_scan_subscribed = [(InvoiceId ex_index 12, ex_invoice)]"
    by (simp add: ex_scan_subscribed_def)
  moreover have "invoice_id ex_paid = InvoiceId ex_index 12" "ex_invoice \<noteq> ex_paid" by code_simp+
  ultimately show ?thesis by (auto simp: changed_def)
qed

lemma ex_two_scans:
  "case for_loop (\<lambda>_ _. scan (ex_daemon 14) in_memory ex_monero ()) [0..<5] () ex_scan of
     (r, \<sigma>') \<Rightarrow> sn_store \<sigma>' = [(InvoiceId ex_index 12, ex_confirmed)]"
  by code_simp

lemma ex_confirmed_asks:
  "(\<Sum>t \<leftarrow> transfers ex_confirmed. unat (t_amount t)) < 2 ^ 64" "0 < amount_requested ex_confirmed"
  "0 < confirmations_required ex_confirmed" "is_confirmed ex_confirmed"
proof -
  have "transfers ex_confirmed = [Transfer 5 (Some 12)]" by code_simp
  then show "(\<Sum>t \<leftarrow> transfers ex_confirmed. unat (t_amount t)) < 2 ^ 64" by simp
  show "0 < amount_requested ex_confirmed" "0 < confirmations_required ex_confirmed" "is_confirmed ex_confirmed"
    by code_simp+
qed

text \<open>A store in which the first hundred subaddresses are all in use.\<close>

definition ex_numbered :: "nat \<Rightarrow> invoice" where
  "ex_numbered m = invoice_new (ex_address (SubIndex 0 (of_nat m))) (SubIndex 0 (of_nat m)) 12 5 2 10 ''goods''"

definition ex_full :: in_memory where
  "ex_full = map (\<lambda>m. (invoice_id (ex_numbered m), ex_numbered m)) [0..<100]"

lemma ex_full_iter: "st_try_iter in_memory ex_full = Inr (map Inr (map ex_numbered [0..<100]))"
  by (simp add: in_memory_def in_memory_defs ex_full_def)

lemma index_numbered: "index ` set (map ex_numbered [0..<100]) = SubIndex 0 ` {m. m \<le> 99}"
proof -
  have "{m :: u32. m \<le> 99} = of_nat ` {0..<100}"
  proof (intro equalityI subsetI)
    fix m :: u32 assume "m \<in> {m. m \<le> 99}"
    then show "m \<in> of_nat ` {0..<100}"
      by (intro image_eqI [of _ _ "unat m"]) (simp_all add: word_le_nat_alt)
  next
    fix m :: u32 assume "m \<in> of_nat ` {0..<100}"
    then obtain n where "m = of_nat n" "n < 100" by auto
    then show "m \<in> {m. m \<le> 99}" by (simp add: word_le_nat_alt unsigned_of_nat take_bit_nat_eq_self)
  qed
  then show ?thesis by (simp add: image_image ex_numbered_def invoice_new_def)
qed

lemma ex_full_highest:
  "max 99 (if map ex_numbered [0..<100] = [] then 0 else minor (Max (index ` set (map ex_numbered [0..<100])))) = (99 :: u32)"
proof -
  have "Max (index ` set (map ex_numbered [0..<100])) \<in> index ` set (map ex_numbered [0..<100])"
    by (rule Max_in) auto
  then have "minor (Max (index ` set (map ex_numbered [0..<100]))) \<le> 99"
    unfolding index_numbered by auto
  then show ?thesis by (simp add: max_absorb1)
qed

lemma ex_full_indices: "{SubIndex 0 m | m. m \<le> (99 :: u32)} - index ` set (map ex_numbered [0..<100]) = {}"
  unfolding index_numbered by blast

text \<open>The daemon whose txpool cannot be read, and the paid invoice against the chain.\<close>

lemma ex_no_txpool_serves: "serves (ex_no_txpool H) UNIV ex_chain H"
  using ex_serves [of H] by (simp add: serves_def ex_no_txpool_def)

lemma ex_no_txpool_fails:
  "\<forall>w \<in> UNIV. \<exists>w' \<in> UNIV. rpc_txpool_hashes (ex_no_txpool H) w = (Inl (Failed (Timeout ''txpool'')), w')"
  by (simp add: ex_no_txpool_def)

lemma ex_ready_13: "ready_to_scan ex_chain ex_chain 13 (sn_block_cache ex_scan)"
proof -
  have "can_follow ex_chain 13 (sn_block_cache ex_scan)"
    by (rule can_follow_chain_top [OF ex_valid, of 11 13 2]) (simp_all add: ex_scan_def)
  then show ?thesis by (simp add: ready_to_scan_def) (simp add: ex_scan_def)
qed

lemma ex_serves_txpool: "serves_txpool (ex_daemon H) UNIV"
  by (simp add: serves_txpool_def ex_daemon_def)

lemma ex_paid_transfers: "transfers ex_paid = [Transfer 5 (Some 12)]"
  by code_simp

lemma ex_paid_sel:
  "index ex_paid = ex_index \<and> creation_height ex_paid = 12 \<and> totals_ok ex_paid \<and>
   current_height ex_paid = 13 \<and> invoice_id ex_paid = InvoiceId ex_index 12"
  by code_simp

lemma ex_chain_pay_12:
  "chain_pay ex_monero () ex_chain ex_index 12 = {#5#}"
  by code_simp

lemma ex_chain_pay_13:
  "chain_pay ex_monero () ex_chain ex_index 13 = {#}"
  by code_simp

lemma ex_upto: "{12..<13} = {12 :: nat}" "{12..<14} = {12, 13 :: nat}"
  by auto

lemma ex_paid_follows: "follows ex_monero () ex_chain 12 ex_paid"
  using ex_paid_sel 
  by (simp add: follows_def ex_paid_transfers ascending_def chain_transfers_def confirmed_def ex_upto ex_chain_pay_12)

text \<open>A running gateway with a subscriber that has left 2048 updates unread.\<close>

definition ex_stuffed ::
  "publisher \<Rightarrow> (example_tx, unit, in_memory, unit, unit, in_memory_error) gateway" where
  "ex_stuffed p = (ex_running [(InvoiceId ex_index 12, ex_invoice)])\<lparr>gw_publisher := p\<rparr>"

definition ex_unread :: publisher where
  "ex_unread = (snd (subscribe_all 7 publisher_new))
     \<lparr>pb_channels := [\<lparr>ch_queue = replicate 2048 ex_invoice, ch_open = True\<rparr>]\<rparr>"

lemma ex_unread: "pub_wf ex_unread" "stuffed ex_unread 0" "0 \<in> audience ex_unread u"
proof -
  show "stuffed ex_unread 0" by (simp add: ex_unread_def stuffed_def subscription_buffer_len_def)
  have "subs_of None ex_unread = [(7, 0)]"
    by (simp add: ex_unread_def subs_of_def subscribe_all_def publisher_new_def)
  then show "0 \<in> audience ex_unread u" by (simp add: audience_def addresses_def)
  have "subs_of key ex_unread = subs_of key (snd (subscribe_all 7 publisher_new))" for key
    by (simp add: ex_unread_def subs_of_def split: option.splits)
  with pub_wf_subscribe_all [OF pub_wf_new, of 7] show "pub_wf ex_unread"
    by (simp add: pub_wf_def) (simp add: ex_unread_def subscribe_all_def publisher_new_def)
qed

lemma ex_stuffed_sel:
  "gw_handle (ex_stuffed p) = Some Running"
  "gw_scanner (ex_stuffed p) = Some \<lparr>sr_block_cache = sn_block_cache ex_scan,
     sr_txpool_cache = sn_txpool_cache ex_scan, sr_first_scan = False, sr_checker = ()\<rparr>"
  "gw_commands (ex_stuffed p) = []" "gw_store (ex_stuffed p) = [(InvoiceId ex_index 12, ex_invoice)]"
  "gw_publisher (ex_stuffed p) = p" "gw_world (ex_stuffed p) = ()"
  by (simp_all add: ex_stuffed_def ex_running_def ex_gateway_def)

text \<open>Whatever becomes of its publication, the next round stores the paid invoice.\<close>

lemma ex_prepared:
  "case bind (scan_find (ex_daemon 14) in_memory ex_monero ())
     (\<lambda>(n, found). scan_prepare in_memory n found) (ex_scan\<lparr>sn_publisher := p\<rparr>) of
   (r, \<sigma>) \<Rightarrow> (case r of Inr us \<Rightarrow> us = [ex_paid] | Inl e \<Rightarrow> False) \<and> sn_store \<sigma> = sn_store ex_scan"
  by code_simp

lemma ex_stuffed_store:
  "gw_store (thread_step (ex_daemon 14) in_memory ex_monero ex_checker (ex_stuffed p)) =
     [(InvoiceId ex_index 12, ex_paid)]"
proof -
  let ?find = "bind (scan_find (ex_daemon 14) in_memory ex_monero ())
     (\<lambda>(n, found). scan_prepare in_memory n found)"
  obtain \<sigma> where find: "?find (ex_scan\<lparr>sn_publisher := p\<rparr>) = (Inr [ex_paid], \<sigma>)"
    "sn_store \<sigma> = sn_store ex_scan"
    using ex_prepared [of p] by (auto split: prod.splits sum.splits)
  have scan: "scan (ex_daemon 14) in_memory ex_monero () \<sigma>0 = bind ?find (scan_save in_memory) \<sigma>0" for \<sigma>0
    by (auto simp: scan_def bind_apply split: prod.splits sum.splits)
  have "st_update in_memory ex_paid [(InvoiceId ex_index 12, ex_invoice)] =
      (Inr (Some ex_invoice), [(InvoiceId ex_index 12, ex_paid)])"
    by code_simp
  then have save: "save_invoice in_memory ex_paid () \<sigma> =
      on_publisher (send_updates ex_paid) (\<sigma>\<lparr>sn_store := [(InvoiceId ex_index 12, ex_paid)]\<rparr>)"
    by (simp add: save_invoice_def find(2))
  let ?sr = "\<lparr>sr_block_cache = sn_block_cache ex_scan, sr_txpool_cache = sn_txpool_cache ex_scan,
    sr_first_scan = False, sr_checker = ()\<rparr>"
  have "scan_of (ex_stuffed p) ?sr = ex_scan\<lparr>sn_publisher := p\<rparr>"
    by (rule scan_state.equality) (simp_all add: scan_of_def ex_stuffed_sel)
  then have run: "thread_step (ex_daemon 14) in_memory ex_monero ex_checker (ex_stuffed p) =
      finish (ex_stuffed p) ?sr (scan (ex_daemon 14) in_memory ex_monero () (ex_scan\<lparr>sn_publisher := p\<rparr>))"
    using thread_step_finish [OF ex_stuffed_sel(1-3), of _ ex_checker p "ex_daemon 14" in_memory ex_monero] by simp
  obtain r \<sigma>' where r: "bind ?find (scan_save in_memory) (ex_scan\<lparr>sn_publisher := p\<rparr>) = (r, \<sigma>')"
    by fastforce
  then have "scan_save in_memory [ex_paid] \<sigma> = (r, \<sigma>')" by (simp add: bind_apply [of ?find] find)
  moreover have "st_flush in_memory x = Inr ()" for x by (simp add: in_memory_def in_memory_defs default_flush_def)
  ultimately have "sn_store \<sigma>' = [(InvoiceId ex_index 12, ex_paid)]"
    by (cases "send_updates ex_paid (sn_publisher \<sigma>) :: (in_memory_error accept_xmr_error fault + unit) \<times> _";
        cases "fst (send_updates ex_paid (sn_publisher \<sigma>) :: (in_memory_error accept_xmr_error fault + unit) \<times> _)")
      (auto simp: bind_apply scan_save_def save on_publisher_def on_store_def query_def storage_result_def)
  then show ?thesis unfolding run scan r by simp
qed
text \<open>
  A gateway built on a stored invoice, whose payment waits in the txpool of a daemon at the height of the
  invoice's creation, and a generator that draws the last subaddress of the pool.
\<close>

definition ex_seen :: invoice where
  "ex_seen = ex_apart\<lparr>current_height := 12\<rparr>"

definition ex_seen_paid :: invoice where
  "ex_seen_paid = add_up [Transfer 5 None] (ex_seen\<lparr>transfers := [Transfer 5 None]\<rparr>)"

definition ex_mempool :: "(unit, example_tx) rpc_ops" where
  "ex_mempool = (ex_daemon 12)\<lparr>rpc_txpool_hashes := ret [1],
     rpc_transactions_by_hashes := (\<lambda>_. ret [(1, [\<lparr>oo_sub_index = ex_index, oo_amount = Some 5\<rparr>])])\<rparr>"

definition ex_last_range :: "nat \<Rightarrow> unit \<Rightarrow> nat \<times> unit" where
  "ex_last_range n g = (n - 1, g)"

definition ex_built ::
  "unit subaddress_cache \<Rightarrow> (example_tx, unit, in_memory, unit, unit, in_memory_error) gateway" where
  "ex_built c = \<lparr>gw_world = (), gw_store = [(InvoiceId ex_index 12, ex_seen)], gw_subaddresses = c,
     gw_major_index = 0, gw_block_cache_height = 0, gw_cached_daemon_height = 0,
     gw_publisher = publisher_new, gw_handle = None, gw_handle_locked = False, gw_commands = [],
     gw_scanner = None\<rparr>"

lemma ex_mid_scan:
  "case run ex_mempool in_memory ex_monero ex_checker None None (ex_built c) of (r, g1) \<Rightarrow>
     case phase_step ex_mempool in_memory ex_monero ex_checker (g1, Idle) of (g, ph) \<Rightarrow>
     (case ph of Found n found \<Rightarrow>
        (let c2 = phase_step ex_mempool in_memory ex_monero ex_checker (g, Found n found) in
           snd c2 = Saving [ex_seen_paid] \<and> gw_store (fst c2) = [(InvoiceId ex_index 12, ex_seen)] \<and>
           gw_subaddresses (fst c2) = c \<and> gw_cached_daemon_height (fst c2) = 12)
      | _ \<Rightarrow> False)"
  by code_simp


lemma ex_redraw:
  assumes "ex_index \<notin> available c"
  shows "\<exists>c'. draw ex_last_range ex_address (subaddress_cache_insert ex_index a c) =
    (Inr (ex_index, a) :: 'e fault + _, c')"
proof -
  let ?c = "subaddress_cache_insert ex_index a c"
  have last: "sc_available ?c = sc_available c @ [(ex_index, a)]"
    using assms by (simp add: subaddress_cache_insert_def update_append_new)
  then show ?thesis
    using remove_random_in_range [of ?c ex_last_range "length (sc_available c)" _ ex_address, where ?'b = 'e]
    by (auto simp: draw_def last ex_last_range_def)
qed

lemma ex_late_history:
  "\<exists>g0 g n found g1 g2 c. good_store ex_address 0 [(InvoiceId ex_index 12, ex_seen)] \<and>
    (gateway_build in_memory ex_address 0 () () [(InvoiceId ex_index 12, ex_seen)] :: _ +
      (example_tx, unit, in_memory, unit, unit, in_memory_error) gateway) = Inr g0 \<and>
    interleaved ex_mempool in_memory ex_monero ex_checker ex_last_range ex_address g0 (g, Found n found) \<and>
    phase_step ex_mempool in_memory ex_monero ex_checker (g, Found n found) = (g1, Saving [ex_seen_paid]) \<and>
    remove_invoice in_memory (invoice_id ex_seen_paid) g1 = (Inr (Some ex_seen), g2) \<and>
    draw ex_last_range ex_address (gw_subaddresses g2) =
      (Inr (index ex_seen_paid, ex_address ex_index) :: in_memory_error accept_xmr_error fault + _, c) \<and>
    gw_cached_daemon_height g2 = creation_height ex_seen_paid"
proof -
  let ?s = "[(InvoiceId ex_index 12, ex_seen)]"
  have good: "good_store ex_address 0 ?s" by code_simp
  have iter: "st_try_iter in_memory ?s = Inr (map Inr [ex_seen])" by (simp add: in_memory_def in_memory_defs)
  have seen: "index ex_seen = ex_index" "address ex_seen = ex_address ex_index" "invoice_id ex_seen_paid = InvoiceId ex_index 12"
    "creation_height ex_seen_paid = 12" "index ex_seen_paid = ex_index" by code_simp+
  obtain c0 where c0: "subaddress_cache_init in_memory ex_address 0 () ?s = Inr c0" "ex_index \<notin> available c0"
    using subaddress_cache_init_eq [OF iter, of ex_address 0 "()"] seen(1) by auto
  have build: "gateway_build in_memory ex_address 0 () () ?s = Inr (ex_built c0)"
    by (simp add: gateway_build_def c0(1) ex_built_def)
  from ex_mid_scan [of c0] obtain r gr g n found g1 where
    run: "run ex_mempool in_memory ex_monero ex_checker None None (ex_built c0) = (r, gr)"
    and find: "phase_step ex_mempool in_memory ex_monero ex_checker (gr, Idle) = (g, Found n found)"
    and read: "phase_step ex_mempool in_memory ex_monero ex_checker (g, Found n found) = (g1, Saving [ex_seen_paid])"
    and g1: "gw_store g1 = ?s" "gw_subaddresses g1 = c0" "gw_cached_daemon_height g1 = 12"
    by (auto simp: Let_def prod_eq_iff split: prod.splits phase.splits)
  have hist: "interleaved ex_mempool in_memory ex_monero ex_checker ex_last_range ex_address (ex_built c0)
      (g, Found n found)"
    using interleaved.thread [OF interleaved.run [OF interleaved.start run]] find by simp
  have "st_remove in_memory (InvoiceId ex_index 12) ?s = (Inr (Some ex_seen), [])" by code_simp
  then obtain g2 where g2: "remove_invoice in_memory (InvoiceId ex_index 12) g1 = (Inr (Some ex_seen), g2)"
    "gw_subaddresses g2 = subaddress_cache_insert ex_index (ex_address ex_index) c0" "gw_cached_daemon_height g2 = 12"
    by (simp add: remove_invoice_def bind_apply gw_on_store_def gw_put_def gw_on_publisher_def g1 seen)
  from ex_redraw [OF c0(2), of "ex_address ex_index"] obtain c where
    "draw ex_last_range ex_address (gw_subaddresses g2) =
      (Inr (ex_index, ex_address ex_index) :: in_memory_error accept_xmr_error fault + _, c)"
    unfolding g2(2) by blast
  with good build hist read g2 seen show ?thesis
    by (intro exI conjI) (assumption | simp)+
qed

end
