(* ===== verification/Authentication.thy ===== *)
theory Authentication
  imports Errors "HOL-Library.Option_ord"
begin

text \<open>
  \<open>src/src/rpc/authentication.rs\<close>: HTTP digest authentication. A challenge is read from the
  \<open>WWW-Authenticate\<close> headers of a response, the best one is remembered, and every later request
  answers it with a fresh request counter.

  MD5, hex encoding, the random bytes, the checks of \<open>HeaderValue\<close> and the unstable sort of the
  choices are arguments. Headers are ASCII strings.
\<close>

section \<open>Strings\<close>

text \<open>\<open>char::is_whitespace\<close> on characters below 256.\<close>

definition is_whitespace :: "char \<Rightarrow> bool" where
  "is_whitespace c \<longleftrightarrow> (of_char c :: nat) \<in> {9, 10, 11, 12, 13, 32, 133, 160}"

definition trim_start_char :: "char \<Rightarrow> string \<Rightarrow> string" where
  "trim_start_char c s = dropWhile (\<lambda>d. d = c) s"

definition trim_end_char :: "char \<Rightarrow> string \<Rightarrow> string" where
  "trim_end_char c s = rev (dropWhile (\<lambda>d. d = c) (rev s))"

definition trim :: "string \<Rightarrow> string" where
  "trim s = rev (dropWhile is_whitespace (rev (dropWhile is_whitespace s)))"

fun split_char :: "char \<Rightarrow> string \<Rightarrow> string list" where
  "split_char c [] = [[]]"
| "split_char c (d # s) =
     (if d = c then [] # split_char c s
      else (case split_char c s of p # ps \<Rightarrow> (d # p) # ps | [] \<Rightarrow> [[d]]))"

text \<open>\<open>str::replace\<close> of a pattern, which is not empty, by the empty string.\<close>

function remove_all :: "string \<Rightarrow> string \<Rightarrow> string" where
  "remove_all p [] = []"
| "remove_all p (c # s) =
     (case strip_prefix p (c # s) of
        None \<Rightarrow> c # remove_all p s
      | Some t \<Rightarrow> if p = [] then c # s else remove_all p t)"
  by pat_completeness auto
termination
proof (relation "measure (\<lambda>(p, s). length s)", goal_cases)
  case (3 p c s t)
  then have "c # s = p @ t" by (simp add: strip_prefix_Some)
  then have "length (c # s) = length p + length t" by (metis length_append)
  with 3 show ?case by (cases p) auto
qed auto

section \<open>Challenges\<close>

datatype qop = QopAuth

datatype algorithm = Md5 | Md5Sess

text \<open>The derived orders: the variants in their order of declaration.\<close>

fun qop_cmp :: "qop \<Rightarrow> qop \<Rightarrow> ordering" where
  "qop_cmp QopAuth QopAuth = Equal"

fun algorithm_cmp :: "algorithm \<Rightarrow> algorithm \<Rightarrow> ordering" where
  "algorithm_cmp Md5 Md5 = Equal"
| "algorithm_cmp Md5 Md5Sess = Less"
| "algorithm_cmp Md5Sess Md5 = Greater"
| "algorithm_cmp Md5Sess Md5Sess = Equal"

instantiation qop :: linorder
begin

definition less_eq_qop :: "qop \<Rightarrow> qop \<Rightarrow> bool" where
  "less_eq_qop a b \<longleftrightarrow> qop_cmp a b \<noteq> Greater"

definition less_qop :: "qop \<Rightarrow> qop \<Rightarrow> bool" where
  "less_qop a b \<longleftrightarrow> qop_cmp a b = Less"

instance
proof
  fix x y z :: qop
  show "x < y \<longleftrightarrow> x \<le> y \<and> \<not> y \<le> x" "x \<le> x" "x \<le> y \<or> y \<le> x"
    "x \<le> y \<Longrightarrow> y \<le> x \<Longrightarrow> x = y" "x \<le> y \<Longrightarrow> y \<le> z \<Longrightarrow> x \<le> z"
    by (cases x; cases y; cases z; simp add: less_eq_qop_def less_qop_def)+
qed

end

instantiation algorithm :: linorder
begin

definition less_eq_algorithm :: "algorithm \<Rightarrow> algorithm \<Rightarrow> bool" where
  "less_eq_algorithm a b \<longleftrightarrow> algorithm_cmp a b \<noteq> Greater"

definition less_algorithm :: "algorithm \<Rightarrow> algorithm \<Rightarrow> bool" where
  "less_algorithm a b \<longleftrightarrow> algorithm_cmp a b = Less"

instance
proof
  fix x y z :: algorithm
  show "x < y \<longleftrightarrow> x \<le> y \<and> \<not> y \<le> x" "x \<le> x" "x \<le> y \<or> y \<le> x"
    "x \<le> y \<Longrightarrow> y \<le> x \<Longrightarrow> x = y" "x \<le> y \<Longrightarrow> y \<le> z \<Longrightarrow> x \<le> z"
    by (cases x; cases y; cases z; simp add: less_eq_algorithm_def less_algorithm_def)+
qed

end

definition is_sess :: "algorithm \<Rightarrow> bool" where
  "is_sess a \<longleftrightarrow> a = Md5Sess"

definition show_qop :: "qop \<Rightarrow> string" where
  "show_qop q = ''auth''"

fun show_algorithm :: "algorithm \<Rightarrow> string" where
  "show_algorithm Md5 = ''MD5''"
| "show_algorithm Md5Sess = ''MD5-sess''"

record auth_params =
  ap_realm :: string
  ap_qop :: "qop list"
  ap_algorithm :: algorithm
  ap_nonce :: string
  ap_opaque :: "string option"

text \<open>\<open>iter().max()\<close>.\<close>

definition max_qop :: "qop list \<Rightarrow> qop option" where
  "max_qop qs = (if qs = [] then None else Some (Max (set qs)))"

definition auth_params_cmp :: "auth_params \<Rightarrow> auth_params \<Rightarrow> ordering" where
  "auth_params_cmp a b =
     (case cmp (max_qop (ap_qop a)) (max_qop (ap_qop b)) of
        Equal \<Rightarrow> cmp (ap_algorithm a) (ap_algorithm b)
      | c \<Rightarrow> c)"

definition auth_params_partial_cmp :: "auth_params \<Rightarrow> auth_params \<Rightarrow> ordering option" where
  "auth_params_partial_cmp a b = Some (auth_params_cmp a b)"

section \<open>Reading a header\<close>

text \<open>
  The loop of \<open>split_header\<close>: position, rest of the header, the two quote flags, the start of the
  current part, and the parts so far. A part is cut out of the whole header.
\<close>

definition header_part :: "string \<Rightarrow> nat \<Rightarrow> nat \<Rightarrow> string" where
  "header_part h a b = trim (trim_start_char CHR '','' (drop a (take b h)))"

fun split_loop ::
  "string \<Rightarrow> nat \<Rightarrow> string \<Rightarrow> bool \<Rightarrow> bool \<Rightarrow> nat \<Rightarrow> string list \<Rightarrow> string list" where
  "split_loop h i [] in_single in_double last_split parts = parts"
| "split_loop h i (c # rest) in_single in_double last_split parts =
     (let cut = (c = CHR '','' \<and> \<not> in_single \<and> \<not> in_double);
          in_single' = (if c = apostrophe then \<not> in_single else in_single);
          in_double' = (if c = quote then \<not> in_double else in_double);
          parts' = (if cut then parts @ [header_part h last_split i] else parts);
          last_split' = (if cut then i else last_split);
          parts'' = (if rest = [] then parts' @ [header_part h last_split' (length h)] else parts')
      in split_loop h (Suc i) rest in_single' in_double' last_split' parts'')"

definition split_header :: "string \<Rightarrow> string list" where
  "split_header h = split_loop h 0 h False False 0 []"

fun find_string_value :: "string list \<Rightarrow> string \<Rightarrow> string option" where
  "find_string_value [] field = None"
| "find_string_value (p # parts) field =
     (if strip_prefix field p \<noteq> None
      then Some (trim_end_char quote (trim_start_char quote (remove_all (field @ ''='') p)))
      else find_string_value parts field)"

definition or_default :: "string option \<Rightarrow> string" where
  "or_default s = (case s of None \<Rightarrow> [] | Some v \<Rightarrow> v)"

definition parse_qop :: "string \<Rightarrow> auth_error + qop" where
  "parse_qop s =
     (let q = trim s in
      if q = [] \<or> q = ''auth'' then Inr QopAuth
      else Inl (InvalidHeader (''unknown QoP directive: '' @ q)))"

definition parse_algorithm :: "string \<Rightarrow> auth_error + algorithm" where
  "parse_algorithm s =
     (let a = trim s in
      if a = [] \<or> a = ''MD5'' then Inr Md5
      else if a = ''MD5-sess'' then Inr Md5Sess
      else Inl (InvalidHeader (''unknown algorithm: '' @ a)))"

definition parse_header :: "string \<Rightarrow> auth_error + auth_params" where
  "parse_header header =
     (let str_params = split_header header;
          realm = or_default (find_string_value str_params ''realm'')
      in case collect_results
           (map parse_qop (split_char CHR '','' (or_default (find_string_value str_params ''qop'')))) of
           Inl e \<Rightarrow> Inl e
         | Inr qops \<Rightarrow>
             (case parse_algorithm (or_default (find_string_value str_params ''algorithm'')) of
                Inl e \<Rightarrow> Inl e
              | Inr algorithm \<Rightarrow>
                  (case find_string_value str_params ''nonce'' of
                     None \<Rightarrow> Inl (InvalidHeader ''no nonce provided'')
                   | Some nonce \<Rightarrow>
                       Inr \<lparr>ap_realm = realm, ap_qop = qops, ap_algorithm = algorithm,
                            ap_nonce = nonce,
                            ap_opaque = find_string_value str_params ''opaque''\<rparr>)))"

section \<open>Answering a challenge\<close>

type_synonym bytes = "8 word list"

text \<open>
  The other crates: MD5, \<open>hex::encode\<close>, 16 random bytes, \<open>HeaderValue::from_str\<close>, which accepts a
  value or fails with a message, and \<open>sort_unstable\<close>.
\<close>

record 'r auth_ops =
  ao_md5 :: "bytes \<Rightarrow> bytes"
  ao_hex :: "bytes \<Rightarrow> string"
  ao_fill :: "'r \<Rightarrow> bytes \<times> 'r"
  ao_header_value :: "string \<Rightarrow> string + string"
  ao_sort :: "auth_params list \<Rightarrow> auth_params list"

record 'r auth_info =
  ai_username :: string
  ai_password :: string
  ai_counter :: u32
  ai_last :: "auth_params option"
  ai_rng :: 'r

definition auth_info_new :: "string \<Rightarrow> string \<Rightarrow> 'r \<Rightarrow> 'r auth_info" where
  "auth_info_new username password rng =
     \<lparr>ai_username = username, ai_password = password, ai_counter = 1, ai_last = None, ai_rng = rng\<rparr>"

definition string_bytes :: "string \<Rightarrow> bytes" where
  "string_bytes s = map of_char s"

definition md5_str :: "'r auth_ops \<Rightarrow> string \<Rightarrow> string" where
  "md5_str A s = ao_hex A (ao_md5 A (string_bytes s))"

text \<open>\<open>{:08x}\<close>.\<close>

definition hex_digit :: "nat \<Rightarrow> char" where
  "hex_digit d = (if d < 10 then char_of (48 + d) else char_of (87 + d))"

fun hex_fixed :: "nat \<Rightarrow> nat \<Rightarrow> string" where
  "hex_fixed 0 n = []"
| "hex_fixed (Suc k) n = hex_fixed k (n div 16) @ [hex_digit (n mod 16)]"

definition show_counter :: "u32 \<Rightarrow> string" where
  "show_counter n = hex_fixed 8 (unat n)"

definition digest_response ::
  "'r auth_ops \<Rightarrow> string \<Rightarrow> string \<Rightarrow> auth_params \<Rightarrow> qop \<Rightarrow> string \<Rightarrow> string \<Rightarrow> string \<Rightarrow> string \<Rightarrow> string" where
  "digest_response A username password p q path method nc cnonce =
     (let ha1 = md5_str A (username @ '':'' @ ap_realm p @ '':'' @ password);
          ha1' = (if is_sess (ap_algorithm p)
                  then md5_str A (ha1 @ '':'' @ ap_nonce p @ '':'' @ cnonce) else ha1);
          ha2 = md5_str A (method @ '':'' @ path)
      in md5_str A (ha1' @ '':'' @ ap_nonce p @ '':'' @ nc @ '':'' @ cnonce @ '':'' @ show_qop q @
           '':'' @ ha2))"

definition authorization ::
  "'r auth_ops \<Rightarrow> string \<Rightarrow> string \<Rightarrow> auth_params \<Rightarrow> qop \<Rightarrow> string \<Rightarrow> string \<Rightarrow> string \<Rightarrow> string \<Rightarrow> string" where
  "authorization A username password p q path method nc cnonce =
     ''Digest username='' @ quoted username @ '', realm='' @ quoted (ap_realm p) @
     '', nonce='' @ quoted (ap_nonce p) @ '', uri='' @ quoted path @ '', qop='' @ show_qop q @
     '', nc='' @ nc @ '', cnonce='' @ quoted cnonce @ '', response='' @
     quoted (digest_response A username password p q path method nc cnonce) @
     '', algorithm='' @ show_algorithm (ap_algorithm p) @
     (case ap_opaque p of None \<Rightarrow> [] | Some opaque \<Rightarrow> '', opaque='' @ opaque)"

type_synonym ('r, 'a) auth_act = "('r auth_info, auth_error, 'a) act"

definition authenticate :: "'r auth_ops \<Rightarrow> string \<Rightarrow> string \<Rightarrow> ('r, string option) auth_act" where
  "authenticate A path method = (\<lambda>s.
     case ai_last s of
       None \<Rightarrow> (Inr None, s)
     | Some p \<Rightarrow>
         (let (cnonce_bytes, rng) = ao_fill A (ai_rng s);
              s1 = s\<lparr>ai_rng := rng\<rparr>;
              nc = show_counter (ai_counter s1)
          in case max_qop (ap_qop p) of
               None \<Rightarrow> (Inl Unsupported, s1)
             | Some q \<Rightarrow>
                 (let auth_header = authorization A (ai_username s1) (ai_password s1) p q path method
                        nc (ao_hex A cnonce_bytes);
                      s2 = s1\<lparr>ai_counter := ai_counter s1 + 1\<rparr>
                  in case ao_header_value A auth_header of
                       Inl e \<Rightarrow> (Inl (HeaderConstruction e), s2)
                     | Inr v \<Rightarrow> (Inr (Some v), s2))))"

text \<open>
  The headers of a response are given as \<open>to_str\<close> reads them: \<open>None\<close> for one that is not ASCII.
\<close>

definition authenticate_with_resp ::
  "'r auth_ops \<Rightarrow> string option list \<Rightarrow> string \<Rightarrow> string \<Rightarrow> ('r, string) auth_act" where
  "authenticate_with_resp A headers path method =
     (case collect_results (map (\<lambda>h. case h of Some v \<Rightarrow> Inr v
          | None \<Rightarrow> Inl (InvalidHeader ''header could not be parsed to String'')) headers) of
        Inl e \<Rightarrow> stop e
      | Inr authenticate_headers \<Rightarrow>
          (case collect_results (map parse_header
               (List.map_filter (strip_prefix ''Digest '') authenticate_headers)) of
             Inl e \<Rightarrow> stop e
           | Inr auth_choices \<Rightarrow>
               (case ao_sort A auth_choices of
                  [] \<Rightarrow> stop Unsupported
                | c # cs \<Rightarrow>
                    bind (\<lambda>s. (Inr (), s\<lparr>ai_last := Some (last (c # cs)), ai_counter := 1\<rparr>)) (\<lambda>_.
                    bind (authenticate A path method) (\<lambda>v.
                      case v of None \<Rightarrow> stop Unsupported | Some h \<Rightarrow> ret h)))))"

end
