(* ===== verification/Rpc_Client.thy ===== *)
theory Rpc_Client
  imports Authentication Rpc_Ops
begin

text \<open>
  \<open>src/src/rpc/mod.rs\<close>: the client of the monero daemon. Each operation builds a request, sends it
  (with digest authentication when the daemon asks for it) and reads the fields it needs out of the
  JSON answer. The operations as the caches call them are \<open>client_ops\<close>.

  The HTTP client, \<open>serde_json\<close>, \<open>hex\<close> and the decoders of the monero crate are the record
  \<open>daemon_ops\<close>. Logging is left out.
\<close>

section \<open>The crates the client calls\<close>

text \<open>A \<open>Duration\<close>, in milliseconds.\<close>

type_synonym duration = nat

record http_request =
  rq_uri :: string
  rq_authorization :: "string option"
  rq_body :: string

text \<open>Of a response: the status, the \<open>WWW-Authenticate\<close> headers and the body, yet to be received.\<close>

record 'b http_response =
  rs_status :: nat
  rs_www_authenticate :: "string option list"
  rs_body :: 'b

datatype send_error = Elapsed string | Hyper string

text \<open>
  \<open>dn_to_bytes\<close> receives a body. \<open>dn_path_and_query\<close> parses the URI of a request, with an error for an invalid one.
  \<open>dn_hash_from_slice\<close> is \<open>None\<close> where \<open>Hash::from_slice\<close> panics. \<open>dn_json_strings\<close> prints a list of
  strings as JSON, and \<open>dn_show_json\<close> prints any value.
\<close>

record ('w, 'b, 'j, 'tx) daemon_ops =
  dn_path_and_query :: "string \<Rightarrow> string + string"
  dn_send :: "duration \<Rightarrow> http_request \<Rightarrow> ('w, send_error, 'b http_response) act"
  dn_to_bytes :: "'b \<Rightarrow> ('w, string, 'b) act"
  dn_json :: "'b \<Rightarrow> string + 'j"
  dn_get :: "'j \<Rightarrow> string \<Rightarrow> 'j"
  dn_as_str :: "'j \<Rightarrow> string option"
  dn_as_array :: "'j \<Rightarrow> 'j list option"
  dn_as_u64 :: "'j \<Rightarrow> u64 option"
  dn_show_json :: "'j \<Rightarrow> string"
  dn_json_strings :: "string list \<Rightarrow> string"
  dn_hex_decode :: "string \<Rightarrow> string + bytes"
  dn_hash_hex :: "hash \<Rightarrow> string"
  dn_hash_from_slice :: "bytes \<Rightarrow> hash option"
  dn_hash :: "bytes \<Rightarrow> string + hash"
  dn_block :: "bytes \<Rightarrow> string + block"
  dn_transaction :: "bytes \<Rightarrow> string + 'tx"

section \<open>The client\<close>

definition max_requested_transactions :: nat where
  "max_requested_transactions = 100"

record 'r rpc_client =
  cl_url :: string
  cl_timeout :: duration
  cl_auth :: "'r auth_info option"

definition rpc_client_new ::
  "string \<Rightarrow> duration \<Rightarrow> string option \<Rightarrow> string option \<Rightarrow> 'r \<Rightarrow> 'r rpc_client" where
  "rpc_client_new url total_timeout username password rng =
     \<lparr>cl_url = url, cl_timeout = total_timeout,
      cl_auth = (if username \<noteq> None \<or> password \<noteq> None
                 then Some (auth_info_new (or_default username) (or_default password) rng)
                 else None)\<rparr>"

type_synonym ('r, 'w, 'a) client_act = "('r rpc_client \<times> 'w, rpc_failure, 'a) act"

text \<open>\<open>?\<close> on a result, with the conversion of its error.\<close>

definition checked :: "('e \<Rightarrow> rpc_error) \<Rightarrow> 'e + 'a \<Rightarrow> ('r, 'w, 'a) client_act" where
  "checked f r = (case r of Inl e \<Rightarrow> stop (Failed (f e)) | Inr x \<Rightarrow> ret x)"

definition expected :: "rpc_error \<Rightarrow> 'a option \<Rightarrow> ('r, 'w, 'a) client_act" where
  "expected e r = (case r of None \<Rightarrow> stop (Failed e) | Some x \<Rightarrow> ret x)"

definition network :: "('e \<Rightarrow> rpc_error) \<Rightarrow> ('w, 'e, 'a) act \<Rightarrow> ('r, 'w, 'a) client_act" where
  "network f m = (\<lambda>(c, w). case m w of
       (Inl e, w') \<Rightarrow> (Inl (Failed (f e)), (c, w'))
     | (Inr x, w') \<Rightarrow> (Inr x, (c, w')))"

text \<open>Work on the locked \<open>auth_info\<close>, or \<open>d\<close> when the client has no credentials.\<close>

definition with_auth :: "rpc_failure + 'a \<Rightarrow> ('r, 'a) auth_act \<Rightarrow> ('r, 'w, 'a) client_act" where
  "with_auth d m = (\<lambda>(c, w). case cl_auth c of
       None \<Rightarrow> (d, (c, w))
     | Some ai \<Rightarrow> (case m ai of
           (Inl e, ai') \<Rightarrow> (Inl (Failed (Auth e)), (c\<lparr>cl_auth := Some ai'\<rparr>, w))
         | (Inr x, ai') \<Rightarrow> (Inr x, (c\<lparr>cl_auth := Some ai'\<rparr>, w))))"

fun send_failed :: "send_error \<Rightarrow> rpc_error" where
  "send_failed (Elapsed m) = Timeout m"
| "send_failed (Hyper m) = Http m"

definition send_request ::
  "('w, 'b, 'j, 'tx) daemon_ops \<Rightarrow> string \<Rightarrow> string \<Rightarrow> string option \<Rightarrow> ('r, 'w, 'b http_response) client_act" where
  "send_request D target body auth_header = (\<lambda>(c, w).
     network send_failed
       (dn_send D (cl_timeout c) \<lparr>rq_uri = target, rq_authorization = auth_header, rq_body = body\<rparr>) (c, w))"

text \<open>A 401 response with a challenge is answered, and the request is sent again.\<close>

definition retry_unauthorized ::
  "('w, 'b, 'j, 'tx) daemon_ops \<Rightarrow> 'r auth_ops \<Rightarrow> string \<Rightarrow> string \<Rightarrow> string \<Rightarrow> 'b http_response \<Rightarrow>
   ('r, 'w, 'b http_response) client_act" where
  "retry_unauthorized D A target path_and_query body response =
     (if rs_status response = 401 \<and> rs_www_authenticate response \<noteq> []
      then bind (with_auth (Inl (Failed (Auth Unauthorized)))
             (authenticate_with_resp A (rs_www_authenticate response) path_and_query ''POST''))
             (\<lambda>auth_header. send_request D target body (Some auth_header))
      else ret response)"

definition read_json ::
  "('w, 'b, 'j, 'tx) daemon_ops \<Rightarrow> 'b http_response \<Rightarrow> ('r, 'w, 'j) client_act" where
  "read_json D response =
     bind (network Http (dn_to_bytes D (rs_body response))) (\<lambda>full_body.
     checked InvalidJson (dn_json D full_body))"

definition request ::
  "('w, 'b, 'j, 'tx) daemon_ops \<Rightarrow> 'r auth_ops \<Rightarrow> string \<Rightarrow> string \<Rightarrow> ('r, 'w, 'j) client_act" where
  "request D A body endpoint = (\<lambda>(c, w).
     (let target = cl_url c @ endpoint in
      bind (checked Request (dn_path_and_query D target)) (\<lambda>path_and_query.
      bind (with_auth (Inr None) (authenticate A path_and_query ''POST'')) (\<lambda>auth_header.
      bind (send_request D target body auth_header) (\<lambda>response.
      bind (retry_unauthorized D A target path_and_query body response) (read_json D))))) (c, w))"

section \<open>Operations\<close>

definition block_request :: "u64 \<Rightarrow> string" where
  "block_request height =
     ''{\"jsonrpc\":\"2.0\",\"id\":\"0\",\"method\":\"get_block\",\"params\":{\"height\":'' @
     show_nat (unat height) @ ''}}''"

definition client_block ::
  "('w, 'b, 'j, 'tx) daemon_ops \<Rightarrow> 'r auth_ops \<Rightarrow> u64 \<Rightarrow> ('r, 'w, hash \<times> block) client_act" where
  "client_block D A height =
     bind (request D A (block_request height) ''json_rpc'') (\<lambda>res.
     bind (expected (MissingData ''{{ result: {{ block_header: {{ hash: \"...\"}} }} }}'')
        (dn_as_str D (dn_get D (dn_get D (dn_get D res ''result'') ''block_header'') ''hash'')))
       (\<lambda>block_hash_str.
     bind (checked HexDecode (dn_hex_decode D block_hash_str)) (\<lambda>block_hash_hex.
     case dn_hash_from_slice D block_hash_hex of
       None \<Rightarrow> stop Crashed
     | Some block_hash \<Rightarrow>
         bind (expected (MissingData ''{{ result: {{ blob: \"...\" }} }}'')
            (dn_as_str D (dn_get D (dn_get D res ''result'') ''blob''))) (\<lambda>block_str.
         bind (checked HexDecode (dn_hex_decode D block_str)) (\<lambda>block_hex.
         bind (checked Serialization (dn_block D block_hex)) (\<lambda>block.
         ret (block_hash, block)))))))"

text \<open>One transaction out of its hex string.\<close>

definition read_transaction ::
  "('w, 'b, 'j, 'tx) daemon_ops \<Rightarrow> string \<Rightarrow> ('r, 'w, 'tx) client_act" where
  "read_transaction D tx_str =
     bind (checked HexDecode (dn_hex_decode D tx_str)) (\<lambda>tx_hex.
     checked Serialization (dn_transaction D tx_hex))"

definition client_txpool ::
  "('w, 'b, 'j, 'tx) daemon_ops \<Rightarrow> 'r auth_ops \<Rightarrow> ('r, 'w, 'tx list) client_act" where
  "client_txpool D A =
     bind (request D A '''' ''get_transaction_pool'') (\<lambda>res.
     case dn_as_array D (dn_get D res ''transactions'') of
       None \<Rightarrow> ret []
     | Some blobs \<Rightarrow>
         for_loop (\<lambda>blob transactions.
           bind (expected (MissingData ''{{ transactions: [ {{ tx_blob: \"...\" }} ] }}'')
              (dn_as_str D (dn_get D blob ''tx_blob''))) (\<lambda>tx_str.
           bind (read_transaction D tx_str) (\<lambda>tx.
           ret (transactions @ [tx])))) blobs [])"

text \<open>The set of hashes as the list of its elements.\<close>

definition client_txpool_hashes ::
  "('w, 'b, 'j, 'tx) daemon_ops \<Rightarrow> 'r auth_ops \<Rightarrow> ('r, 'w, hash list) client_act" where
  "client_txpool_hashes D A =
     bind (request D A '''' ''get_transaction_pool_hashes'') (\<lambda>res.
     case dn_as_array D (dn_get D res ''tx_hashes'') of
       None \<Rightarrow> ret []
     | Some blobs \<Rightarrow>
         for_loop (\<lambda>blob transactions.
           bind (expected (DataType (dn_show_json D blob) ''&str'') (dn_as_str D blob)) (\<lambda>tx_hash_str.
           bind (checked HexDecode (dn_hex_decode D tx_hash_str)) (\<lambda>tx_hash_hex.
           bind (checked Serialization (dn_hash D tx_hash_hex)) (\<lambda>tx_hash.
           ret (if tx_hash \<in> set transactions then transactions else transactions @ [tx_hash])))))
           blobs [])"

definition transactions_request :: "('w, 'b, 'j, 'tx) daemon_ops \<Rightarrow> hash list \<Rightarrow> string" where
  "transactions_request D hashes =
     ''{\"txs_hashes\":'' @ dn_json_strings D (map (dn_hash_hex D) hashes) @ ''}''"

definition request_transactions ::
  "('w, 'b, 'j, 'tx) daemon_ops \<Rightarrow> 'r auth_ops \<Rightarrow> hash list \<Rightarrow> 'tx list \<Rightarrow> ('r, 'w, 'tx list) client_act" where
  "request_transactions D A hashes transactions =
     bind (request D A (transactions_request D hashes) ''get_transactions'') (\<lambda>res.
     bind (expected (MissingData ''{{ txs_as_hex: [...] }}'')
        (dn_as_array D (dn_get D res ''txs_as_hex''))) (\<lambda>hexes.
     for_loop (\<lambda>tx_json transactions.
       bind (expected (DataType (dn_show_json D tx_json) ''&str'') (dn_as_str D tx_json)) (\<lambda>tx_str.
       bind (read_transaction D tx_str) (\<lambda>tx.
       ret (transactions @ [tx])))) hexes transactions))"

text \<open>The loop over the batches, which returns as soon as one is empty.\<close>

fun request_batches ::
  "('w, 'b, 'j, 'tx) daemon_ops \<Rightarrow> 'r auth_ops \<Rightarrow> hash list \<Rightarrow> nat list \<Rightarrow> 'tx list \<Rightarrow>
   ('r, 'w, 'tx list) client_act" where
  "request_batches D A hashes [] transactions = ret transactions"
| "request_batches D A hashes (i # is) transactions =
     (let starting_index = i * max_requested_transactions;
          ending_index = min (max_requested_transactions * (i + 1)) (length hashes)
      in if ending_index = starting_index then ret transactions
         else bind (request_transactions D A
                      (drop starting_index (take ending_index hashes)) transactions)
                (request_batches D A hashes is))"

definition client_transactions_by_hashes ::
  "('w, 'b, 'j, 'tx) daemon_ops \<Rightarrow> 'r auth_ops \<Rightarrow> hash list \<Rightarrow> ('r, 'w, 'tx list) client_act" where
  "client_transactions_by_hashes D A hashes =
     request_batches D A hashes [0..<Suc (length hashes div max_requested_transactions)] []"

definition client_block_transactions ::
  "('w, 'b, 'j, 'tx) daemon_ops \<Rightarrow> 'r auth_ops \<Rightarrow> block \<Rightarrow> ('r, 'w, 'tx list) client_act" where
  "client_block_transactions D A b = client_transactions_by_hashes D A (tx_hashes b)"

definition height_request :: string where
  "height_request = ''{\"jsonrpc\":\"2.0\",\"id\":\"0\",\"method\":\"get_block_count\"}''"

definition client_daemon_height ::
  "('w, 'b, 'j, 'tx) daemon_ops \<Rightarrow> 'r auth_ops \<Rightarrow> ('r, 'w, u64) client_act" where
  "client_daemon_height D A =
     bind (request D A height_request ''json_rpc'') (\<lambda>res.
     expected (MissingData ''{{ result: {{ count: \"...\" }}'')
       (dn_as_u64 D (dn_get D (dn_get D res ''result'') ''count'')))"

text \<open>The client as the caches use it.\<close>

definition client_ops ::
  "('w, 'b, 'j, 'tx) daemon_ops \<Rightarrow> 'r auth_ops \<Rightarrow> ('r rpc_client \<times> 'w, 'tx) rpc_ops" where
  "client_ops D A = \<lparr>rpc_daemon_height = client_daemon_height D A, rpc_block = client_block D A,
     rpc_block_transactions = client_block_transactions D A, rpc_txpool = client_txpool D A,
     rpc_txpool_hashes = client_txpool_hashes D A,
     rpc_transactions_by_hashes = client_transactions_by_hashes D A\<rparr>"

section \<open>The address of the daemon\<close>

definition client_url :: "'r rpc_client \<Rightarrow> string" where
  "client_url c = cl_url c"

end
