(* ===== verification/Challenge.thy ===== *)
theory Challenge
  imports Authentication
begin

text \<open>
  Reading a challenge: \<open>split_header\<close> against the grammar of header fields, and the challenge the
  daemon prints read back by \<open>parse_header\<close>.
\<close>

section \<open>Splitting a header\<close>

text \<open>The parts of a header as a grammar has them: cut at the commas outside quotes.\<close>

fun header_fields :: "bool \<Rightarrow> bool \<Rightarrow> string \<Rightarrow> string list" where
  "header_fields in_single in_double [] = [[]]"
| "header_fields in_single in_double (c # s) =
     (if c = CHR '','' \<and> \<not> in_single \<and> \<not> in_double then [] # header_fields in_single in_double s
      else (case header_fields (in_single \<noteq> (c = apostrophe)) (in_double \<noteq> (c = quote)) s of
              f # fs \<Rightarrow> (c # f) # fs | [] \<Rightarrow> [[c]]))"

lemma fields_Cons: "\<exists>f fs. header_fields sq dq s = f # fs"
  by (cases s) (auto split: list.splits)

lemma split_loop_fields:
  assumes "rest \<noteq> []" and "last_split \<le> length pre" and "header_fields sq dq rest = f # fs"
  shows "split_loop (pre @ rest) (length pre) rest sq dq last_split parts =
    parts @ map (\<lambda>s. trim (trim_start_char CHR '','' s)) ((drop last_split pre @ f) # fs)"
  using assms
proof (induction rest arbitrary: pre sq dq last_split parts f fs)
  case (Cons c s)
  note IH = Cons.IH and last = Cons.prems(2)
  show ?case
  proof (cases "c = CHR '','' \<and> \<not> sq \<and> \<not> dq")
    case True
    then have f: "f = []" "fs = header_fields sq dq s" using Cons.prems(3) by auto
    obtain f1 fs1 where fs1: "header_fields sq dq s = f1 # fs1" using fields_Cons by blast
    have part: "trim_start_char CHR '','' (CHR '','' # g) = trim_start_char CHR '','' g" for g
      by (simp add: trim_start_char_def)
    show ?thesis
    proof (cases s)
      case Nil
      then show ?thesis using True f Cons.prems(2)
        by (simp add: header_part_def part apostrophe_def quote_def)
    next
      case (Cons d s')
      with Cons.IH [of "length pre" "pre @ [c]" False False f1 fs1
          "parts @ [header_part (pre @ c # s) last_split (length pre)]"] True fs1 f Cons.prems(2)
      show ?thesis by (simp add: header_part_def part apostrophe_def quote_def)
    qed
  next
    case False
    let ?sq = "sq \<noteq> (c = apostrophe)" and ?dq = "dq \<noteq> (c = quote)"
    obtain f1 fs1 where f1: "header_fields ?sq ?dq s = f1 # fs1" using fields_Cons by blast
    have f: "f = c # f1" "fs = fs1" using Cons.prems(3) False f1 by (auto split: if_splits)
    have flags: "(if c = apostrophe then \<not> sq else sq) = ?sq" "(if c = quote then \<not> dq else dq) = ?dq"
      by auto
    have cut: "(c = CHR '','' \<and> \<not> sq \<and> \<not> dq) = False" using False by simp
    show ?thesis
    proof (cases s)
      case Nil
      then show ?thesis using False f f1 Cons.prems(2) by (auto simp: header_part_def)
    next
      case Cons
      then have s: "s \<noteq> []" by simp
      have "split_loop (pre @ c # s) (length pre) (c # s) sq dq last_split parts =
          split_loop (pre @ c # s) (Suc (length pre)) s ?sq ?dq last_split parts"
        by (simp only: split_loop.simps(2) Let_def flags cut if_False s)
      also have "\<dots> = parts @ map (\<lambda>s. trim (trim_start_char CHR '','' s))
          ((drop last_split (pre @ [c]) @ f1) # fs1)"
        using IH [OF s _ f1, of last_split "pre @ [c]" parts] last by simp
      finally show ?thesis using f Cons.prems(2) by simp
    qed
  qed
qed simp

lemma fields_no_comma:
  "(\<forall>g \<in> set (tl (header_fields sq dq s)). trim_start_char CHR '','' g = g) \<and>
   (\<not> sq \<longrightarrow> \<not> dq \<longrightarrow>
      trim_start_char CHR '','' (hd (header_fields sq dq s)) = hd (header_fields sq dq s))"
proof (induction s arbitrary: sq dq)
  case (Cons c s)
  obtain f fs where "header_fields (sq \<noteq> (c = apostrophe)) (dq \<noteq> (c = quote)) s = f # fs"
    using fields_Cons by blast
  moreover obtain f' fs' where "header_fields sq dq s = f' # fs'" using fields_Cons by blast
  ultimately show ?case
    using Cons [of sq dq] Cons [of "sq \<noteq> (c = apostrophe)" "dq \<noteq> (c = quote)"]
    by (auto simp: trim_start_char_def)
qed (simp add: trim_start_char_def)

lemma split_header_fields:
  "split_header h = (if h = [] then [] else map trim (header_fields False False h))"
proof (cases "h = []")
  case False
  obtain f fs where f: "header_fields False False h = f # fs" using fields_Cons by blast
  from split_loop_fields [OF False _ this, of 0 "[]" "[]"] fields_no_comma [of False False h] False f
  show ?thesis by (simp add: split_header_def)
qed (simp add: split_header_def)

section \<open>Reading back a printed challenge\<close>

text \<open>A challenge as the daemon prints it.\<close>

definition named :: "string \<Rightarrow> string \<Rightarrow> string" where
  "named f v = f @ ''='' @ quoted v"

definition bare :: "string \<Rightarrow> string \<Rightarrow> string" where
  "bare f v = f @ ''='' @ v"

fun join :: "string list \<Rightarrow> string" where
  "join [] = []"
| "join [p] = p"
| "join (p # ps) = p @ '','' @ join ps"

definition challenge_parts :: "bool \<Rightarrow> auth_params \<Rightarrow> string list" where
  "challenge_parts stale p =
     [named ''qop'' ''auth'', bare ''algorithm'' (show_algorithm (ap_algorithm p)),
      named ''realm'' (ap_realm p), named ''nonce'' (ap_nonce p),
      bare ''stale'' (if stale then ''true'' else ''false'')] @
     (case ap_opaque p of None \<Rightarrow> [] | Some opaque \<Rightarrow> [named ''opaque'' opaque])"

definition challenge :: "bool \<Rightarrow> auth_params \<Rightarrow> string" where
  "challenge stale p = join (challenge_parts stale p)"

text \<open>
  Values that are read back: without quotes, and without the name of their own field followed by an
  equals sign, which the code would cut out of the value.
\<close>

definition plain :: "string \<Rightarrow> string \<Rightarrow> bool" where
  "plain field v \<longleftrightarrow> quote \<notin> set v \<and> apostrophe \<notin> set v \<and>
     remove_all (field @ ''='') (quoted v) = quoted v"

definition plain_params :: "auth_params \<Rightarrow> bool" where
  "plain_params p \<longleftrightarrow> ap_qop p = [QopAuth] \<and> plain ''realm'' (ap_realm p) \<and>
     plain ''nonce'' (ap_nonce p) \<and>
     (case ap_opaque p of None \<Rightarrow> True | Some opaque \<Rightarrow> plain ''opaque'' opaque)"

text \<open>A piece of a header that ends outside quotes and has no comma outside quotes.\<close>

definition balanced :: "string \<Rightarrow> bool" where
  "balanced b \<longleftrightarrow> (\<forall>s f fs. header_fields False False s = f # fs \<longrightarrow>
     header_fields False False (b @ s) = (b @ f) # fs)"

lemma balanced_append: "balanced a \<Longrightarrow> balanced b \<Longrightarrow> balanced (a @ b)"
  by (simp add: balanced_def)

lemma balanced_bare:
  "list_all (\<lambda>c. c \<noteq> CHR '','' \<and> c \<noteq> quote \<and> c \<noteq> apostrophe) b \<Longrightarrow> balanced b"
  by (induction b) (auto simp: balanced_def)

lemma header_fields_in_quotes:
  "quote \<notin> set v \<Longrightarrow> apostrophe \<notin> set v \<Longrightarrow> header_fields False False s = f # fs \<Longrightarrow>
   header_fields False True (v @ quote # s) = (v @ quote # f) # fs"
  by (induction v) (auto simp: quote_def apostrophe_def)

lemma balanced_quoted: "quote \<notin> set v \<Longrightarrow> apostrophe \<notin> set v \<Longrightarrow> balanced (quoted v)"
  unfolding balanced_def quoted_def
  using header_fields_in_quotes [of v] by (auto simp: quote_def apostrophe_def)

lemma header_fields_balanced:
  assumes "balanced b"
  shows "header_fields False False b = [b]"
    and "header_fields False False (b @ CHR '','' # s) = b # header_fields False False s"
  using assms [unfolded balanced_def, rule_format, of "[]" "[]" "[]"]
    assms [unfolded balanced_def, rule_format, of "CHR '','' # s" "[]" "header_fields False False s"]
  by simp_all

lemma unquote [simp]:
  assumes "quote \<notin> set v"
  shows "trim_end_char quote (trim_start_char quote (quoted v)) = v"
proof (cases "v = []")
  case True
  then show ?thesis by (simp add: trim_end_char_def trim_start_char_def quoted_def)
next
  case False
  with assms have "hd v \<noteq> quote" "last v \<noteq> quote" by (auto dest: list.set_sel(1) last_in_set)
  with False have "dropWhile (\<lambda>d. d = quote) (v @ [quote]) = v @ [quote]"
    by (cases v) simp_all
  moreover have "dropWhile (\<lambda>d. d = quote) (rev v) = rev v"
    using False \<open>last v \<noteq> quote\<close> by (cases v rule: rev_cases) simp_all
  ultimately show ?thesis by (simp add: trim_end_char_def trim_start_char_def quoted_def)
qed

lemma trim_field:
  assumes "\<not> is_whitespace c" and "\<not> is_whitespace d"
  shows "trim (c # s @ [d]) = c # s @ [d]"
  using assms by (simp add: trim_def)

lemma trim_named [simp]: "f \<noteq> [] \<Longrightarrow> \<not> is_whitespace (hd f) \<Longrightarrow> trim (named f v) = named f v"
  using trim_field [of "hd f" quote "tl f @ ''='' @ quote # v"]
  by (cases f) (simp_all add: named_def quoted_def is_whitespace_def quote_def)

lemma balanced_named [simp]:
  assumes "list_all (\<lambda>c. c \<noteq> CHR '','' \<and> c \<noteq> quote \<and> c \<noteq> apostrophe) f"
    and "quote \<notin> set v" and "apostrophe \<notin> set v"
  shows "balanced (named f v)"
  unfolding named_def append_assoc [symmetric]
  using assms by (intro balanced_append balanced_bare balanced_quoted)
    (simp_all add: quote_def apostrophe_def)

lemma remove_all_prefix: "p \<noteq> [] \<Longrightarrow> remove_all p (p @ s) = remove_all p s"
proof (cases p)
  case (Cons c q)
  then have "strip_prefix p (c # (q @ s)) = Some s" by (simp add: strip_prefix_Some)
  with Cons show ?thesis by simp
qed simp

lemma find_named: "plain f v \<Longrightarrow> find_string_value (named f v # ps) f = Some v"
  using remove_all_prefix [of "f @ ''=''" "quoted v"] strip_prefix_Some [of f "named f v"]
  by (auto simp: plain_def named_def)

lemma find_other: "strip_prefix f p = None \<Longrightarrow> find_string_value (p # ps) f = find_string_value ps f"
  by simp

lemma header_fields_join:
  "ps \<noteq> [] \<Longrightarrow> list_all balanced ps \<Longrightarrow> header_fields False False (join ps) = ps"
  by (induction ps rule: join.induct) (simp_all add: header_fields_balanced)

lemma bare_parts [simp]:
  "balanced (bare ''algorithm'' (show_algorithm a))"
  "balanced (bare ''stale'' (if stale then ''true'' else ''false''))"
  "trim (bare ''algorithm'' (show_algorithm a)) = bare ''algorithm'' (show_algorithm a)"
  "trim (bare ''stale'' (if stale then ''true'' else ''false'')) =
     bare ''stale'' (if stale then ''true'' else ''false'')"
     apply (cases a; rule balanced_bare; simp add: bare_def quote_def apostrophe_def)
    apply (cases stale; rule balanced_bare; simp add: bare_def quote_def apostrophe_def)
   apply (cases a; hypsubst; code_simp)
  apply (cases stale; simp only: if_True if_False; code_simp)
  done

lemma challenge_fields:
  assumes "plain_params p"
  shows "split_header (challenge stale p) = challenge_parts stale p"
proof -
  have "list_all balanced (challenge_parts stale p)"
    using assms
    by (auto simp: challenge_parts_def plain_params_def plain_def quote_def apostrophe_def
        split: option.splits)
  moreover have "map trim (challenge_parts stale p) = challenge_parts stale p"
    by (auto simp: challenge_parts_def is_whitespace_def split: option.splits)
  moreover have "challenge stale p \<noteq> []"
    by (simp add: challenge_def challenge_parts_def named_def split: option.splits)
  moreover have "challenge_parts stale p \<noteq> []" by (simp add: challenge_parts_def)
  ultimately show ?thesis
    using split_header_fields [of "challenge stale p"] header_fields_join [of "challenge_parts stale p"]
    unfolding challenge_def by simp
qed

lemma find_algorithm:
  "find_string_value (bare ''algorithm'' (show_algorithm a) # ps) ''algorithm'' =
   Some (show_algorithm a)"
proof -
  have "remove_all ''algorithm='' (show_algorithm a) = show_algorithm a"
    by (cases a; hypsubst; code_simp)
  moreover have "trim_end_char quote (trim_start_char quote (show_algorithm a)) = show_algorithm a"
    by (cases a; hypsubst; code_simp)
  ultimately show ?thesis
    using remove_all_prefix [of "''algorithm=''" "show_algorithm a"] by (simp add: bare_def)
qed

lemma parse_show_algorithm: "parse_algorithm (show_algorithm a) = Inr a"
  by (cases a; hypsubst; code_simp)

lemma parse_qops: "collect_results (map parse_qop (split_char CHR '','' ''auth'')) = Inr [QopAuth]"
  by code_simp

lemma other_fields:
  "strip_prefix ''realm'' (named ''qop'' v) = None" "strip_prefix ''nonce'' (named ''qop'' v) = None"
  "strip_prefix ''opaque'' (named ''qop'' v) = None" "strip_prefix ''algorithm'' (named ''qop'' v) = None"
  "strip_prefix ''nonce'' (named ''realm'' v) = None" "strip_prefix ''opaque'' (named ''realm'' v) = None"
  "strip_prefix ''opaque'' (named ''nonce'' v) = None"
  "strip_prefix ''realm'' (bare ''algorithm'' v) = None"
  "strip_prefix ''nonce'' (bare ''algorithm'' v) = None"
  "strip_prefix ''opaque'' (bare ''algorithm'' v) = None"
  "strip_prefix ''opaque'' (bare ''stale'' v) = None"
  by (simp_all add: named_def bare_def)

lemma parse_challenge:
  assumes "plain_params p"
  shows "parse_header (challenge stale p) = Inr p"
proof -
  let ?ps = "challenge_parts stale p"
  note find = challenge_parts_def find_named find_algorithm find_other other_fields
  have "plain ''qop'' ''auth''" by code_simp
  then have "find_string_value ?ps ''qop'' = Some ''auth''"
    by (simp add: find del: find_string_value.simps(2))
  moreover have "find_string_value ?ps ''algorithm'' = Some (show_algorithm (ap_algorithm p))"
    by (simp add: find del: find_string_value.simps(2))
  moreover have "find_string_value ?ps ''realm'' = Some (ap_realm p)"
    "find_string_value ?ps ''nonce'' = Some (ap_nonce p)"
    "find_string_value ?ps ''opaque'' = ap_opaque p"
    using assms by (simp_all add: plain_params_def find del: find_string_value.simps(2) split: option.splits)
  ultimately show ?thesis
    using assms parse_qops
    by (simp add: parse_header_def challenge_fields or_default_def parse_show_algorithm plain_params_def
        del: split_char.simps)
qed

section \<open>Request counters\<close>

lemma hex_digit_inject:
  assumes "a < 16" and "b < 16" and "hex_digit a = hex_digit b"
  shows "a = b"
proof -
  have "list_all (\<lambda>a. list_all (\<lambda>b. hex_digit a = hex_digit b \<longrightarrow> a = b) [0..<16]) [0..<16]"
    by code_simp
  with assms show ?thesis by (simp add: list_all_iff del: upt_rec_numeral)
qed

lemma hex_fixed_inject:
  "a < 16 ^ k \<Longrightarrow> b < 16 ^ k \<Longrightarrow> hex_fixed k a = hex_fixed k b \<Longrightarrow> a = b"
proof (induction k arbitrary: a b)
  case (Suc k)
  then have "a div 16 = b div 16" "hex_digit (a mod 16) = hex_digit (b mod 16)"
    by (auto simp: less_mult_imp_div_less mult.commute)
  then have "a div 16 = b div 16" "a mod 16 = b mod 16"
    using hex_digit_inject [of "a mod 16" "b mod 16"] by simp_all
  then show ?case by (metis div_mult_mod_eq)
qed simp

lemma show_counter_inject: "show_counter a = show_counter b \<Longrightarrow> a = b"
  using hex_fixed_inject [of "unat a" 8 "unat b"] unat_less_32 [of a] unat_less_32 [of b]
  by (simp add: show_counter_def word_unat_eq_iff)

lemma length_hex_fixed [simp]: "length (hex_fixed k n) = k"
  by (induction k arbitrary: n) simp_all

text \<open>The results of several requests in a row; a failed one does not end the series.\<close>

fun answers ::
  "'r auth_ops \<Rightarrow> (string \<times> string) list \<Rightarrow> 'r auth_info \<Rightarrow>
   (auth_error + string option) list \<times> 'r auth_info" where
  "answers A [] s = ([], s)"
| "answers A ((path, verb) # reqs) s =
     (let (r, s') = authenticate A path verb s; (rs, t) = answers A reqs s' in (r # rs, t))"

definition answer ::
  "'r auth_ops \<Rightarrow> 'r auth_info \<Rightarrow> auth_params \<Rightarrow> string \<times> string \<Rightarrow> u32 \<Rightarrow> string \<Rightarrow> auth_error + string option" where
  "answer A s p req n cnonce =
     (case ao_header_value A (authorization A (ai_username s) (ai_password s) p QopAuth
             (fst req) (snd req) (show_counter n) cnonce) of
        Inl e \<Rightarrow> Inl (HeaderConstruction e)
      | Inr v \<Rightarrow> Inr (Some v))"

lemma max_qop_auth: "qs \<noteq> [] \<Longrightarrow> max_qop qs = Some QopAuth"
  using qop.exhaust by (metis max_qop_def)

lemma authenticate_answer:
  assumes "ai_last s = Some p" and "ap_qop p \<noteq> []"
  shows "authenticate A path verb s =
    (answer A s p (path, verb) (ai_counter s) (ao_hex A (fst (ao_fill A (ai_rng s)))),
     s\<lparr>ai_rng := snd (ao_fill A (ai_rng s)), ai_counter := ai_counter s + 1\<rparr>)"
  using assms
  by (simp add: authenticate_def answer_def max_qop_auth split: prod.splits sum.splits)

lemma answers_count_up:
  assumes "ai_last s = Some p" and "ap_qop p \<noteq> []" and "answers A reqs s = (rs, t)"
  shows "\<exists>cnonces. length cnonces = length reqs \<and>
      rs = map (\<lambda>i. answer A s p (reqs ! i) (ai_counter s + of_nat i) (cnonces ! i)) [0..<length reqs] \<and>
      ai_counter t = ai_counter s + of_nat (length reqs) \<and> ai_last t = Some p"
  using assms
proof (induction A reqs s arbitrary: rs t rule: answers.induct)
  case (2 A path verb reqs s)
  let ?c = "ao_hex A (fst (ao_fill A (ai_rng s)))"
  let ?s = "s\<lparr>ai_rng := snd (ao_fill A (ai_rng s)), ai_counter := ai_counter s + 1\<rparr>"
  let ?r = "answer A s p (path, verb) (ai_counter s) ?c"
  have step: "authenticate A path verb s = (?r, ?s)"
    using "2.prems" by (simp add: authenticate_answer)
  obtain rs' where rs: "answers A reqs ?s = (rs', t)" "rs = ?r # rs'"
    using "2.prems"(3) step by (auto split: prod.splits)
  have same: "answer A ?s p = answer A s p" by (simp add: answer_def fun_eq_iff)
  obtain cs where cs: "length cs = length reqs"
    "rs' = map (\<lambda>i. answer A s p (reqs ! i) (ai_counter s + 1 + of_nat i) (cs ! i)) [0..<length reqs]"
    "ai_counter t = ai_counter s + 1 + of_nat (length reqs)" "ai_last t = Some p"
    using "2.IH" [of "(?r, ?s)" ?r ?s rs' t] step rs(1) "2.prems"(1,2) same by auto
  have "[0..<length ((path, verb) # reqs)] = 0 # map Suc [0..<length reqs]"
    by (simp add: map_Suc_upt upt_conv_Cons del: upt_Suc)
  then show ?case
    using rs(2) cs by (intro exI [of _ "?c # cs"]) (simp add: ac_simps comp_def)
qed simp

lemma distinct_counters:
  "n \<le> 2 ^ 32 \<Longrightarrow> distinct (map (\<lambda>i. show_counter (c + of_nat i)) [0..<n])"
proof -
  assume n: "n \<le> 2 ^ 32"
  have "i = j" if "i < n" "j < n" "show_counter (c + of_nat i) = show_counter (c + of_nat j)" for i j
  proof -
    have "unat (of_nat i :: u32) = i" "unat (of_nat j :: u32) = j"
      using that n by (simp_all add: unat_of_nat_32)
    moreover have "(of_nat i :: u32) = of_nat j" using show_counter_inject [OF that(3)] by simp
    ultimately show "i = j" by metis
  qed
  then show ?thesis by (auto simp: distinct_map inj_on_def)
qed

section \<open>The choice of a challenge\<close>

definition sorts :: "'r auth_ops \<Rightarrow> bool" where
  "sorts A \<longleftrightarrow> (\<forall>ps. mset (ao_sort A ps) = mset ps \<and>
     sorted_wrt (\<lambda>a b. auth_params_cmp a b \<noteq> Greater) (ao_sort A ps))"

lemma cmp_refl [simp]: "auth_params_cmp a a = Equal"
  by (simp add: auth_params_cmp_def cmp_def)

lemma last_is_best:
  assumes "sorts A" and "p \<in> set ps"
  shows "auth_params_cmp p (last (ao_sort A ps)) \<noteq> Greater"
proof -
  have s: "sorted_wrt (\<lambda>a b. auth_params_cmp a b \<noteq> Greater) (ao_sort A ps)" "p \<in> set (ao_sort A ps)"
    using assms by (auto simp: sorts_def dest: mset_eq_setD)
  then show ?thesis
    by (cases "ao_sort A ps" rule: rev_cases) (auto simp: sorted_wrt_append)
qed

lemma split_char_Nil [simp]: "split_char c s \<noteq> []"
  by (cases s) (auto split: list.splits)

lemma parse_header_qop: "parse_header h = Inr p \<Longrightarrow> ap_qop p \<noteq> []"
  by (auto simp: parse_header_def Let_def collect_results_Inr_iff split: sum.splits option.splits)

definition digest_headers :: "string list \<Rightarrow> string list" where
  "digest_headers = List.map_filter (strip_prefix ''Digest '')"

lemma show_counter_1: "show_counter 1 = ''00000001''"
  by code_simp

lemma authenticate_with_resp_best:
  assumes sorts: "sorts A" and headers: "headers = map Some vs"
    and choices: "collect_results (map parse_header (digest_headers vs)) = Inr ps" and some: "ps \<noteq> []"
  shows "\<exists>p \<in> set ps. (\<forall>q \<in> set ps. auth_params_cmp q p \<noteq> Greater) \<and>
    (\<exists>cnonce r t. authenticate_with_resp A headers path verb s = (r, t) \<and>
       ai_last t = Some p \<and> ai_counter t = 2 \<and>
       r = (case ao_header_value A (authorization A (ai_username s) (ai_password s) p QopAuth
                path verb ''00000001'' cnonce) of
              Inl e \<Rightarrow> Inl (HeaderConstruction e) | Inr v \<Rightarrow> Inr v))"
proof -
  let ?p = "last (ao_sort A ps)"
  have set: "set (ao_sort A ps) = set ps" using sorts by (auto simp: sorts_def dest: mset_eq_setD)
  then have nonempty: "ao_sort A ps \<noteq> []" using some by auto
  then have p: "?p \<in> set ps" using set last_in_set by blast
  obtain h where "h \<in> set (digest_headers vs)" "parse_header h = Inr ?p"
    using choices p by (force simp: collect_results_Inr_iff map_eq_conv dest: arg_cong [of _ _ set])
  then have qop: "ap_qop ?p \<noteq> []" by (rule_tac parse_header_qop)
  obtain c cs where sorted: "ao_sort A ps = c # cs" using nonempty by (cases "ao_sort A ps") auto
  let ?s = "s\<lparr>ai_last := Some ?p, ai_counter := 1\<rparr>"
  have all: "collect_results (map (\<lambda>h. case h of Some v \<Rightarrow> Inr v
          | None \<Rightarrow> Inl (InvalidHeader ''header could not be parsed to String'')) headers) = Inr vs"
    by (simp add: headers collect_results_Inr_iff)
  have "authenticate A path verb ?s = (answer A ?s ?p (path, verb) 1 (ao_hex A (fst (ao_fill A (ai_rng s)))),
      ?s\<lparr>ai_rng := snd (ao_fill A (ai_rng s)), ai_counter := 2\<rparr>)"
    using authenticate_answer [of ?s ?p A path verb] qop by simp
  then have "\<exists>cnonce r t. authenticate_with_resp A headers path verb s = (r, t) \<and>
       ai_last t = Some ?p \<and> ai_counter t = 2 \<and>
       r = (case ao_header_value A (authorization A (ai_username s) (ai_password s) ?p QopAuth
                path verb ''00000001'' cnonce) of
              Inl e \<Rightarrow> Inl (HeaderConstruction e) | Inr v \<Rightarrow> Inr v)"
    unfolding authenticate_with_resp_def all using choices sorted
    by (auto simp: digest_headers_def bind_apply answer_def show_counter_1 split: sum.split
        intro!: exI [of _ "ao_hex A (fst (ao_fill A (ai_rng s)))"])
  then show ?thesis using p last_is_best [OF sorts] by blast
qed

lemma authenticate_with_resp_refused:
  assumes headers: "headers = map Some vs"
    and "collect_results (map parse_header (digest_headers vs)) = r" and "r = Inl e \<or> r = Inr []"
    and "sorts A"
  shows "authenticate_with_resp A headers path verb s = (Inl (case r of Inl e \<Rightarrow> e | Inr _ \<Rightarrow> Unsupported), s)"
proof -
  have all: "collect_results (map (\<lambda>h. case h of Some v \<Rightarrow> Inr v
          | None \<Rightarrow> Inl (InvalidHeader ''header could not be parsed to String'')) headers) = Inr vs"
    by (simp add: headers collect_results_Inr_iff)
  have "mset (ao_sort A []) = {#}" using assms(4) unfolding sorts_def by (metis mset.simps(1))
  with assms(2,3) show ?thesis
    unfolding authenticate_with_resp_def all by (auto simp: digest_headers_def)
qed

end
