(* ===== verification/Rpc_Facts.thy ===== *)
theory Rpc_Facts
  imports Rpc_Client Challenge Block_Cache
begin

text \<open>
  What the client of \<open>src/src/rpc/mod.rs\<close> makes of a daemon's answers: the fields it reads, the
  batches it asks for, the login, and, put together, that it serves the caches the chain of an
  honest daemon.
\<close>

section \<open>Rules for the parts of an operation\<close>

lemma checked_simps [simp]:
  "checked f (Inr x) s = (Inr x, s)" "checked f (Inl e) s = (Inl (Failed (f e)), s)"
  by (simp_all add: checked_def)

lemma expected_simps [simp]:
  "expected e (Some x) s = (Inr x, s)" "expected e None s = (Inl (Failed e), s)"
  by (simp_all add: expected_def)

lemma network_simps:
  "m w = (Inr x, w') \<Longrightarrow> network f m (c, w) = (Inr x, (c, w'))"
  "m w = (Inl e, w') \<Longrightarrow> network f m (c, w) = (Inl (Failed (f e)), (c, w'))"
  by (simp_all add: network_def)

lemma wp_checked [wp_simps]:
  "wp (checked f r) Q E s = (case r of Inl e \<Rightarrow> E (Failed (f e)) s | Inr x \<Rightarrow> Q x s)"
  by (simp add: checked_def wp_def split: sum.splits)

lemma wp_expected [wp_simps]:
  "wp (expected e r) Q E s = (case r of None \<Rightarrow> E (Failed e) s | Some x \<Rightarrow> Q x s)"
  by (simp add: expected_def wp_def split: option.splits)

lemma wp_network [wp_simps]:
  "wp (network f m) Q E (c, w) = wp m (\<lambda>x w'. Q x (c, w')) (\<lambda>e w'. E (Failed (f e)) (c, w')) w"
  by (auto simp: wp_def network_def split: prod.splits sum.splits)

lemma wp_with_auth [wp_simps]:
  "wp (with_auth d m) Q E (c, w) = (case cl_auth c of
     None \<Rightarrow> (case d of Inl e \<Rightarrow> E e (c, w) | Inr x \<Rightarrow> Q x (c, w))
   | Some ai \<Rightarrow> wp m (\<lambda>x ai'. Q x (c\<lparr>cl_auth := Some ai'\<rparr>, w))
       (\<lambda>e ai'. E (Failed (Auth e)) (c\<lparr>cl_auth := Some ai'\<rparr>, w)) ai)"
  by (auto simp: wp_def with_auth_def split: prod.splits sum.splits option.splits)

lemma wp_any: "(\<And>x s. Q x s) \<Longrightarrow> (\<And>e s. E e s) \<Longrightarrow> wp m Q E s"
  by (auto simp: wp_def split: prod.splits sum.splits)

lemma wp_send_request [wp_simps]:
  "wp (send_request D target body h) Q E (c, w) =
   wp (dn_send D (cl_timeout c) \<lparr>rq_uri = target, rq_authorization = h, rq_body = body\<rparr>)
     (\<lambda>x w'. Q x (c, w')) (\<lambda>e w'. E (Failed (send_failed e)) (c, w')) w"
  by (auto simp: wp_def send_request_def network_def split: prod.splits sum.splits)

subsection \<open>Requests sent\<close>

text \<open>
  A request under a condition on the world that may depend on how many requests have been sent
  since: each attempt moves it on by one, and receiving a body keeps it.
\<close>

definition counts ::
  "('w, 'b, 'j, 'tx) daemon_ops \<Rightarrow> (nat \<Rightarrow> 'w \<Rightarrow> bool) \<Rightarrow> bool" where
  "counts D I \<longleftrightarrow>
     (\<forall>i t rq w. I i w \<longrightarrow> wp (dn_send D t rq) (\<lambda>_. I (Suc i)) (\<lambda>_. I (Suc i)) w) \<and>
     (\<forall>i b w. I i w \<longrightarrow> wp (dn_to_bytes D b) (\<lambda>_. I i) (\<lambda>_. I i) w)"

text \<open>At most \<open>n\<close> requests so far, and no panic.\<close>

abbreviation "sent_ok I n \<equiv> \<lambda>_ s. \<exists>i \<le> (n::nat). I i (snd s)"
abbreviation "sent_err I n \<equiv> \<lambda>e s. e \<noteq> Crashed \<and> (\<exists>i \<le> (n::nat). I i (snd s))"

lemma wp_send_counts:
  assumes "counts D I" and "I i w" and "i < n"
  shows "wp (send_request D target body h) (sent_ok I n) (sent_err I n) (c, w)"
  unfolding wp_send_request
  by (rule wp_mono [where Q = "\<lambda>_. I (Suc i)" and E = "\<lambda>_. I (Suc i)"])
    (use assms in \<open>auto simp: counts_def Suc_le_eq intro: exI [of _ "Suc i"]\<close>)

lemma wp_read_json_counts:
  assumes "counts D I" and "I i w" and "i \<le> n"
  shows "wp (read_json D r) (sent_ok I n) (sent_err I n) (c, w)"
  unfolding read_json_def wp_bind wp_network
  by (rule wp_mono [where Q = "\<lambda>_. I i" and E = "\<lambda>_. I i"])
    (use assms in \<open>auto simp: counts_def wp_checked split: sum.splits\<close>)

lemma wp_with_auth_world:
  assumes "\<And>x ai. Q x (c\<lparr>cl_auth := ai\<rparr>, w)" and "\<And>e ai. e \<noteq> Crashed \<Longrightarrow> E e (c\<lparr>cl_auth := ai\<rparr>, w)"
    and "d \<noteq> Inl Crashed"
  shows "wp (with_auth d m) Q E (c, w)"
proof -
  have "c\<lparr>cl_auth := cl_auth c\<rparr> = c" by simp
  with assms have "cl_auth c = None \<Longrightarrow> Q x (c, w)" "cl_auth c = None \<Longrightarrow> e \<noteq> Crashed \<Longrightarrow> E e (c, w)" for x e
    by metis+
  with assms show ?thesis
    by (cases "cl_auth c"; cases d) (auto simp: wp_with_auth intro!: wp_any)
qed

lemma wp_retry_counts:
  assumes "counts D I" and "I i w" and "i < n"
  shows "wp (retry_unauthorized D A target path body r) (sent_ok I n) (sent_err I n) (c, w)"
  unfolding retry_unauthorized_def wp_if wp_ret wp_bind
  using assms by (auto intro!: wp_with_auth_world wp_send_counts exI [of _ i])

lemma wp_request:
  "wp (request D A body endpoint) Q E (c, w) =
   wp (bind (checked Request (dn_path_and_query D (cl_url c @ endpoint))) (\<lambda>path.
     bind (with_auth (Inr None) (authenticate A path ''POST'')) (\<lambda>h.
     bind (send_request D (cl_url c @ endpoint) body h) (\<lambda>r.
     bind (retry_unauthorized D A (cl_url c @ endpoint) path body r) (read_json D))))) Q E (c, w)"
  by (simp add: wp_def request_def Let_def)

lemma wp_request_counts:
  assumes "counts D I" and "I i w"
  shows "wp (request D A body endpoint) (sent_ok I (i + 2)) (sent_err I (i + 2)) (c, w)"
proof -
  have "wp (retry_unauthorized D A target path body r) (\<lambda>x. wp (read_json D x) (sent_ok I (i + 2)) (sent_err I (i + 2)))
      (sent_err I (i + 2)) s" if "I (Suc i) (snd s)" for target path r s
  proof -
    have "wp (retry_unauthorized D A target path body r) (sent_ok I (i + 2)) (sent_err I (i + 2)) s"
      using wp_retry_counts [OF assms(1) that, of "i + 2" A target path body r "fst s"] by simp
    then show ?thesis
      by (rule wp_mono) (use assms in \<open>auto intro: wp_read_json_counts\<close>)
  qed
  note retry = this
  have "wp (send_request D target body h) (\<lambda>r. wp (retry_unauthorized D A target path body r)
        (\<lambda>x. wp (read_json D x) (sent_ok I (i + 2)) (sent_err I (i + 2))) (sent_err I (i + 2)))
      (sent_err I (i + 2)) (c', w)" for target path h c'
    unfolding wp_send_request
  proof (rule wp_mono)
    show "wp (dn_send D t rq) (\<lambda>_. I (Suc i)) (\<lambda>_. I (Suc i)) w" for t rq
      using assms unfolding counts_def by blast
  qed (rule retry, simp, auto intro: exI [of _ "Suc i"])
  then show ?thesis
    using assms(2) unfolding wp_request wp_bind wp_checked
    by (auto intro!: wp_with_auth_world exI [of _ i] split: sum.splits)
qed

section \<open>Answers\<close>

text \<open>Every request with this body ends in a JSON value with \<open>P\<close>, within the states \<open>S\<close>.\<close>

definition replies ::
  "('w, 'b, 'j, 'tx) daemon_ops \<Rightarrow> 'r auth_ops \<Rightarrow> ('r rpc_client \<times> 'w) set \<Rightarrow>
   string \<Rightarrow> string \<Rightarrow> ('j \<Rightarrow> bool) \<Rightarrow> bool" where
  "replies D A S body endpoint P \<longleftrightarrow>
     (\<forall>s \<in> S. \<exists>j. \<exists>s' \<in> S. request D A body endpoint s = (Inr j, s') \<and> P j)"

definition reads_transaction :: "('w, 'b, 'j, 'tx) daemon_ops \<Rightarrow> 'j \<Rightarrow> 'tx \<Rightarrow> bool" where
  "reads_transaction D j tx \<longleftrightarrow>
     (\<exists>t b. dn_as_str D j = Some t \<and> dn_hex_decode D t = Inr b \<and> dn_transaction D b = Inr tx)"

definition reads_transactions :: "('w, 'b, 'j, 'tx) daemon_ops \<Rightarrow> 'tx list \<Rightarrow> 'j \<Rightarrow> bool" where
  "reads_transactions D txs j \<longleftrightarrow>
     (\<exists>hexes. dn_as_array D (dn_get D j ''txs_as_hex'') = Some hexes \<and>
        list_all2 (reads_transaction D) hexes txs)"

lemma repliesE:
  assumes "replies D A S body endpoint P" and "s \<in> S"
  obtains j s' where "request D A body endpoint s = (Inr j, s')" "s' \<in> S" "P j"
  using assms unfolding replies_def by blast

lemma read_transaction_reads:
  assumes "dn_as_str D j = Some t" and "dn_hex_decode D t = Inr b" and "dn_transaction D b = Inr tx"
  shows "read_transaction D t s = (Inr tx, s)"
  using assms by (simp add: read_transaction_def)

lemma read_loop:
  assumes "list_all2 (reads_transaction D) hexes txs"
  shows "for_loop (\<lambda>tx_json transactions.
       bind (expected (DataType (dn_show_json D tx_json) ''&str'') (dn_as_str D tx_json)) (\<lambda>tx_str.
       bind (read_transaction D tx_str) (\<lambda>tx. ret (transactions @ [tx])))) hexes acc s =
     (Inr (acc @ txs), s)"
  using assms
proof (induction hexes txs arbitrary: acc rule: list_all2_induct)
  case (Cons j hexes tx txs)
  then obtain t b where "dn_as_str D j = Some t" "dn_hex_decode D t = Inr b" "dn_transaction D b = Inr tx"
    unfolding reads_transaction_def by blast
  with Cons.IH show ?case by (simp add: read_transaction_reads)
qed simp

section \<open>Batches\<close>

text \<open>The hashes in the order given, at most 100 at a time.\<close>

function batches :: "hash list \<Rightarrow> hash list list" where
  "batches hs = (if hs = [] then []
     else take max_requested_transactions hs # batches (drop max_requested_transactions hs))"
  by pat_completeness auto
termination by (relation "measure length") (auto simp: max_requested_transactions_def)

declare batches.simps [simp del]

lemma batches_Nil [simp]: "batches [] = []"
  by (simp add: batches.simps)

lemma concat_batches: "concat (map (map f) (batches hs)) = map f hs"
proof (induction hs rule: batches.induct)
  case (1 hs)
  then show ?case
    by (cases "hs = []") (simp_all add: batches.simps [of hs] flip: map_append)
qed

lemma batches_small: "b \<in> set (batches hs) \<Longrightarrow> b \<noteq> [] \<and> length b \<le> 100 \<and> set b \<subseteq> set hs"
proof (induction hs rule: batches.induct)
  case (1 hs)
  show ?case
  proof (cases "hs = []")
    case False
    with "1.prems" have "b = take max_requested_transactions hs \<or>
        b \<in> set (batches (drop max_requested_transactions hs))"
      by (simp add: batches.simps [of hs])
    then show ?thesis
      using "1.IH" [OF False] set_drop_subset [of max_requested_transactions hs] False
      by (auto simp: max_requested_transactions_def dest: in_set_takeD)
  qed (use "1.prems" in simp)
qed

lemma request_transactions_replies:
  assumes "replies D A S (transactions_request D hs) ''get_transactions'' (reads_transactions D txs)"
    and "s \<in> S"
  shows "\<exists>s' \<in> S. request_transactions D A hs acc s = (Inr (acc @ txs), s')"
proof -
  obtain j s' where j: "request D A (transactions_request D hs) ''get_transactions'' s = (Inr j, s')"
    "s' \<in> S" "reads_transactions D txs j"
    using repliesE [OF assms] by blast
  then obtain hexes where "dn_as_array D (dn_get D j ''txs_as_hex'') = Some hexes"
    "list_all2 (reads_transaction D) hexes txs"
    unfolding reads_transactions_def by blast
  with j show ?thesis
    by (intro bexI [of _ s']) (simp_all add: request_transactions_def read_loop)
qed

lemma request_batches_from:
  assumes replies: "\<And>b. b \<in> set (batches hashes) \<Longrightarrow>
      replies D A S (transactions_request D b) ''get_transactions'' (reads_transactions D (found b))"
    and "set (batches (drop (i * 100) hashes)) \<subseteq> set (batches hashes)"
    and "s \<in> S" and "i \<le> Suc (length hashes div 100)"
  shows "\<exists>s' \<in> S. request_batches D A hashes [i..<Suc (length hashes div 100)] acc s =
    (Inr (acc @ concat (map found (batches (drop (i * 100) hashes)))), s')"
  using assms(2-)
proof (induction "Suc (length hashes div 100) - i" arbitrary: i acc s)
  case 0
  then have "length hashes \<le> i * 100"
    using div_mult_mod_eq [of "length hashes" 100] mod_less_divisor [of 100 "length hashes"] by linarith
  with 0 show ?case by simp
next
  case (Suc k)
  let ?rest = "drop (i * 100) hashes"
  have i: "i \<le> length hashes div 100" using Suc.hyps(2) by simp
  then have le: "i * 100 \<le> length hashes" by (simp add: less_eq_div_iff_mult_less_eq)
  have upt: "[i..<Suc (length hashes div 100)] = i # [Suc i..<Suc (length hashes div 100)]"
    using i by (simp add: upt_conv_Cons del: upt_Suc)
  show ?case
  proof (cases "?rest = []")
    case True
    with le have "length hashes = i * 100" by simp
    with Suc.prems(2) True show ?thesis
      unfolding upt by (simp add: max_requested_transactions_def)
  next
    case False
    let ?b = "take 100 ?rest"
    have more: "batches ?rest = ?b # batches (drop (Suc i * 100) hashes)"
      using False by (subst batches.simps) (simp add: max_requested_transactions_def add.commute)
    have slice: "drop (i * 100) (take (min (100 + 100 * i) (length hashes)) hashes) = ?b"
      by (simp add: drop_take min_def algebra_simps)
    have "min (100 * (i + 1)) (length hashes) \<noteq> i * 100" using False by (auto simp: min_def)
    moreover have "?b \<in> set (batches hashes)" using Suc.prems(1) more by simp
    then obtain s1 where s1: "s1 \<in> S"
      "request_transactions D A ?b acc s = (Inr (acc @ found ?b), s1)"
      using request_transactions_replies [OF replies Suc.prems(2)] by blast
    moreover have "k = Suc (length hashes div 100) - Suc i" using Suc.hyps(2) by simp
    from Suc.hyps(1) [OF this _ s1(1), of "acc @ found ?b"]
    obtain s2 where "s2 \<in> S"
      "request_batches D A hashes [Suc i..<Suc (length hashes div 100)] (acc @ found ?b) s1 =
        (Inr ((acc @ found ?b) @ concat (map found (batches (drop (Suc i * 100) hashes)))), s2)"
      using Suc.prems(1) more i by (auto simp del: upt_Suc append_assoc)
    ultimately show ?thesis
      unfolding upt more
      by (intro bexI [of _ s2]) (simp_all add: slice max_requested_transactions_def Let_def del: upt_Suc)
  qed
qed

lemma transactions_by_hashes_batches:
  assumes "\<And>b. b \<in> set (batches hashes) \<Longrightarrow>
      replies D A S (transactions_request D b) ''get_transactions'' (reads_transactions D (found b))"
    and "s \<in> S"
  shows "\<exists>s' \<in> S. client_transactions_by_hashes D A hashes s =
    (Inr (concat (map found (batches hashes))), s')"
  using request_batches_from [OF assms(1), where i = 0 and acc = "[]"] assms(2)
  by (simp add: client_transactions_by_hashes_def max_requested_transactions_def del: upt_Suc)

section \<open>Panics\<close>

abbreviation no_crash :: "('r, 'w, 'a) client_act \<Rightarrow> 'r rpc_client \<times> 'w \<Rightarrow> bool" where
  "no_crash m s \<equiv> wp m (\<lambda>_ _. True) (\<lambda>e _. e \<noteq> Crashed) s"

lemma no_crash_request: "no_crash (request D A body endpoint) s"
proof -
  have "counts D (\<lambda>_ _. True)" by (auto simp: counts_def intro: wp_any)
  then have "wp (request D A body endpoint) (sent_ok (\<lambda>_ _. True) (0 + 2)) (sent_err (\<lambda>_ _. True) (0 + 2))
      (fst s, snd s)"
    by (rule wp_request_counts) simp
  then show ?thesis unfolding prod.collapse by (rule wp_mono) simp_all
qed

lemma no_crash_bind: "no_crash m s \<Longrightarrow> (\<And>x t. no_crash (f x) t) \<Longrightarrow> no_crash (bind m f) s"
  unfolding wp_bind by (rule wp_mono) auto

lemma no_crash_simps [simp]:
  "no_crash (checked f r) s" "no_crash (expected e x) s" "no_crash (ret y) s"
  by (simp_all add: wp_simps split: sum.splits option.splits)

lemma no_crash_loop: "(\<And>i b t. no_crash (f i b) t) \<Longrightarrow> no_crash (for_loop f is b) s"
  by (rule wp_for_loop_inv) auto

lemma no_crash_read_transaction [simp]: "no_crash (read_transaction D t) s"
  unfolding read_transaction_def by (intro no_crash_bind) simp_all

lemma no_crash_daemon_height: "no_crash (client_daemon_height D A) s"
  unfolding client_daemon_height_def by (intro no_crash_bind no_crash_request) simp

lemma no_crash_txpool: "no_crash (client_txpool D A) s"
  unfolding client_txpool_def
  by (intro no_crash_bind no_crash_request) (auto intro!: no_crash_loop no_crash_bind split: option.split)

lemma no_crash_txpool_hashes: "no_crash (client_txpool_hashes D A) s"
  unfolding client_txpool_hashes_def
  by (intro no_crash_bind no_crash_request) (auto intro!: no_crash_loop no_crash_bind split: option.split)

lemma no_crash_batches: "no_crash (request_batches D A hashes is acc) s"
proof (induction "is" arbitrary: acc s)
  case (Cons i "is" acc s)
  have "no_crash (request_transactions D A hs acc) s" for hs acc s
    unfolding request_transactions_def
    by (intro no_crash_bind no_crash_request no_crash_loop) simp_all
  then have "no_crash (bind (request_transactions D A hs acc) (request_batches D A hashes is)) s" for hs
    by (rule no_crash_bind) (rule Cons.IH)
  then show ?case by (simp add: Let_def)
qed simp

text \<open>
  The daemon answers the request for a block, with a hash that decodes from hex to bytes that are not a
  hash: their number is not 32.
\<close>

definition short_hash ::
  "('w, 'b, 'j, 'tx) daemon_ops \<Rightarrow> 'r auth_ops \<Rightarrow> u64 \<Rightarrow> 'r rpc_client \<times> 'w \<Rightarrow> 'r rpc_client \<times> 'w \<Rightarrow> bool" where
  "short_hash D A x s s' \<longleftrightarrow>
     (\<exists>j h bs. request D A (block_request x) ''json_rpc'' s = (Inr j, s') \<and>
        dn_as_str D (dn_get D (dn_get D (dn_get D j ''result'') ''block_header'') ''hash'') = Some h \<and>
        dn_hex_decode D h = Inr bs \<and> dn_hash_from_slice D bs = None)"

lemma client_block_Crashed_iff: "client_block D A x s = (Inl Crashed, s') \<longleftrightarrow> short_hash D A x s s'"
proof -
  have "request D A (block_request x) ''json_rpc'' s \<noteq> (Inl Crashed, s')" for s'
    using wp_InlD [OF no_crash_request [of D A "block_request x" "''json_rpc''" s]] by blast
  then show ?thesis
    by (auto simp: client_block_def short_hash_def bind_apply checked_def expected_def
        split: prod.splits sum.splits option.splits)
qed

section \<open>Logging in\<close>

text \<open>
  A daemon that asks for a digest login with the challenge \<open>p\<close>, and accepts any counter and any client
  nonce that is printed in hex, as the client's are; the header with such a nonce is a valid header value.
  \<open>b\<close> is the body of its answer to an authorized request, which parses to \<open>j\<close>.
\<close>

definition wants_login ::
  "('w, 'b, 'j, 'tx) daemon_ops \<Rightarrow> 'r auth_ops \<Rightarrow> 'w set \<Rightarrow> string \<Rightarrow> string \<Rightarrow> auth_params \<Rightarrow>
   duration \<Rightarrow> string \<Rightarrow> string \<Rightarrow> string \<Rightarrow> 'j \<Rightarrow> bool" where
  "wants_login D A W username password p timeout target path body j \<longleftrightarrow>
     dn_path_and_query D target = Inr path \<and>
     (\<forall>w \<in> W. \<exists>r. \<exists>w' \<in> W. dn_send D timeout \<lparr>rq_uri = target, rq_authorization = None, rq_body = body\<rparr> w = (Inr r, w') \<and>
        rs_status r = 401 \<and> (\<exists>stale. rs_www_authenticate r = [Some (''Digest '' @ challenge stale p)])) \<and>
     (\<forall>n bs. let h = authorization A username password p QopAuth path ''POST'' (show_counter n) (ao_hex A bs) in
        ao_header_value A h = Inr h \<and>
        (\<forall>w \<in> W. \<exists>r. \<exists>w' \<in> W. dn_send D timeout \<lparr>rq_uri = target, rq_authorization = Some h, rq_body = body\<rparr> w = (Inr r, w') \<and>
           rs_status r = 200 \<and>
           (\<exists>bytes. \<exists>w'' \<in> W. dn_to_bytes D (rs_body r) w' = (Inr bytes, w'') \<and> dn_json D bytes = Inr j)))"

text \<open>The client before and after its first login.\<close>

definition logged_in_or_new ::
  "'w set \<Rightarrow> string \<Rightarrow> string \<Rightarrow> auth_params \<Rightarrow> duration \<Rightarrow> string \<Rightarrow> ('r rpc_client \<times> 'w) set" where
  "logged_in_or_new W username password p timeout url =
     {(c, w). w \<in> W \<and> cl_url c = url \<and> cl_timeout c = timeout \<and>
        (\<exists>ai. cl_auth c = Some ai \<and> ai_username ai = username \<and> ai_password ai = password \<and>
           (ai_last ai = None \<or> ai_last ai = Some p))}"

lemma authenticate_with_resp_challenge:
  assumes "sorts A" and "plain_params p"
    and "\<And>n bs. let h = authorization A (ai_username ai) (ai_password ai) p QopAuth path verb (show_counter n) (ao_hex A bs) in
        ao_header_value A h = Inr h"
  shows "\<exists>bs. authenticate_with_resp A [Some (''Digest '' @ challenge stale p)] path verb ai =
    (Inr (authorization A (ai_username ai) (ai_password ai) p QopAuth path verb (show_counter 1) (ao_hex A bs)),
     ai\<lparr>ai_last := Some p, ai_counter := 2, ai_rng := snd (ao_fill A (ai_rng ai))\<rparr>)"
proof -
  have "mset (ao_sort A [p]) = {#p#}" using assms(1) by (simp add: sorts_def)
  then have "ao_sort A [p] = [p]" by simp
  moreover have "ap_qop p \<noteq> []" using assms(2) by (simp add: plain_params_def)
  moreover have "strip_prefix ''Digest '' (''Digest '' @ challenge stale p) = Some (challenge stale p)"
    by (simp add: strip_prefix_Some)
  ultimately show ?thesis
    using assms(3) parse_challenge [OF assms(2), of stale]
    by (simp add: authenticate_with_resp_def List.map_filter_def authenticate_answer answer_def bind_apply Let_def
        del: strip_prefix.simps append.simps) blast
qed

lemma authenticate_new: "ai_last ai = None \<Longrightarrow> authenticate A path verb ai = (Inr None, ai)"
  by (simp add: authenticate_def)

text \<open>What \<open>wants_login\<close> gives: the answers to a request without and with an authorization.\<close>

lemma wants_loginD:
  fixes A :: "'r auth_ops" and D :: "('w, 'b, 'j, 'tx) daemon_ops" and c :: "'r rpc_client"
  assumes "wants_login D A W username password p timeout (url @ endpoint) path body j"
    and c: "cl_timeout c = timeout" and w: "w \<in> W"
  defines "h \<equiv> \<lambda>n bs. authorization A username password p QopAuth path ''POST'' (show_counter n) (ao_hex A bs)"
  shows "dn_path_and_query D (url @ endpoint) = Inr path"
    and "ao_header_value A (h n bs) = Inr (h n bs)"
    and "\<exists>r. \<exists>w1 \<in> W. send_request D (url @ endpoint) body None (c, w) = (Inr r, (c, w1)) \<and>
      rs_status r = 401 \<and> (\<exists>stale. rs_www_authenticate r = [Some (''Digest '' @ challenge stale p)])"
    and "\<exists>r. \<exists>w1 \<in> W. \<exists>w2 \<in> W.
      send_request D (url @ endpoint) body (Some (h n bs)) (c, w) = (Inr r, (c, w1)) \<and>
      rs_status r = 200 \<and> read_json D r (c, w1) = (Inr j, (c, w2))"
proof -
  note wants = assms(1) [unfolded wants_login_def Let_def, folded h_def]
  show "dn_path_and_query D (url @ endpoint) = Inr path" "ao_header_value A (h n bs) = Inr (h n bs)"
    using wants by (simp_all add: h_def)
  have "\<exists>r. \<exists>w' \<in> W.
      dn_send D timeout \<lparr>rq_uri = url @ endpoint, rq_authorization = None, rq_body = body\<rparr> w = (Inr r, w') \<and>
      rs_status r = 401 \<and> (\<exists>stale. rs_www_authenticate r = [Some (''Digest '' @ challenge stale p)])"
    by (rule bspec [OF conjunct1 [OF conjunct2 [OF wants]] w])
  then show "\<exists>r. \<exists>w1 \<in> W. send_request D (url @ endpoint) body None (c, w) = (Inr r, (c, w1)) \<and>
      rs_status r = 401 \<and> (\<exists>stale. rs_www_authenticate r = [Some (''Digest '' @ challenge stale p)])"
    using c by (auto simp: send_request_def network_simps)
  have "\<exists>r. \<exists>w' \<in> W.
      dn_send D timeout \<lparr>rq_uri = url @ endpoint, rq_authorization = Some (h n bs), rq_body = body\<rparr> w = (Inr r, w') \<and>
      rs_status r = 200 \<and>
      (\<exists>bytes. \<exists>w'' \<in> W. dn_to_bytes D (rs_body r) w' = (Inr bytes, w'') \<and> dn_json D bytes = Inr j)"
    unfolding h_def
    by (rule bspec [OF conjunct2 [OF spec [OF spec [OF conjunct2 [OF conjunct2 [OF wants [unfolded h_def]]]]]] w])
  then obtain r w1 bytes w2 where "w1 \<in> W" "rs_status r = 200" "w2 \<in> W"
    "dn_send D timeout \<lparr>rq_uri = url @ endpoint, rq_authorization = Some (h n bs), rq_body = body\<rparr> w = (Inr r, w1)"
    "dn_to_bytes D (rs_body r) w1 = (Inr bytes, w2)" "dn_json D bytes = Inr j"
    by (elim exE bexE conjE) rule
  then show "\<exists>r. \<exists>w1 \<in> W. \<exists>w2 \<in> W.
      send_request D (url @ endpoint) body (Some (h n bs)) (c, w) = (Inr r, (c, w1)) \<and>
      rs_status r = 200 \<and> read_json D r (c, w1) = (Inr j, (c, w2))"
    using c by (intro exI [of _ r] bexI [of _ w1] bexI [of _ w2])
      (simp_all add: send_request_def network_simps read_json_def)
qed

text \<open>The first request of a client is answered 401, and sent again with the answer to the challenge.\<close>

lemma request_logs_in:
  fixes A :: "'r auth_ops" and D :: "('w, 'b, 'j, 'tx) daemon_ops" and c :: "'r rpc_client"
  assumes sorts: "sorts A" and plain: "plain_params p"
    and wants: "wants_login D A W username password p timeout (url @ endpoint) path body j"
    and c: "cl_url c = url" "cl_timeout c = timeout" and w: "w \<in> W"
    and ai: "cl_auth c = Some ai" "ai_username ai = username" "ai_password ai = password"
    and new: "ai_last ai = None"
  shows "\<exists>s' \<in> logged_in_or_new W username password p timeout url. request D A body endpoint (c, w) = (Inr j, s')"
proof -
  let ?h = "\<lambda>n bs. authorization A username password p QopAuth path ''POST'' (show_counter n) (ao_hex A bs)"
  note login = wants_loginD [OF wants]
  have same: "c\<lparr>cl_auth := Some ai\<rparr> = c" using ai(1) by (cases c) simp
  from login(3) [OF c(2) w] obtain r w1 stale where r: "w1 \<in> W" "rs_status r = 401"
    "rs_www_authenticate r = [Some (''Digest '' @ challenge stale p)]"
    "send_request D (url @ endpoint) body None (c, w) = (Inr r, (c, w1))"
    by (elim exE bexE conjE) rule
  obtain bs where "authenticate_with_resp A [Some (''Digest '' @ challenge stale p)] path ''POST'' ai =
      (Inr (?h 1 bs), ai\<lparr>ai_last := Some p, ai_counter := 2, ai_rng := snd (ao_fill A (ai_rng ai))\<rparr>)"
    (is "_ = (_, ?ai)")
    using authenticate_with_resp_challenge [OF sorts plain, of ai path "''POST''" stale] login(2) [OF c(2) w] ai
    by (auto simp: Let_def)
  moreover obtain r2 w2 w3 where "w3 \<in> W" "rs_status r2 = 200"
    "send_request D (url @ endpoint) body (Some (?h 1 bs)) (c\<lparr>cl_auth := Some ?ai\<rparr>, w1) = (Inr r2, (c\<lparr>cl_auth := Some ?ai\<rparr>, w2))"
    "read_json D r2 (c\<lparr>cl_auth := Some ?ai\<rparr>, w2) = (Inr j, (c\<lparr>cl_auth := Some ?ai\<rparr>, w3))"
    using login(4) [of "c\<lparr>cl_auth := Some ?ai\<rparr>" w1 1 bs] r(1) c by auto
  ultimately show ?thesis
    using ai(1) c new r(2,3,4) login(1) [OF c(2) w]
    by (intro bexI [of _ "(c\<lparr>cl_auth := Some ?ai\<rparr>, w3)"])
      (simp_all add: request_def Let_def with_auth_def authenticate_new retry_unauthorized_def
        same logged_in_or_new_def ai(2,3))
qed

text \<open>The requests after it are sent once, with the next answer.\<close>

lemma request_stays_logged_in:
  fixes A :: "'r auth_ops" and D :: "('w, 'b, 'j, 'tx) daemon_ops" and c :: "'r rpc_client"
  assumes plain: "plain_params p"
    and wants: "wants_login D A W username password p timeout (url @ endpoint) path body j"
    and c: "cl_url c = url" "cl_timeout c = timeout" and w: "w \<in> W"
    and ai: "cl_auth c = Some ai" "ai_username ai = username" "ai_password ai = password"
    and old: "ai_last ai = Some p"
  shows "\<exists>s' \<in> logged_in_or_new W username password p timeout url. request D A body endpoint (c, w) = (Inr j, s')"
proof -
  let ?h = "\<lambda>n bs. authorization A username password p QopAuth path ''POST'' (show_counter n) (ao_hex A bs)"
  note login = wants_loginD [OF wants]
  have qop: "ap_qop p \<noteq> []" using plain by (simp add: plain_params_def)
  define n bs where "n = ai_counter ai" and "bs = fst (ao_fill A (ai_rng ai))"
  let ?ai = "ai\<lparr>ai_rng := snd (ao_fill A (ai_rng ai)), ai_counter := ai_counter ai + 1\<rparr>"
  have "authenticate A path ''POST'' ai = (Inr (Some (?h n bs)), ?ai)"
    using authenticate_answer [OF old qop, of A path "''POST''"] login(2) [OF c(2) w] ai(2,3)
    by (simp add: answer_def n_def bs_def)
  moreover obtain r2 w2 w3 where "w3 \<in> W" "rs_status r2 = 200"
    "send_request D (url @ endpoint) body (Some (?h n bs)) (c\<lparr>cl_auth := Some ?ai\<rparr>, w) = (Inr r2, (c\<lparr>cl_auth := Some ?ai\<rparr>, w2))"
    "read_json D r2 (c\<lparr>cl_auth := Some ?ai\<rparr>, w2) = (Inr j, (c\<lparr>cl_auth := Some ?ai\<rparr>, w3))"
    using login(4) [of "c\<lparr>cl_auth := Some ?ai\<rparr>" w n bs] w c by auto
  ultimately show ?thesis
    using ai(1) c login(1) [OF c(2) w] old
    by (intro bexI [of _ "(c\<lparr>cl_auth := Some ?ai\<rparr>, w3)"])
      (simp_all add: request_def Let_def with_auth_def retry_unauthorized_def logged_in_or_new_def ai(2,3))
qed

lemma login_replies:
  fixes A :: "'r auth_ops" and D :: "('w, 'b, 'j, 'tx) daemon_ops"
  assumes sorts: "sorts A" and plain: "plain_params p"
    and wants: "wants_login D A W username password p timeout (url @ endpoint) path body j"
  shows "replies D A (logged_in_or_new W username password p timeout url) body endpoint (\<lambda>j'. j' = j)"
proof -
  let ?S = "logged_in_or_new W username password p timeout url :: ('r rpc_client \<times> 'w) set"
  have "\<exists>s' \<in> ?S. request D A body endpoint (c, w) = (Inr j, s')" if "(c, w) \<in> ?S" for c w
    using that request_logs_in [OF sorts plain wants] request_stays_logged_in [OF plain wants]
    by (auto simp: logged_in_or_new_def)
  then show ?thesis unfolding replies_def by (intro ballI) (auto; blast)
qed

section \<open>The chain of an honest daemon\<close>

text \<open>
  A daemon that answers every request of the client within the states \<open>S\<close> out of one chain of height
  \<open>H\<close>: \<open>body\<close> gives the transaction with a hash, and at most 100 are asked for at once.
\<close>

definition says_height :: "('w, 'b, 'j, 'tx) daemon_ops \<Rightarrow> u64 \<Rightarrow> 'j \<Rightarrow> bool" where
  "says_height D H j \<longleftrightarrow> dn_as_u64 D (dn_get D (dn_get D j ''result'') ''count'') = Some H"

definition says_block ::
  "('w, 'b, 'j, 'tx) daemon_ops \<Rightarrow> hash \<Rightarrow> block \<Rightarrow> 'j \<Rightarrow> bool" where
  "says_block D k bl j \<longleftrightarrow> (\<exists>h id blob b.
     dn_as_str D (dn_get D (dn_get D (dn_get D j ''result'') ''block_header'') ''hash'') = Some h \<and>
     dn_hex_decode D h = Inr id \<and> dn_hash_from_slice D id = Some k \<and>
     dn_as_str D (dn_get D (dn_get D j ''result'') ''blob'') = Some blob \<and>
     dn_hex_decode D blob = Inr b \<and> dn_block D b = Inr bl)"

definition honest_daemon ::
  "('w, 'b, 'j, 'tx) daemon_ops \<Rightarrow> 'r auth_ops \<Rightarrow> ('r rpc_client \<times> 'w) set \<Rightarrow>
   (u64 \<Rightarrow> 'tx cached_block) \<Rightarrow> u64 \<Rightarrow> (hash \<Rightarrow> 'tx) \<Rightarrow> bool" where
  "honest_daemon D A S chain H body \<longleftrightarrow>
     replies D A S height_request ''json_rpc'' (says_height D H) \<and>
     (\<forall>x < H. replies D A S (block_request x) ''json_rpc''
        (says_block D (cb_id (chain x)) (cb_block (chain x)))) \<and>
     (\<forall>x < H. cb_txs (chain x) = map body (tx_hashes (cb_block (chain x)))) \<and>
     (\<forall>x < H. \<forall>hs. hs \<noteq> [] \<longrightarrow> length hs \<le> 100 \<longrightarrow> set hs \<subseteq> set (tx_hashes (cb_block (chain x))) \<longrightarrow>
        replies D A S (transactions_request D hs) ''get_transactions''
          (reads_transactions D (map body hs)))"

lemma client_daemon_height_replies:
  assumes "replies D A S height_request ''json_rpc'' (says_height D H)" and "s \<in> S"
  shows "\<exists>s' \<in> S. client_daemon_height D A s = (Inr H, s')"
proof -
  obtain j s' where j: "request D A height_request ''json_rpc'' s = (Inr j, s')" "s' \<in> S"
    "says_height D H j"
    using repliesE [OF assms] .
  then show ?thesis
    by (intro bexI [OF _ j(2)]) (simp add: client_daemon_height_def says_height_def)
qed

lemma client_block_replies:
  assumes "replies D A S (block_request x) ''json_rpc'' (says_block D k bl)" and "s \<in> S"
  shows "\<exists>s' \<in> S. client_block D A x s = (Inr (k, bl), s')"
proof -
  obtain j s' where j: "request D A (block_request x) ''json_rpc'' s = (Inr j, s')" "s' \<in> S"
    "says_block D k bl j"
    using repliesE [OF assms] .
  from j(3) obtain h id blob b where
    "dn_as_str D (dn_get D (dn_get D (dn_get D j ''result'') ''block_header'') ''hash'') = Some h"
    "dn_hex_decode D h = Inr id" "dn_hash_from_slice D id = Some k"
    "dn_as_str D (dn_get D (dn_get D j ''result'') ''blob'') = Some blob"
    "dn_hex_decode D blob = Inr b" "dn_block D b = Inr bl"
    unfolding says_block_def by (elim exE conjE) rule
  then show ?thesis by (intro bexI [OF _ j(2)]) (simp add: client_block_def j(1))
qed

lemma honest_daemon_serves:
  assumes "honest_daemon D A S chain H body"
  shows "serves (client_ops D A) S chain H"
proof -
  note honest = assms [unfolded honest_daemon_def]
  have "\<exists>s' \<in> S. client_block_transactions D A (cb_block (chain x)) s = (Inr (cb_txs (chain x)), s')"
    if x: "x < H" and s: "s \<in> S" for x s
  proof -
    let ?hs = "tx_hashes (cb_block (chain x))"
    have "replies D A S (transactions_request D b) ''get_transactions''
        (reads_transactions D (map body b))" if "b \<in> set (batches ?hs)" for b
      using batches_small [OF that] x honest by simp
    from transactions_by_hashes_batches [OF this s] show ?thesis
      using honest x by (simp add: client_block_transactions_def concat_batches)
  qed
  moreover have "\<exists>s' \<in> S. client_daemon_height D A s = (Inr H, s')" if "s \<in> S" for s
    by (rule client_daemon_height_replies [OF conjunct1 [OF honest] that])
  moreover have "\<exists>s' \<in> S. client_block D A x s = (Inr (cb_id (chain x), cb_block (chain x)), s')"
    if "x < H" and "s \<in> S" for x s
    by (rule client_block_replies [OF _ that(2)]) (use honest that(1) in simp)
  ultimately show ?thesis by (simp add: serves_def client_ops_def)
qed

end
