(* ===== verification/Builder.thy ===== *)
theory Builder
  imports Gateway Rpc_Client
begin

text \<open>
  \<open>PaymentGatewayBuilder\<close> of \<open>src/src/payment_gateway.rs\<close>: the settings, their defaults, and \<open>build\<close>,
  which parses them and makes the client and the gateway. The parsers of the \<open>http\<close> and monero
  crates, the derivation of a subaddress from the keys and the seeding of the generators are
  arguments.
\<close>

section \<open>Settings\<close>

definition default_scan_interval :: duration where
  "default_scan_interval = 1000"

definition default_daemon :: string where
  "default_daemon = ''http://node.moneroworld.com:18089''"

definition default_rpc_connection_timeout :: duration where
  "default_rpc_connection_timeout = 5 * 1000"

definition default_rpc_total_timeout :: duration where
  "default_rpc_total_timeout = 10 * 1000"

record 's gateway_builder =
  bd_daemon_url :: string
  bd_daemon_username :: "string option"
  bd_daemon_password :: "string option"
  bd_rpc_timeout :: duration
  bd_rpc_connection_timeout :: duration
  bd_private_view_key :: string
  bd_primary_address :: string
  bd_scan_interval :: duration
  bd_invoice_store :: 's
  bd_major_index :: u32
  bd_seed :: "u64 option"

definition builder_new :: "string \<Rightarrow> string \<Rightarrow> 's \<Rightarrow> 's gateway_builder" where
  "builder_new private_view_key primary_address store =
     \<lparr>bd_daemon_url = default_daemon, bd_daemon_username = None, bd_daemon_password = None,
      bd_rpc_timeout = default_rpc_total_timeout,
      bd_rpc_connection_timeout = default_rpc_connection_timeout,
      bd_private_view_key = private_view_key, bd_primary_address = primary_address,
      bd_scan_interval = default_scan_interval, bd_invoice_store = store, bd_major_index = 0,
      bd_seed = None\<rparr>"

text \<open>The setters, as the calls that are chained on a builder.\<close>

datatype setting =
    DaemonUrl string
  | DaemonLogin string string
  | RpcTimeout duration
  | RpcConnectionTimeout duration
  | ScanInterval duration
  | Seed u64
  | AccountIndex u32

fun builder_set :: "setting \<Rightarrow> 's gateway_builder \<Rightarrow> 's gateway_builder" where
  "builder_set (DaemonUrl url) b = b\<lparr>bd_daemon_url := url\<rparr>"
| "builder_set (DaemonLogin username password) b =
     b\<lparr>bd_daemon_username := Some username, bd_daemon_password := Some password\<rparr>"
| "builder_set (RpcTimeout t) b = b\<lparr>bd_rpc_timeout := t\<rparr>"
| "builder_set (RpcConnectionTimeout t) b = b\<lparr>bd_rpc_connection_timeout := t\<rparr>"
| "builder_set (ScanInterval interval) b = b\<lparr>bd_scan_interval := interval\<rparr>"
| "builder_set (Seed s) b = b\<lparr>bd_seed := Some s\<rparr>"
| "builder_set (AccountIndex n) b = b\<lparr>bd_major_index := n\<rparr>"

section \<open>Building\<close>

text \<open>\<open>'v\<close> is a private view key and \<open>'p\<close> a public spend key.\<close>

record ('v, 'p, 'r) build_ops =
  bo_uri :: "string \<Rightarrow> string + string"
  bo_private_key :: "string \<Rightarrow> string + 'v"
  bo_spend_key :: "string \<Rightarrow> string + 'p"
  bo_subaddress :: "'v \<times> 'p \<Rightarrow> sub_index \<Rightarrow> string"
  bo_client_rng :: "u64 option \<Rightarrow> 'r"
  bo_pool_rng :: "u64 option \<Rightarrow> 'r"

definition parsed :: "string \<Rightarrow> string \<Rightarrow> string + 'a \<Rightarrow> 'e accept_xmr_error + 'a" where
  "parsed type_name input r = (case r of Inl e \<Rightarrow> Inl (Parse type_name input e) | Inr x \<Rightarrow> Inr x)"

definition builder_build ::
  "('v, 'p, 'r) build_ops \<Rightarrow> ('s, 'e) storage_ops \<Rightarrow> 'w \<Rightarrow> 's gateway_builder \<Rightarrow>
   'e accept_xmr_error + 'r rpc_client \<times> ('v \<times> 'p) \<times> ('tx, 'k, 's, 'w, 'r, 'e) gateway" where
  "builder_build P S w b =
     (case parsed ''Uri'' (bd_daemon_url b) (bo_uri P (bd_daemon_url b)) of
        Inl e \<Rightarrow> Inl e
      | Inr url \<Rightarrow>
          (let client = rpc_client_new url (bd_rpc_timeout b) (bd_daemon_username b) (bd_daemon_password b)
                 (bo_client_rng P (bd_seed b))
           in case parsed ''PrivateKey'' (bd_private_view_key b) (bo_private_key P (bd_private_view_key b)) of
                Inl e \<Rightarrow> Inl e
              | Inr view \<Rightarrow>
                  (case parsed ''Address'' (bd_primary_address b) (bo_spend_key P (bd_primary_address b)) of
                     Inl e \<Rightarrow> Inl e
                   | Inr spend \<Rightarrow>
                       (case gateway_build S (bo_subaddress P (view, spend)) (bd_major_index b)
                              (bo_pool_rng P (bd_seed b)) w (bd_invoice_store b) of
                          Inl e \<Rightarrow> Inl e
                        | Inr g \<Rightarrow> Inr (client, (view, spend), g)))))"

text \<open>\<open>PaymentGateway::builder\<close>, and \<open>daemon_url\<close> of the gateway with this client.\<close>

definition payment_gateway_builder :: "string \<Rightarrow> string \<Rightarrow> 's \<Rightarrow> 's gateway_builder" where
  "payment_gateway_builder private_view_key primary_address store =
     builder_new private_view_key primary_address store"

definition gateway_daemon_url :: "'r rpc_client \<Rightarrow> string" where
  "gateway_daemon_url client = client_url client"

section \<open>What is built\<close>

text \<open>
  The settings of a chain of setters: the last one of a kind counts, whatever lies between. The
  client has credentials exactly when a login was set.
\<close>

lemma fold_builder_set:
  "bd_daemon_username (fold builder_set cs b) =
     foldl (\<lambda>u c. case c of DaemonLogin n _ \<Rightarrow> Some n | _ \<Rightarrow> u) (bd_daemon_username b) cs"
  "bd_major_index (fold builder_set cs b) =
     foldl (\<lambda>n c. case c of AccountIndex m \<Rightarrow> m | _ \<Rightarrow> n) (bd_major_index b) cs"
  by (induction cs arbitrary: b; simp split: setting.split)+

lemma builder_set_login:
  "bd_daemon_username (fold builder_set cs (builder_new key addr s)) =
     foldl (\<lambda>u c. case c of DaemonLogin n _ \<Rightarrow> Some n | _ \<Rightarrow> u) None cs"
  "bd_major_index (fold builder_set cs (builder_new key addr s)) =
     foldl (\<lambda>n c. case c of AccountIndex m \<Rightarrow> m | _ \<Rightarrow> n) 0 cs"
  by (simp_all add: fold_builder_set) (simp_all add: builder_new_def)

lemma builder_build_Inr:
  assumes "builder_build P S w b = Inr (client, (view, spend), g)"
  shows "gateway_build S (bo_subaddress P (view, spend)) (bd_major_index b) (bo_pool_rng P (bd_seed b)) w
      (bd_invoice_store b) = Inr g"
    and "bo_uri P (bd_daemon_url b) = Inr (cl_url client)" and "cl_timeout client = bd_rpc_timeout b"
    and "cl_auth client \<noteq> None \<longleftrightarrow> bd_daemon_username b \<noteq> None \<or> bd_daemon_password b \<noteq> None"
  using assms
  by (auto simp: builder_build_def parsed_def Let_def rpc_client_new_def split: sum.splits if_splits)

lemma built_daemon_url:
  "builder_build P S w b = Inr (client, keys, g) \<Longrightarrow> bo_uri P (bd_daemon_url b) = Inr (gateway_daemon_url client)"
  by (cases keys) (auto dest: builder_build_Inr(2) simp: gateway_daemon_url_def client_url_def)

lemma builder_build_inv:
  fixes g :: "('tx, 'k, in_memory, 'w, 'r, in_memory_error) gateway"
  assumes "builder_build P in_memory w b = Inr (client, (view, spend), g)"
    and "good_store (bo_subaddress P (view, spend)) (bd_major_index b) (bd_invoice_store b)"
  shows "gw_inv (bo_subaddress P (view, spend)) g"
  by (rule gateway_build_inv [OF assms(2) builder_build_Inr(1) [OF assms(1)]])

end
