(* ===== verification/Sled.thy ===== *)
theory Sled
  imports Store_Calls "HOL-Library.Sublist"
begin

text \<open>
  \<open>src/src/storage/stores/sled.rs\<close>: the store on a \<open>sled\<close> tree, which keeps invoices under the
  encoding of their ids. The tree and the \<open>bincode\<close> encoder are records of operations; what the
  store relies on of them is \<open>tree_laws\<close> and \<open>codec_laws\<close>. From these it meets the contract of the
  trait. The code never looks into a byte, so bytes are a type parameter.
\<close>

section \<open>The crates the store calls\<close>

text \<open>
  \<open>tr_compare_and_swap\<close> returns whether the swap was made. \<open>tr_open\<close> is the configuration, the
  opening of the database and of the tree, and \<open>tr_set_merge_operator\<close> installs a merge function.
\<close>

record ('t, 'b) tree_ops =
  tr_open :: "string \<Rightarrow> string \<Rightarrow> string + 't"
  tr_set_merge_operator ::
    "('b list \<Rightarrow> 'b list option \<Rightarrow> 'b list \<Rightarrow> 'b list option) \<Rightarrow> 't \<Rightarrow> 't"
  tr_compare_and_swap ::
    "'b list \<Rightarrow> 'b list option \<Rightarrow> 'b list option \<Rightarrow> ('t, string, bool) act"
  tr_remove :: "'b list \<Rightarrow> ('t, string, 'b list option) act"
  tr_fetch_and_update ::
    "'b list \<Rightarrow> ('b list option \<Rightarrow> 'b list option) \<Rightarrow> ('t, string, 'b list option) act"
  tr_get :: "'b list \<Rightarrow> 't \<Rightarrow> string + 'b list option"
  tr_scan_prefix :: "'b list \<Rightarrow> 't \<Rightarrow> (string + 'b list \<times> 'b list) list"
  tr_iter :: "'t \<Rightarrow> (string + 'b list \<times> 'b list) list"
  tr_flush :: "'t \<Rightarrow> string + unit"
  tr_is_empty :: "'t \<Rightarrow> bool"

record 'b codec =
  cd_id :: "invoice_id \<Rightarrow> string + 'b list"
  cd_index :: "sub_index \<Rightarrow> string + 'b list"
  cd_invoice :: "invoice \<Rightarrow> string + 'b list"
  cd_decode :: "'b list \<Rightarrow> string + invoice"

section \<open>The store\<close>

datatype sled_error =
    SledDatabase string
  | DuplicateInvoiceId
  | Serialize string
  | Deserialize string

definition update_merge :: "'b list \<Rightarrow> 'b list option \<Rightarrow> 'b list \<Rightarrow> 'b list option" where
  "update_merge key old_value new_value = (if old_value \<noteq> None then Some new_value else None)"

definition sled_new :: "('t, 'b) tree_ops \<Rightarrow> string \<Rightarrow> string \<Rightarrow> sled_error + 't" where
  "sled_new T path name =
     (case tr_open T path name of
        Inl e \<Rightarrow> Inl (SledDatabase e)
      | Inr tree \<Rightarrow> Inr (tr_set_merge_operator T update_merge tree))"

text \<open>\<open>?\<close> with the conversion of the error.\<close>

definition tried :: "('x \<Rightarrow> 'e) \<Rightarrow> 'x + 'a \<Rightarrow> ('st, 'e, 'a) act" where
  "tried f r = (case r of Inl e \<Rightarrow> stop (f e) | Inr x \<Rightarrow> ret x)"

definition tried_act :: "('x \<Rightarrow> 'e) \<Rightarrow> ('st, 'x, 'a) act \<Rightarrow> ('st, 'e, 'a) act" where
  "tried_act f m = (\<lambda>s. case m s of (Inl e, s') \<Rightarrow> (Inl (f e), s') | (Inr x, s') \<Rightarrow> (Inr x, s'))"

definition decode_stored :: "'b codec \<Rightarrow> 'b list option \<Rightarrow> sled_error + invoice option" where
  "decode_stored B stored =
     (case stored of
        None \<Rightarrow> Inr None
      | Some v \<Rightarrow> (case cd_decode B v of Inl e \<Rightarrow> Inl (Deserialize e) | Inr i \<Rightarrow> Inr (Some i)))"

definition sled_insert :: "('t, 'b) tree_ops \<Rightarrow> 'b codec \<Rightarrow> invoice \<Rightarrow> ('t, sled_error, unit) act" where
  "sled_insert T B i =
     bind (tried Serialize (cd_id B (invoice_id i))) (\<lambda>key.
     bind (tried Serialize (cd_invoice B i)) (\<lambda>val.
     bind (tried_act SledDatabase (tr_compare_and_swap T key None (Some val))) (\<lambda>swapped.
     if swapped then ret () else stop DuplicateInvoiceId)))"

definition sled_remove ::
  "('t, 'b) tree_ops \<Rightarrow> 'b codec \<Rightarrow> invoice_id \<Rightarrow> ('t, sled_error, invoice option) act" where
  "sled_remove T B k =
     bind (tried Serialize (cd_id B k)) (\<lambda>key.
     bind (tried_act SledDatabase (tr_remove T key)) (\<lambda>old.
     tried (\<lambda>e. e) (decode_stored B old)))"

definition sled_update ::
  "('t, 'b) tree_ops \<Rightarrow> 'b codec \<Rightarrow> invoice \<Rightarrow> ('t, sled_error, invoice option) act" where
  "sled_update T B i =
     bind (tried Serialize (cd_id B (invoice_id i))) (\<lambda>key.
     bind (tried Serialize (cd_invoice B i)) (\<lambda>new_ivec.
     bind (tried_act SledDatabase
       (tr_fetch_and_update T key (\<lambda>old. if old \<noteq> None then Some new_ivec else None))) (\<lambda>maybe_old.
     tried (\<lambda>e. e) (decode_stored B maybe_old))))"

definition sled_get ::
  "('t, 'b) tree_ops \<Rightarrow> 'b codec \<Rightarrow> invoice_id \<Rightarrow> 't \<Rightarrow> sled_error + invoice option" where
  "sled_get T B k t =
     (case cd_id B k of
        Inl e \<Rightarrow> Inl (Serialize e)
      | Inr key \<Rightarrow>
          (case tr_get T key t of Inl e \<Rightarrow> Inl (SledDatabase e) | Inr current \<Rightarrow> decode_stored B current))"

definition sled_contains_sub_index ::
  "('t, 'b) tree_ops \<Rightarrow> 'b codec \<Rightarrow> sub_index \<Rightarrow> 't \<Rightarrow> sled_error + bool" where
  "sled_contains_sub_index T B x t =
     (case cd_index B x of Inl e \<Rightarrow> Inl (Serialize e) | Inr key \<Rightarrow> Inr (tr_scan_prefix T key t \<noteq> []))"

definition sled_item :: "'b codec \<Rightarrow> string + 'b list \<times> 'b list \<Rightarrow> sled_error + invoice" where
  "sled_item B item =
     (case item of
        Inl e \<Rightarrow> Inl (SledDatabase e)
      | Inr (_, v) \<Rightarrow> (case cd_decode B v of Inl e \<Rightarrow> Inl (Deserialize e) | Inr i \<Rightarrow> Inr i))"

definition sled_try_iter ::
  "('t, 'b) tree_ops \<Rightarrow> 'b codec \<Rightarrow> 't \<Rightarrow> sled_error + (sled_error + invoice) list" where
  "sled_try_iter T B t = Inr (map (sled_item B) (tr_iter T t))"

definition sled_flush :: "('t, 'b) tree_ops \<Rightarrow> 't \<Rightarrow> sled_error + unit" where
  "sled_flush T t = (case tr_flush T t of Inl e \<Rightarrow> Inl (SledDatabase e) | Inr _ \<Rightarrow> Inr ())"

definition sled_is_empty :: "('t, 'b) tree_ops \<Rightarrow> 't \<Rightarrow> sled_error + bool" where
  "sled_is_empty T t = Inr (tr_is_empty T t)"

definition sled :: "('t, 'b) tree_ops \<Rightarrow> 'b codec \<Rightarrow> ('t, sled_error) storage_ops" where
  "sled T B =
     \<lparr>st_insert = sled_insert T B, st_remove = sled_remove T B, st_update = sled_update T B,
      st_get = sled_get T B, st_contains_sub_index = sled_contains_sub_index T B,
      st_try_iter = sled_try_iter T B, st_lowest_height = default_lowest_height (sled_try_iter T B),
      st_is_empty = sled_is_empty T, st_flush = sled_flush T\<rparr>"

section \<open>What the store relies on\<close>

text \<open>
  A tree in a state \<open>ok\<close> is a map from keys to values, and no call fails. \<open>content\<close> is that map.
\<close>

definition tree_laws ::
  "('t, 'b) tree_ops \<Rightarrow> ('t \<Rightarrow> bool) \<Rightarrow> ('t \<Rightarrow> 'b list \<rightharpoonup> 'b list) \<Rightarrow> bool" where
  "tree_laws T ok content \<longleftrightarrow> (\<forall>t. ok t \<longrightarrow>
     (\<forall>k old new. if content t k = old
        then \<exists>t'. tr_compare_and_swap T k old new t = (Inr True, t') \<and> ok t' \<and> content t' = (content t)(k := new)
        else tr_compare_and_swap T k old new t = (Inr False, t)) \<and>
     (\<forall>k. \<exists>t'. tr_remove T k t = (Inr (content t k), t') \<and> ok t' \<and> content t' = (content t)(k := None)) \<and>
     (\<forall>k f. \<exists>t'. tr_fetch_and_update T k f t = (Inr (content t k), t') \<and> ok t' \<and>
        content t' = (content t)(k := f (content t k))) \<and>
     (\<forall>k. tr_get T k t = Inr (content t k)) \<and>
     (\<forall>p. \<exists>es. tr_scan_prefix T p t = map Inr es \<and> set es = {(k, v). content t k = Some v \<and> prefix p k}) \<and>
     (\<exists>es. tr_iter T t = map Inr es \<and> distinct (map fst es) \<and> set es = {(k, v). content t k = Some v}) \<and>
     tr_is_empty T t = (content t = Map.empty) \<and> tr_flush T t = Inr ())"

text \<open>
  Encoding never fails on the types of the store, is injective on ids, and is undone by decoding on
  invoices. The encoding of a subaddress index is the prefix of exactly the ids with that index:
  an id is encoded field by field, the index first, with a prefix-free encoding of the numbers.
\<close>

definition codec_laws :: "'b codec \<Rightarrow> bool" where
  "codec_laws B \<longleftrightarrow>
     (\<forall>k. \<exists>b. cd_id B k = Inr b) \<and> (\<forall>k k'. cd_id B k = cd_id B k' \<longrightarrow> k = k') \<and>
     (\<forall>i. \<exists>b. cd_invoice B i = Inr b \<and> cd_decode B b = Inr i) \<and>
     (\<forall>x. \<exists>p. cd_index B x = Inr p \<and> (\<forall>k b. cd_id B k = Inr b \<longrightarrow> prefix p b = (sub_index k = x)))"

definition sled_key :: "'b codec \<Rightarrow> invoice_id \<Rightarrow> 'b list" where
  "sled_key B k = (case cd_id B k of Inr b \<Rightarrow> b | Inl _ \<Rightarrow> [])"

definition encoded_invoice :: "'b codec \<Rightarrow> invoice \<Rightarrow> 'b list" where
  "encoded_invoice B i = (case cd_invoice B i of Inr b \<Rightarrow> b | Inl _ \<Rightarrow> [])"

lemma codec_simps:
  assumes "codec_laws B"
  shows "cd_id B k = Inr (sled_key B k)" and "cd_invoice B i = Inr (encoded_invoice B i)"
    and "cd_decode B (encoded_invoice B i) = Inr i" and "sled_key B k = sled_key B k' \<longleftrightarrow> k = k'"
proof -
  obtain b c where "cd_id B k = Inr b" "cd_invoice B i = Inr c" "cd_decode B c = Inr i"
    using assms unfolding codec_laws_def by meson
  then show k: "cd_id B k = Inr (sled_key B k)" and "cd_invoice B i = Inr (encoded_invoice B i)"
    and "cd_decode B (encoded_invoice B i) = Inr i"
    by (simp_all add: sled_key_def encoded_invoice_def)
  obtain b' where "cd_id B k' = Inr b'"
    using assms unfolding codec_laws_def by meson
  then have "cd_id B k' = Inr (sled_key B k')" by (simp add: sled_key_def)
  with k show "sled_key B k = sled_key B k' \<longleftrightarrow> k = k'"
    using assms unfolding codec_laws_def by metis
qed

section \<open>The contract\<close>

text \<open>The tree holds invoices only, each under the encoding of its id.\<close>

definition sled_ok :: "'b codec \<Rightarrow> ('t \<Rightarrow> bool) \<Rightarrow> ('t \<Rightarrow> 'b list \<rightharpoonup> 'b list) \<Rightarrow> 't \<Rightarrow> bool" where
  "sled_ok B ok content t \<longleftrightarrow> ok t \<and>
     (\<forall>k v. content t k = Some v \<longrightarrow> (\<exists>i. k = sled_key B (invoice_id i) \<and> v = encoded_invoice B i))"

definition sled_lookup ::
  "'b codec \<Rightarrow> ('t \<Rightarrow> 'b list \<rightharpoonup> 'b list) \<Rightarrow> 't \<Rightarrow> invoice_id \<rightharpoonup> invoice" where
  "sled_lookup B content t k =
     (case content t (sled_key B k) of
        None \<Rightarrow> None
      | Some v \<Rightarrow> (case cd_decode B v of Inl _ \<Rightarrow> None | Inr i \<Rightarrow> Some i))"

lemma encoded_invoice_inject: "codec_laws B \<Longrightarrow> encoded_invoice B i = encoded_invoice B j \<longleftrightarrow> i = j"
  by (metis codec_simps(3) sum.inject(2))

lemma sled_stored:
  assumes "codec_laws B" and "sled_ok B ok content t" and "content t (sled_key B k) = Some v"
  obtains j where "v = encoded_invoice B j" "invoice_id j = k" "sled_lookup B content t k = Some j"
proof -
  obtain j where "sled_key B k = sled_key B (invoice_id j)" "v = encoded_invoice B j"
    using assms(2,3) unfolding sled_ok_def by blast
  then have "v = encoded_invoice B j" "invoice_id j = k" "sled_lookup B content t k = Some j"
    using assms(3) by (simp_all add: codec_simps(3,4) [OF assms(1)] sled_lookup_def)
  then show thesis ..
qed

lemma sled_lookup_None:
  assumes "codec_laws B" and "sled_ok B ok content t"
  shows "sled_lookup B content t k = None \<longleftrightarrow> content t (sled_key B k) = None"
proof (cases "content t (sled_key B k)")
  case (Some v)
  from sled_stored [OF assms Some] obtain j where "sled_lookup B content t k = Some j" .
  with Some show ?thesis by simp
qed (simp add: sled_lookup_def)

lemma decode_stored_content:
  assumes "codec_laws B" and "sled_ok B ok content t"
  shows "decode_stored B (content t (sled_key B k)) = Inr (sled_lookup B content t k)"
proof (cases "content t (sled_key B k)")
  case (Some v)
  from sled_stored [OF assms Some] obtain j where "v = encoded_invoice B j" "sled_lookup B content t k = Some j" .
  with Some show ?thesis by (simp add: decode_stored_def codec_simps(3) [OF assms(1)])
qed (simp add: decode_stored_def sled_lookup_def)

lemma sled_lookup_content:
  assumes "codec_laws B" and "sled_ok B ok content t"
  shows "sled_lookup B content t k = Some i \<longleftrightarrow>
    content t (sled_key B k) = Some (encoded_invoice B i) \<and> invoice_id i = k"
proof (cases "content t (sled_key B k)")
  case (Some v)
  from sled_stored [OF assms Some] obtain j
    where "v = encoded_invoice B j" "invoice_id j = k" "sled_lookup B content t k = Some j" .
  with Some show ?thesis by (auto simp: encoded_invoice_inject [OF assms(1)])
qed (simp add: sled_lookup_def)

lemma sled_after_put:
  assumes codec: "codec_laws B" and "sled_ok B ok content t"
    and "ok t'" and content: "content t' = (content t)(sled_key B (invoice_id i) \<mapsto> encoded_invoice B i)"
  shows "sled_ok B ok content t' \<and>
    sled_lookup B content t' = (sled_lookup B content t)(invoice_id i \<mapsto> i)"
proof
  show "sled_ok B ok content t'"
    using assms by (auto simp: sled_ok_def)
  show "sled_lookup B content t' = (sled_lookup B content t)(invoice_id i \<mapsto> i)"
    by (auto simp: sled_lookup_def fun_eq_iff codec_simps [OF codec] content)
qed

lemma sled_after_remove:
  assumes codec: "codec_laws B" and "sled_ok B ok content t"
    and "ok t'" and content: "content t' = (content t)(sled_key B k := None)"
  shows "sled_ok B ok content t' \<and> sled_lookup B content t' = (sled_lookup B content t)(k := None)"
proof
  show "sled_ok B ok content t'"
    using assms by (auto simp: sled_ok_def)
  show "sled_lookup B content t' = (sled_lookup B content t)(k := None)"
    by (auto simp: sled_lookup_def fun_eq_iff codec_simps [OF codec] content)
qed

lemma tried_simps [simp]: "tried f (Inr x) s = (Inr x, s)" "tried f (Inl e) s = (Inl (f e), s)"
  by (simp_all add: tried_def)

lemma tried_act_simps:
  "m s = (Inr x, s') \<Longrightarrow> tried_act f m s = (Inr x, s')"
  "m s = (Inl e, s') \<Longrightarrow> tried_act f m s = (Inl (f e), s')"
  by (simp_all add: tried_act_def)

lemma sled_insert_result:
  assumes "tree_laws T ok content" and codec: "codec_laws B" and t: "sled_ok B ok content t"
  shows "if sled_lookup B content t (invoice_id i) = None
    then \<exists>t'. sled_insert T B i t = (Inr (), t') \<and> sled_ok B ok content t' \<and>
      sled_lookup B content t' = (sled_lookup B content t)(invoice_id i \<mapsto> i)
    else sled_insert T B i t = (Inl DuplicateInvoiceId, t)"
proof -
  let ?k = "sled_key B (invoice_id i)" and ?v = "encoded_invoice B i"
  have "if content t ?k = None
    then \<exists>t'. tr_compare_and_swap T ?k None (Some ?v) t = (Inr True, t') \<and> ok t' \<and>
      content t' = (content t)(?k \<mapsto> ?v)
    else tr_compare_and_swap T ?k None (Some ?v) t = (Inr False, t)"
    using assms(1) t unfolding tree_laws_def sled_ok_def by blast
  then show ?thesis
    using sled_after_put [OF codec t, of _ i] sled_lookup_None [OF codec t, of "invoice_id i"]
    by (cases "content t ?k = None")
      (auto simp: sled_insert_def codec_simps(1,2) [OF codec] tried_act_def bind_apply)
qed

lemma sled_remove_result:
  assumes "tree_laws T ok content" and codec: "codec_laws B" and t: "sled_ok B ok content t"
  shows "\<exists>t'. sled_remove T B k t = (Inr (sled_lookup B content t k), t') \<and> sled_ok B ok content t' \<and>
      sled_lookup B content t' = (sled_lookup B content t)(k := None)"
proof -
  obtain t' where "tr_remove T (sled_key B k) t = (Inr (content t (sled_key B k)), t')" "ok t'"
    "content t' = (content t)(sled_key B k := None)"
    using assms(1) t unfolding tree_laws_def sled_ok_def by blast
  then show ?thesis
    using sled_after_remove [OF codec t] decode_stored_content [OF codec t, of k]
    by (simp add: sled_remove_def codec_simps [OF codec] tried_act_simps)
qed

lemma sled_update_result:
  assumes "tree_laws T ok content" and codec: "codec_laws B" and t: "sled_ok B ok content t"
  shows "\<exists>t'. sled_update T B i t = (Inr (sled_lookup B content t (invoice_id i)), t') \<and>
      sled_ok B ok content t' \<and>
      sled_lookup B content t' = (if sled_lookup B content t (invoice_id i) = None
        then sled_lookup B content t else (sled_lookup B content t)(invoice_id i \<mapsto> i))"
proof -
  let ?k = "sled_key B (invoice_id i)" and ?v = "encoded_invoice B i"
  let ?f = "\<lambda>old. if old \<noteq> None then Some ?v else None"
  obtain t' where t': "tr_fetch_and_update T ?k ?f t = (Inr (content t ?k), t')" "ok t'"
    "content t' = (content t)(?k := ?f (content t ?k))"
    using assms(1) t unfolding tree_laws_def sled_ok_def by blast
  then have "sled_update T B i t = (Inr (sled_lookup B content t (invoice_id i)), t')"
    using decode_stored_content [OF codec t, of "invoice_id i"]
    by (simp add: sled_update_def codec_simps [OF codec] tried_act_simps)
  moreover have "sled_ok B ok content t' \<and> sled_lookup B content t' = sled_lookup B content t"
    if "content t ?k = None"
    using t t' that sled_after_remove [OF codec t t'(2), of "invoice_id i"] sled_lookup_None [OF codec t, of "invoice_id i"]
    by auto
  moreover have "sled_ok B ok content t' \<and>
      sled_lookup B content t' = (sled_lookup B content t)(invoice_id i \<mapsto> i)" if "content t ?k \<noteq> None"
    using t' that sled_after_put [OF codec t t'(2)] by auto
  ultimately show ?thesis using sled_lookup_None [OF codec t, of "invoice_id i"] by auto
qed

lemma sled_contains_exact:
  assumes "tree_laws T ok content" and codec: "codec_laws B" and t: "sled_ok B ok content t"
  shows "sled_contains_sub_index T B x t =
    Inr (\<exists>k. sled_lookup B content t k \<noteq> None \<and> sub_index k = x)"
proof -
  obtain p where p: "cd_index B x = Inr p" "\<forall>k b. cd_id B k = Inr b \<longrightarrow> prefix p b = (sub_index k = x)"
    using codec unfolding codec_laws_def by meson
  then have pre: "prefix p (sled_key B k) \<longleftrightarrow> sub_index k = x" for k
    by (simp add: codec_simps(1) [OF codec])
  obtain es where es: "tr_scan_prefix T p t = map Inr es"
    "set es = {(k, v). content t k = Some v \<and> prefix p k}"
    using assms(1) t unfolding tree_laws_def sled_ok_def by meson
  have "es \<noteq> [] \<longleftrightarrow> set es \<noteq> {}" by simp
  also have "\<dots> \<longleftrightarrow> (\<exists>k v. content t k = Some v \<and> prefix p k)" unfolding es(2) by auto
  also have "\<dots> \<longleftrightarrow> (\<exists>k. content t (sled_key B k) \<noteq> None \<and> sub_index k = x)"
    using t unfolding sled_ok_def by (metis not_Some_eq pre)
  finally show ?thesis
    using p(1) es(1) by (simp add: sled_contains_sub_index_def sled_lookup_None [OF codec t])
qed

lemma sled_try_iter_result:
  assumes "tree_laws T ok content" and codec: "codec_laws B" and t: "sled_ok B ok content t"
  shows "\<exists>is. sled_try_iter T B t = Inr (map Inr is) \<and> distinct (map invoice_id is) \<and>
    (\<forall>i. i \<in> set is \<longleftrightarrow> sled_lookup B content t (invoice_id i) = Some i)"
proof -
  obtain es where es: "tr_iter T t = map Inr es" "distinct (map fst es)"
    "set es = {(k, v). content t k = Some v}"
    using assms(1) t unfolding tree_laws_def sled_ok_def by meson
  let ?entry = "\<lambda>i. (sled_key B (invoice_id i), encoded_invoice B i)"
  have "\<forall>e \<in> set es. \<exists>i. e = ?entry i"
    using es(3) t unfolding sled_ok_def by auto
  then obtain "is" where "is": "es = map ?entry is"
    unfolding ex_map_conv [symmetric] ..
  have "map (sled_item B) (map Inr es) = map Inr is"
    by (simp add: "is" sled_item_def codec_simps(3) [OF codec])
  moreover have "map fst es = map (sled_key B) (map invoice_id is)" by (simp add: "is")
  then have "distinct (map invoice_id is)" using es(2) distinct_map by metis
  moreover have "i \<in> set is \<longleftrightarrow> sled_lookup B content t (invoice_id i) = Some i" for i
  proof -
    have "i \<in> set is \<longleftrightarrow> ?entry i \<in> set es"
      by (auto simp: "is" encoded_invoice_inject [OF codec])
    then show ?thesis using es(3) by (simp add: sled_lookup_content [OF codec t])
  qed
  ultimately show ?thesis
    using es(1) by (intro exI [of _ "is"]) (simp add: sled_try_iter_def)
qed

lemma sled_meets_contract:
  assumes tree: "tree_laws T ok content" and codec: "codec_laws B"
  shows "invoice_storage (sled T B) (sled_ok B ok content) (sled_lookup B content)"
proof (unfold_locales, goal_cases)
  case (1 s k i)
  then show ?case by (simp add: sled_lookup_content [OF codec 1(1)])
next
  case (2 s i)
  then show ?case using sled_insert_result [OF assms, of s i] by (simp add: sled_def)
next
  case (3 s i)
  then show ?case using sled_insert_result [OF assms, of s i] by (simp add: sled_def)
next
  case (4 s k)
  then show ?case using sled_remove_result [OF assms] by (simp add: sled_def)
next
  case (5 s i)
  then show ?case using sled_update_result [OF assms] by (simp add: sled_def)
next
  case (6 s k)
  have "tr_get T b s = Inr (content s b)" for b
    using tree 6 unfolding tree_laws_def sled_ok_def by blast
  with 6 show ?case
    by (simp add: sled_def sled_get_def codec_simps(1) [OF codec] decode_stored_content [OF codec])
next
  case (7 s x)
  then show ?case using sled_contains_exact [OF assms] by (simp add: sled_def)
next
  case (8 s k)
  then show ?case using sled_contains_exact [OF assms] by (auto simp: sled_def)
next
  case (9 s)
  then show ?case using sled_try_iter_result [OF assms] by (simp add: sled_def)
next
  case (10 s)
  then show ?case by (simp add: sled_def)
next
  case (11 s)
  have "tr_is_empty T s = (content s = Map.empty)"
    using tree 11 unfolding tree_laws_def sled_ok_def by blast
  moreover have "content s = Map.empty \<longleftrightarrow> (\<forall>k. content s (sled_key B k) = None)"
    using 11 unfolding sled_ok_def by (auto simp: fun_eq_iff) (metis not_Some_eq)
  ultimately show ?case
    using sled_lookup_None [OF codec 11] by (simp add: sled_def sled_is_empty_def)
next
  case (12 s)
  then show ?case using tree by (simp add: sled_def sled_flush_def tree_laws_def sled_ok_def)
qed

end
