(* ===== verification/Sqlite.thy ===== *)
theory Sqlite
  imports Sled
begin

text \<open>
  \<open>src/src/storage/stores/sqlite.rs\<close>: the store on a SQLite table. The connection is a record of
  operations on the database \<open>'d\<close> and its prepared statements \<open>'q\<close>; encoded invoices are lists of
  \<open>'b\<close>, as in \<open>Sled\<close>. A statement is a string with named parameters, as the code writes it.
\<close>

section \<open>The crate the store calls\<close>

datatype 'b sql_value = Integer int | Binary "8 word list" | Encoded "'b list"

text \<open>
  \<open>sq_next\<close> returns whether there is a row, with the statement moved on to it. \<open>sq_read_blob\<close> reads
  the column \<open>invoice\<close> of the row, \<open>sq_read_value\<close> and \<open>sq_read_int\<close> its first column. \<open>sq_rows\<close> is
  the cursor of a statement: an error, or a row with what reading its column \<open>invoice\<close> gives.
  \<open>sq_warn\<close> and \<open>sq_trace\<close> say whether these levels are logged; their arguments are read only then.
\<close>

record ('d, 'q, 'b) sqlite_ops =
  sq_open :: "string \<Rightarrow> string + 'd"
  sq_execute :: "string \<Rightarrow> ('d, string, unit) act"
  sq_prepare :: "string \<Rightarrow> ('d, string, 'q) act"
  sq_bind :: "(string \<times> 'b sql_value) list \<Rightarrow> 'q \<Rightarrow> string + 'q"
  sq_next :: "'q \<Rightarrow> ('d, string, bool \<times> 'q) act"
  sq_read_blob :: "'q \<Rightarrow> string + 'b list"
  sq_read_value :: "'q \<Rightarrow> string + 'b sql_value"
  sq_read_int :: "'q \<Rightarrow> string + int"
  sq_change_count :: "'d \<Rightarrow> nat"
  sq_rows :: "'q \<Rightarrow> 'd \<Rightarrow> (string + (string + 'b list)) list"
  sq_warn :: bool
  sq_trace :: bool

datatype sqlite_error =
    SqliteDatabase string
  | SqliteDuplicateEntry
  | SqliteSerialize string
  | SqliteDeserialize string

text \<open>A loop over rows that never ends is \<open>Blocked\<close>.\<close>

type_synonym ('d, 'a) sqlite_act = "('d, sqlite_error fault, 'a) act"

definition database :: "('d, string, 'a) act \<Rightarrow> ('d, 'a) sqlite_act" where
  "database = tried_act (\<lambda>e. Raise (SqliteDatabase e))"

definition read_row :: "string + 'a \<Rightarrow> ('d, 'a) sqlite_act" where
  "read_row = tried (\<lambda>e. Raise (SqliteDatabase e))"

definition wait_for :: "('d \<Rightarrow> ((sqlite_error fault + 'a) \<times> 'd) option) \<Rightarrow> ('d, 'a) sqlite_act" where
  "wait_for m = (\<lambda>d. case m d of None \<Rightarrow> (Inl Blocked, d) | Some r \<Rightarrow> r)"

section \<open>Statements\<close>

text \<open>\<open>TableName::new\<close>: the name in double quotes, with the quotes in it doubled.\<close>

definition table_name :: "string \<Rightarrow> string" where
  "table_name t = quoted (concat (map (\<lambda>c. if c = quote then [quote, quote] else [c]) t))"

definition newline :: "nat \<Rightarrow> string" where
  "newline indent = CHR 0x0A # replicate indent CHR '' ''"

definition create_sql :: "string \<Rightarrow> string" where
  "create_sql t = ''CREATE TABLE IF NOT EXISTS '' @ t @ '' ('' @ newline 16 @
     ''major_subindex  INTEGER NOT NULL,'' @ newline 16 @
     ''minor_subindex  INTEGER NOT NULL,'' @ newline 16 @
     ''creation_height BLOB NOT NULL,'' @ newline 16 @
     ''invoice  BLOB NOT NULL,'' @ newline 16 @
     ''PRIMARY KEY (major_subindex, minor_subindex, creation_height)'' @ newline 12 @ '');''"

definition insert_sql :: "string \<Rightarrow> string" where
  "insert_sql t = ''INSERT INTO '' @ t @ '' (major_subindex, minor_subindex, creation_height, invoice) '' @
     newline 12 @ ''VALUES (:major, :minor, :height, :invoice);''"

definition delete_sql :: "string \<Rightarrow> string" where
  "delete_sql t = ''DELETE FROM '' @ t @ newline 16 @
     ''WHERE major_subindex = :major AND minor_subindex = :minor AND creation_height = :height RETURNING invoice''"

definition update_sql :: "string \<Rightarrow> string" where
  "update_sql t = ''UPDATE '' @ t @ '' SET invoice = :invoice '' @ newline 20 @
     ''WHERE major_subindex = :major AND minor_subindex = :minor AND creation_height = :height''"

definition select_sql :: "string \<Rightarrow> string" where
  "select_sql t = ''SELECT invoice FROM '' @ t @ newline 12 @
     ''WHERE major_subindex = :major AND minor_subindex = :minor AND creation_height = :height''"

definition count_sql :: "string \<Rightarrow> string" where
  "count_sql t = ''SELECT COUNT(*) FROM '' @ t @ newline 12 @
     ''WHERE major_subindex = :major AND minor_subindex = :minor''"

definition select_all_sql :: "string \<Rightarrow> string" where
  "select_all_sql t = ''SELECT invoice FROM '' @ t"

text \<open>\<open>u64::to_be_bytes\<close>.\<close>

definition to_be_bytes :: "u64 \<Rightarrow> 8 word list" where
  "to_be_bytes h = map (\<lambda>i. ucast (drop_bit (8 * (7 - i)) h)) [0..<8]"

definition index_params :: "sub_index \<Rightarrow> (string \<times> 'b sql_value) list" where
  "index_params x = [('':major'', Integer (uint (major x))), ('':minor'', Integer (uint (minor x)))]"

definition id_params :: "invoice_id \<Rightarrow> (string \<times> 'b sql_value) list" where
  "id_params k = index_params (sub_index k) @ [('':height'', Binary (to_be_bytes (id_creation_height k)))]"

definition statement ::
  "('d, 'q, 'b) sqlite_ops \<Rightarrow> string \<Rightarrow> (string \<times> 'b sql_value) list \<Rightarrow> ('d, 'q) sqlite_act" where
  "statement Q sql params = bind (database (sq_prepare Q sql)) (\<lambda>q. read_row (sq_bind Q params q))"

section \<open>The store\<close>

definition sqlite_new :: "('d, 'q, 'b) sqlite_ops \<Rightarrow> string \<Rightarrow> string \<Rightarrow> sqlite_error + 'd \<times> string" where
  "sqlite_new Q path table =
     (case sq_open Q path of
        Inl e \<Rightarrow> Inl (SqliteDatabase e)
      | Inr db \<Rightarrow>
          (let escaped_table = table_name table in
           case sq_execute Q (create_sql escaped_table) db of
             (Inl e, _) \<Rightarrow> Inl (SqliteDatabase e)
           | (Inr _, db') \<Rightarrow> Inr (db', escaped_table)))"

text \<open>The loop of \<open>insert\<close>: an error ends it like the end of the rows does.\<close>

partial_function (option) drain_insert ::
  "('d, 'q, 'b) sqlite_ops \<Rightarrow> 'q \<Rightarrow> 'd \<Rightarrow> ((sqlite_error fault + unit) \<times> 'd) option" where
  "drain_insert Q q d =
     (case sq_next Q q d of
        (Inl e, d') \<Rightarrow> Some (Inr (), d')
      | (Inr (row, q'), d') \<Rightarrow>
          (if \<not> row then Some (Inr (), d')
           else if \<not> sq_warn Q then drain_insert Q q' d'
           else case sq_read_value Q q' of
             Inl e \<Rightarrow> Some (Inl (Raise (SqliteDatabase e)), d')
           | Inr _ \<Rightarrow> drain_insert Q q' d'))"

text \<open>The loop of \<open>update\<close>, which returns an error.\<close>

partial_function (option) drain_update ::
  "('d, 'q, 'b) sqlite_ops \<Rightarrow> 'q \<Rightarrow> 'd \<Rightarrow> ((sqlite_error fault + unit) \<times> 'd) option" where
  "drain_update Q q d =
     (case sq_next Q q d of
        (Inl e, d') \<Rightarrow> Some (Inl (Raise (SqliteDatabase e)), d')
      | (Inr (row, q'), d') \<Rightarrow>
          (if \<not> row then Some (Inr (), d')
           else if \<not> sq_trace Q then drain_update Q q' d'
           else case sq_read_int Q q' of
             Inl e \<Rightarrow> Some (Inl (Raise (SqliteDatabase e)), d')
           | Inr _ \<Rightarrow> drain_update Q q' d'))"

definition sqlite_insert ::
  "('d, 'q, 'b) sqlite_ops \<Rightarrow> 'b codec \<Rightarrow> string \<Rightarrow> invoice \<Rightarrow> ('d, unit) sqlite_act" where
  "sqlite_insert Q B table i =
     bind (tried (\<lambda>e. Raise (SqliteSerialize e)) (cd_invoice B i)) (\<lambda>val.
     bind (statement Q (insert_sql table) (id_params (invoice_id i) @ [('':invoice'', Encoded val)])) (\<lambda>q.
     bind (wait_for (drain_insert Q q)) (\<lambda>_.
     (\<lambda>d. if sq_change_count Q d = 0 then stop (Raise SqliteDuplicateEntry) d else ret () d))))"

text \<open>The reading of at most one row, shared by \<open>remove\<close> and \<open>get\<close>.\<close>

definition one_invoice :: "('d, 'q, 'b) sqlite_ops \<Rightarrow> 'b codec \<Rightarrow> 'q \<Rightarrow> ('d, invoice option) sqlite_act" where
  "one_invoice Q B q =
     bind (database (sq_next Q q)) (\<lambda>(row, q1).
     if \<not> row then ret None
     else bind (read_row (sq_read_blob Q q1)) (\<lambda>invoice_bytes.
          bind (database (sq_next Q q1)) (\<lambda>(row2, q2).
          bind (if row2 \<and> sq_warn Q then bind (read_row (sq_read_value Q q2)) (\<lambda>_. ret ()) else ret ()) (\<lambda>_.
          bind (tried (\<lambda>e. Raise (SqliteDeserialize e)) (cd_decode B invoice_bytes)) (\<lambda>i.
          ret (Some i))))))"

definition sqlite_remove ::
  "('d, 'q, 'b) sqlite_ops \<Rightarrow> 'b codec \<Rightarrow> string \<Rightarrow> invoice_id \<Rightarrow> ('d, invoice option) sqlite_act" where
  "sqlite_remove Q B table k = bind (statement Q (delete_sql table) (id_params k)) (one_invoice Q B)"

definition sqlite_get ::
  "('d, 'q, 'b) sqlite_ops \<Rightarrow> 'b codec \<Rightarrow> string \<Rightarrow> invoice_id \<Rightarrow> ('d, invoice option) sqlite_act" where
  "sqlite_get Q B table k = bind (statement Q (select_sql table) (id_params k)) (one_invoice Q B)"

text \<open>
  \<open>return\<close> and \<open>?\<close> inside the block of the transaction leave the function, so the block itself only
  ever ends in \<open>Ok\<close>.
\<close>

definition sqlite_update ::
  "('d, 'q, 'b) sqlite_ops \<Rightarrow> 'b codec \<Rightarrow> string \<Rightarrow> invoice \<Rightarrow> ('d, invoice option) sqlite_act" where
  "sqlite_update Q B table i =
     bind (tried (\<lambda>e. Raise (SqliteSerialize e)) (cd_invoice B i)) (\<lambda>val.
     bind (database (sq_execute Q ''BEGIN'')) (\<lambda>_.
     bind (sqlite_get Q B table (invoice_id i)) (\<lambda>stored.
     case stored of
       None \<Rightarrow> ret None
     | Some old \<Rightarrow>
         bind (statement Q (update_sql table) (('':invoice'', Encoded val) # id_params (invoice_id i))) (\<lambda>q.
         bind (wait_for (drain_update Q q)) (\<lambda>_.
         let transaction = (Inr old :: sqlite_error fault + invoice) in
         (case transaction of
            Inr updated \<Rightarrow> bind (database (sq_execute Q ''COMMIT'')) (\<lambda>_. ret (Some updated))
          | Inl e \<Rightarrow> bind (database (sq_execute Q ''ROLLBACK'')) (\<lambda>_. stop e)))))))"

definition sqlite_contains_sub_index ::
  "('d, 'q, 'b) sqlite_ops \<Rightarrow> string \<Rightarrow> sub_index \<Rightarrow> ('d, bool) sqlite_act" where
  "sqlite_contains_sub_index Q table x =
     bind (statement Q (count_sql table) (index_params x)) (\<lambda>q.
     bind (database (sq_next Q q)) (\<lambda>(row, q1).
     if \<not> row then ret False
     else bind (read_row (sq_read_int Q q1)) (\<lambda>count.
          bind (database (sq_next Q q1)) (\<lambda>(row2, q2).
          bind (if row2 \<and> sq_warn Q then bind (read_row (sq_read_value Q q2)) (\<lambda>_. ret ()) else ret ()) (\<lambda>_.
          ret (0 < count))))))"

definition sqlite_item :: "'b codec \<Rightarrow> string + (string + 'b list) \<Rightarrow> sqlite_error + invoice" where
  "sqlite_item B item =
     (case item of
        Inl e \<Rightarrow> Inl (SqliteDatabase e)
      | Inr (Inl e) \<Rightarrow> Inl (SqliteDatabase e)
      | Inr (Inr v) \<Rightarrow> (case cd_decode B v of Inl e \<Rightarrow> Inl (SqliteDeserialize e) | Inr i \<Rightarrow> Inr i))"

definition sqlite_try_iter ::
  "('d, 'q, 'b) sqlite_ops \<Rightarrow> 'b codec \<Rightarrow> string \<Rightarrow> ('d, (sqlite_error + invoice) list) sqlite_act" where
  "sqlite_try_iter Q B table =
     bind (database (sq_prepare Q (select_all_sql table))) (\<lambda>q.
     (\<lambda>d. ret (map (sqlite_item B) (sq_rows Q q d)) d))"

section \<open>The table name\<close>

text \<open>An identifier in double quotes as SQL reads it, and the rest of the statement.\<close>

fun read_quoted :: "string \<Rightarrow> (string \<times> string) option" where
  "read_quoted [] = None"
| "read_quoted [c] = (if c = quote then Some ([], []) else None)"
| "read_quoted (c # d # s) =
     (if c = quote \<and> d = quote then map_option (\<lambda>(n, r). (quote # n, r)) (read_quoted s)
      else if c = quote then Some ([], d # s)
      else map_option (\<lambda>(n, r). (c # n, r)) (read_quoted (d # s)))"

definition read_identifier :: "string \<Rightarrow> (string \<times> string) option" where
  "read_identifier s = (case s of c # t \<Rightarrow> if c = quote then read_quoted t else None | [] \<Rightarrow> None)"

lemma read_quoted_escaped:
  assumes "rest = [] \<or> hd rest \<noteq> quote"
  shows "read_quoted (concat (map (\<lambda>c. if c = quote then [quote, quote] else [c]) t) @ quote # rest) = Some (t, rest)"
proof (induction t)
  case Nil
  then show ?case using assms by (cases rest) auto
next
  case (Cons c t)
  show ?case
  proof (cases "c = quote")
    case False
    obtain d s where ds: "concat (map (\<lambda>c. if c = quote then [quote, quote] else [c]) t) @ quote # rest = d # s"
      by (cases "concat (map (\<lambda>c. if c = quote then [quote, quote] else [c]) t)") auto
    have "read_quoted (c # d # s) = map_option (\<lambda>(n, r). (c # n, r)) (read_quoted (d # s))"
      using False by simp
    with Cons False show ?thesis by (simp add: ds del: read_quoted.simps)
  qed (use Cons in simp)
qed

lemma read_table_name:
  "rest = [] \<or> hd rest \<noteq> quote \<Longrightarrow> read_identifier (table_name t @ rest) = Some (t, rest)"
  using read_quoted_escaped by (simp add: read_identifier_def table_name_def quoted_def)

section \<open>Keys\<close>

text \<open>The columns of the primary key determine the id.\<close>

lemma to_be_bytes_inject [simp]: "to_be_bytes g = to_be_bytes h \<longleftrightarrow> g = h"
proof
  assume same: "to_be_bytes g = to_be_bytes h"
  show "g = h"
  proof (rule bit_word_eqI)
    fix n
    assume n: "n < LENGTH(64)"
    define i where "i = 7 - n div 8"
    have i: "i < 8" "8 * (7 - i) + n mod 8 = n" using n by (auto simp: i_def)
    have "(ucast (drop_bit (8 * (7 - i)) g) :: 8 word) = ucast (drop_bit (8 * (7 - i)) h)"
      using arg_cong [OF same, of "\<lambda>bs. bs ! i"] i(1) by (simp add: to_be_bytes_def)
    then have "bit (ucast (drop_bit (8 * (7 - i)) g) :: 8 word) (n mod 8) =
        bit (ucast (drop_bit (8 * (7 - i)) h) :: 8 word) (n mod 8)" by simp
    then show "bit g n = bit h n" using i(2) by (simp add: bit_ucast_iff bit_drop_bit_eq)
  qed
qed simp

lemma id_params_inject [simp]: "id_params k = id_params k' \<longleftrightarrow> k = k'"
  by (cases k; cases k'; cases "sub_index k"; cases "sub_index k'")
    (auto simp: id_params_def index_params_def word_uint_eq_iff)

section \<open>What the store relies on\<close>

text \<open>
  SQLite in a state \<open>ok\<close> in which no statement fails but for the reasons below: the table is the map
  \<open>content\<close> from its primary key, which determines and is determined by the id, to the encoded
  invoice. A second \<open>BEGIN\<close> inside a transaction fails, and so does the insertion of a key that is
  there. \<open>DELETE\<close> has changed the table when it returns its first row.
\<close>

definition at_most_one ::
  "('d, 'q, 'b) sqlite_ops \<Rightarrow> 'q \<Rightarrow> 'd \<Rightarrow> 'b list option \<Rightarrow> 'd \<Rightarrow> bool" where
  "at_most_one Q q d stored d' \<longleftrightarrow>
     (case stored of
        None \<Rightarrow> (\<exists>q1. sq_next Q q d = (Inr (False, q1), d'))
      | Some v \<Rightarrow> (\<exists>q1 q2. sq_next Q q d = (Inr (True, q1), d') \<and> sq_read_blob Q q1 = Inr v \<and>
          sq_next Q q1 d' = (Inr (False, q2), d')))"

text \<open>Each law for a state \<open>d\<close>; \<open>ok\<close> holds afterwards, and \<open>tx\<close> says whether a transaction is open.\<close>

definition transaction_laws ::
  "('d, 'q, 'b) sqlite_ops \<Rightarrow> ('d \<Rightarrow> bool) \<Rightarrow> ('d \<Rightarrow> invoice_id \<rightharpoonup> 'b list) \<Rightarrow> ('d \<Rightarrow> bool) \<Rightarrow> 'd \<Rightarrow> bool" where
  "transaction_laws Q ok content tx d \<longleftrightarrow>
     (tx d \<longrightarrow> (\<exists>e. sq_execute Q ''BEGIN'' d = (Inl e, d))) \<and>
     (\<not> tx d \<longrightarrow> (\<exists>d'. sq_execute Q ''BEGIN'' d = (Inr (), d') \<and> ok d' \<and> content d' = content d \<and> tx d')) \<and>
     (tx d \<longrightarrow> (\<exists>d'. sq_execute Q ''COMMIT'' d = (Inr (), d') \<and> ok d' \<and> content d' = content d \<and> \<not> tx d'))"

definition select_law ::
  "('d, 'q, 'b) sqlite_ops \<Rightarrow> string \<Rightarrow> ('d \<Rightarrow> invoice_id \<rightharpoonup> 'b list) \<Rightarrow> 'd \<Rightarrow> bool" where
  "select_law Q table content d \<longleftrightarrow>
     (\<forall>k. \<exists>q. statement Q (select_sql table) (id_params k) d = (Inr q, d) \<and> at_most_one Q q d (content d k) d)"

definition delete_law ::
  "('d, 'q, 'b) sqlite_ops \<Rightarrow> string \<Rightarrow> ('d \<Rightarrow> bool) \<Rightarrow> ('d \<Rightarrow> invoice_id \<rightharpoonup> 'b list) \<Rightarrow> ('d \<Rightarrow> bool) \<Rightarrow> 'd \<Rightarrow> bool" where
  "delete_law Q table ok content tx d \<longleftrightarrow>
     (\<forall>k. \<exists>q d'. statement Q (delete_sql table) (id_params k) d = (Inr q, d) \<and>
        at_most_one Q q d (content d k) d' \<and> ok d' \<and> tx d' = tx d \<and> content d' = (content d)(k := None))"

definition update_law ::
  "('d, 'q, 'b) sqlite_ops \<Rightarrow> string \<Rightarrow> ('d \<Rightarrow> bool) \<Rightarrow> ('d \<Rightarrow> invoice_id \<rightharpoonup> 'b list) \<Rightarrow> ('d \<Rightarrow> bool) \<Rightarrow> 'd \<Rightarrow> bool" where
  "update_law Q table ok content tx d \<longleftrightarrow>
     (\<forall>k v. content d k \<noteq> None \<longrightarrow>
        (\<exists>q q1 d'. statement Q (update_sql table) (('':invoice'', Encoded v) # id_params k) d = (Inr q, d) \<and>
           sq_next Q q d = (Inr (False, q1), d') \<and> ok d' \<and> tx d' = tx d \<and> content d' = (content d)(k \<mapsto> v)))"

definition insert_law ::
  "('d, 'q, 'b) sqlite_ops \<Rightarrow> string \<Rightarrow> ('d \<Rightarrow> bool) \<Rightarrow> ('d \<Rightarrow> invoice_id \<rightharpoonup> 'b list) \<Rightarrow> ('d \<Rightarrow> bool) \<Rightarrow> 'd \<Rightarrow> bool" where
  "insert_law Q table ok content tx d \<longleftrightarrow>
     (\<forall>k v. \<exists>q. statement Q (insert_sql table) (id_params k @ [('':invoice'', Encoded v)]) d = (Inr q, d) \<and>
        (content d k = None \<longrightarrow> (\<exists>q1 d'. sq_next Q q d = (Inr (False, q1), d') \<and> ok d' \<and> tx d' = tx d \<and>
           content d' = (content d)(k \<mapsto> v) \<and> sq_change_count Q d' = 1)) \<and>
        (content d k \<noteq> None \<longrightarrow> (\<exists>e d'. sq_next Q q d = (Inl e, d') \<and> ok d' \<and> tx d' = tx d \<and>
           content d' = content d \<and> sq_change_count Q d' = 0)))"

definition sqlite_laws ::
  "('d, 'q, 'b) sqlite_ops \<Rightarrow> string \<Rightarrow> ('d \<Rightarrow> bool) \<Rightarrow> ('d \<Rightarrow> invoice_id \<rightharpoonup> 'b list) \<Rightarrow> ('d \<Rightarrow> bool) \<Rightarrow> bool" where
  "sqlite_laws Q table ok content tx \<longleftrightarrow> (\<forall>d. ok d \<longrightarrow>
     transaction_laws Q ok content tx d \<and> select_law Q table content d \<and>
     delete_law Q table ok content tx d \<and> update_law Q table ok content tx d \<and>
     insert_law Q table ok content tx d)"

lemma sqlite_lawsD:
  assumes "sqlite_laws Q table ok content tx" and "ok d"
  shows "transaction_laws Q ok content tx d" "select_law Q table content d"
    "delete_law Q table ok content tx d" "update_law Q table ok content tx d"
    "insert_law Q table ok content tx d"
  using assms by (simp_all add: sqlite_laws_def)

text \<open>The table holds encoded invoices under their own keys.\<close>

definition sqlite_ok :: "'b codec \<Rightarrow> ('d \<Rightarrow> bool) \<Rightarrow> ('d \<Rightarrow> invoice_id \<rightharpoonup> 'b list) \<Rightarrow> 'd \<Rightarrow> bool" where
  "sqlite_ok B ok content d \<longleftrightarrow> ok d \<and>
     (\<forall>k v. content d k = Some v \<longrightarrow> (\<exists>i. invoice_id i = k \<and> v = encoded_invoice B i))"

definition sqlite_lookup ::
  "'b codec \<Rightarrow> ('d \<Rightarrow> invoice_id \<rightharpoonup> 'b list) \<Rightarrow> 'd \<Rightarrow> invoice_id \<rightharpoonup> invoice" where
  "sqlite_lookup B content d k =
     (case content d k of
        None \<Rightarrow> None
      | Some v \<Rightarrow> (case cd_decode B v of Inl _ \<Rightarrow> None | Inr i \<Rightarrow> Some i))"

section \<open>The results of the operations\<close>

lemma database_simps:
  "m d = (Inr x, d') \<Longrightarrow> database m d = (Inr x, d')"
  "m d = (Inl e, d') \<Longrightarrow> database m d = (Inl (Raise (SqliteDatabase e)), d')"
  by (simp_all add: database_def tried_act_def)

lemma read_row_simps [simp]: "read_row (Inr x) d = (Inr x, d)"
  by (simp add: read_row_def)

lemma sqlite_okD: "sqlite_ok B ok content d \<Longrightarrow> ok d"
  by (simp add: sqlite_ok_def)

lemma sqlite_stored:
  assumes "codec_laws B" and "sqlite_ok B ok content d"
  shows "content d k = None \<and> sqlite_lookup B content d k = None \<or>
    (\<exists>i. content d k = Some (encoded_invoice B i) \<and> invoice_id i = k \<and> sqlite_lookup B content d k = Some i)"
proof (cases "content d k")
  case (Some v)
  then obtain i where "invoice_id i = k" "v = encoded_invoice B i"
    using assms(2) unfolding sqlite_ok_def by blast
  with Some show ?thesis by (auto simp: sqlite_lookup_def codec_simps(3) [OF assms(1)])
qed (simp add: sqlite_lookup_def)

lemma sqlite_lookup_None:
  "codec_laws B \<Longrightarrow> sqlite_ok B ok content d \<Longrightarrow>
   sqlite_lookup B content d k = None \<longleftrightarrow> content d k = None"
  using sqlite_stored [of B ok content d k] by auto

lemma one_invoice_result:
  assumes "codec_laws B" and "sqlite_ok B ok content d" and "at_most_one Q q d (content d k) d'"
  shows "one_invoice Q B q d = (Inr (sqlite_lookup B content d k), d')"
  using sqlite_stored [OF assms(1,2), of k] assms(3)
  by (auto simp: at_most_one_def one_invoice_def database_simps codec_simps(3) [OF assms(1)])

lemma sqlite_after:
  assumes "codec_laws B" and "sqlite_ok B ok content d" and "ok d'"
  shows "content d' = content d \<Longrightarrow> sqlite_ok B ok content d' \<and>
      sqlite_lookup B content d' = sqlite_lookup B content d"
    and "content d' = (content d)(k := None) \<Longrightarrow> sqlite_ok B ok content d' \<and>
      sqlite_lookup B content d' = (sqlite_lookup B content d)(k := None)"
    and "content d' = (content d)(invoice_id i \<mapsto> encoded_invoice B i) \<Longrightarrow> sqlite_ok B ok content d' \<and>
      sqlite_lookup B content d' = (sqlite_lookup B content d)(invoice_id i \<mapsto> i)"
  using assms(2,3)
  by (auto simp: sqlite_ok_def sqlite_lookup_def fun_eq_iff codec_simps(3) [OF assms(1)])

lemma sqlite_get_result:
  assumes "sqlite_laws Q table ok content tx" and codec: "codec_laws B" and d: "sqlite_ok B ok content d"
  shows "sqlite_get Q B table k d = (Inr (sqlite_lookup B content d k), d)"
proof -
  obtain q where "statement Q (select_sql table) (id_params k) d = (Inr q, d)"
    "at_most_one Q q d (content d k) d"
    using sqlite_lawsD(2) [OF assms(1) sqlite_okD [OF d]] unfolding select_law_def by meson
  then show ?thesis by (simp add: sqlite_get_def one_invoice_result [OF codec d])
qed

lemma sqlite_remove_result:
  assumes "sqlite_laws Q table ok content tx" and codec: "codec_laws B" and d: "sqlite_ok B ok content d"
  shows "\<exists>d'. sqlite_remove Q B table k d = (Inr (sqlite_lookup B content d k), d') \<and>
    sqlite_ok B ok content d' \<and> tx d' = tx d \<and>
    sqlite_lookup B content d' = (sqlite_lookup B content d)(k := None)"
proof -
  obtain q d' where "statement Q (delete_sql table) (id_params k) d = (Inr q, d)"
    "at_most_one Q q d (content d k) d'" "ok d'" "tx d' = tx d" "content d' = (content d)(k := None)"
    using sqlite_lawsD(3) [OF assms(1) sqlite_okD [OF d]] unfolding delete_law_def by meson
  then show ?thesis
    using sqlite_after(2) [OF codec d] by (simp add: sqlite_remove_def one_invoice_result [OF codec d])
qed

lemma sqlite_insert_result:
  assumes "sqlite_laws Q table ok content tx" and codec: "codec_laws B" and d: "sqlite_ok B ok content d"
  shows "\<exists>d'. sqlite_ok B ok content d' \<and> tx d' = tx d \<and>
    (if sqlite_lookup B content d (invoice_id i) = None
     then sqlite_insert Q B table i d = (Inr (), d') \<and>
       sqlite_lookup B content d' = (sqlite_lookup B content d)(invoice_id i \<mapsto> i)
     else sqlite_insert Q B table i d = (Inl (Raise SqliteDuplicateEntry), d') \<and>
       sqlite_lookup B content d' = sqlite_lookup B content d)"
proof -
  let ?k = "invoice_id i" and ?v = "encoded_invoice B i"
  obtain q where q: "statement Q (insert_sql table) (id_params ?k @ [('':invoice'', Encoded ?v)]) d = (Inr q, d)"
    and new: "content d ?k = None \<Longrightarrow> \<exists>q1 d'. sq_next Q q d = (Inr (False, q1), d') \<and> ok d' \<and> tx d' = tx d \<and>
      content d' = (content d)(?k \<mapsto> ?v) \<and> sq_change_count Q d' = 1"
    and old: "content d ?k \<noteq> None \<Longrightarrow> \<exists>e d'. sq_next Q q d = (Inl e, d') \<and> ok d' \<and> tx d' = tx d \<and>
      content d' = content d \<and> sq_change_count Q d' = 0"
    using sqlite_lawsD(5) [OF assms(1) sqlite_okD [OF d]] unfolding insert_law_def by meson
  have insert: "sqlite_insert Q B table i d =
      (if sq_change_count Q d' = 0 then (Inl (Raise SqliteDuplicateEntry), d') else (Inr (), d'))"
    if "sq_next Q q d = (Inl e, d') \<or> sq_next Q q d = (Inr (False, q1), d')" for e q1 d'
  proof -
    have "drain_insert Q q d = Some (Inr (), d')"
      using that by (subst drain_insert.simps) auto
    then show ?thesis
      using q by (simp add: sqlite_insert_def codec_simps(2) [OF codec] wait_for_def)
  qed
  show ?thesis
  proof (cases "content d ?k")
    case None
    from new [OF this] obtain q1 d' where d': "sq_next Q q d = (Inr (False, q1), d')" "ok d'" "tx d' = tx d"
      "content d' = (content d)(?k \<mapsto> ?v)" "sq_change_count Q d' = 1" by blast
    with None sqlite_after(3) [OF codec d d'(2,4)] insert [of _ d' q1] show ?thesis
      by (intro exI [of _ d']) (simp add: sqlite_lookup_None [OF codec d])
  next
    case (Some v)
    then have stored: "content d ?k \<noteq> None" by simp
    from old [OF this] obtain e d' where d': "sq_next Q q d = (Inl e, d')" "ok d'" "tx d' = tx d"
      "content d' = content d" "sq_change_count Q d' = 0" by blast
    with stored sqlite_after(1) [OF codec d d'(2,4)] insert [of e d'] show ?thesis
      by (intro exI [of _ d']) (simp add: sqlite_lookup_None [OF codec d])
  qed
qed

lemma sqlite_update_result:
  assumes laws: "sqlite_laws Q table ok content tx" and codec: "codec_laws B"
    and d: "sqlite_ok B ok content d" and tx: "\<not> tx d"
  shows "\<exists>d'. sqlite_update Q B table i d = (Inr (sqlite_lookup B content d (invoice_id i)), d') \<and>
    sqlite_ok B ok content d' \<and> tx d' = (sqlite_lookup B content d (invoice_id i) = None) \<and>
    sqlite_lookup B content d' = (if sqlite_lookup B content d (invoice_id i) = None
      then sqlite_lookup B content d else (sqlite_lookup B content d)(invoice_id i \<mapsto> i))"
proof -
  let ?k = "invoice_id i" and ?v = "encoded_invoice B i"
  obtain d1 where d1: "sq_execute Q ''BEGIN'' d = (Inr (), d1)" "ok d1" "content d1 = content d" "tx d1"
    using sqlite_lawsD(1) [OF laws sqlite_okD [OF d]] tx unfolding transaction_laws_def by meson
  from sqlite_after(1) [OF codec d d1(2,3)]
  have ok1: "sqlite_ok B ok content d1" and same: "sqlite_lookup B content d1 = sqlite_lookup B content d"
    by simp_all
  note get = sqlite_get_result [OF laws codec ok1, of ?k]
  show ?thesis
  proof (cases "sqlite_lookup B content d ?k")
    case None
    then show ?thesis
      using d1(1,4) get ok1 same
      by (intro exI [of _ d1]) (simp add: sqlite_update_def codec_simps(2) [OF codec] database_simps)
  next
    case (Some old)
    then have "content d1 ?k \<noteq> None" using sqlite_lookup_None [OF codec d, of ?k] d1(3) by auto
    then obtain q q1 d2 where q: "statement Q (update_sql table) (('':invoice'', Encoded ?v) # id_params ?k) d1 = (Inr q, d1)"
      "sq_next Q q d1 = (Inr (False, q1), d2)" "ok d2" "tx d2 = tx d1" "content d2 = (content d1)(?k \<mapsto> ?v)"
      using sqlite_lawsD(4) [OF laws d1(2)] unfolding update_law_def by meson
    obtain d3 where d3: "sq_execute Q ''COMMIT'' d2 = (Inr (), d3)" "ok d3" "content d3 = content d2" "\<not> tx d3"
      using sqlite_lawsD(1) [OF laws q(3)] q(4) d1(4) unfolding transaction_laws_def by meson
    have "drain_update Q q d1 = Some (Inr (), d2)"
      using q(2) by (subst drain_update.simps) simp
    then have "sqlite_update Q B table i d = (Inr (Some old), d3)"
      using Some d1(1) get same q(1) d3(1)
      by (simp add: sqlite_update_def codec_simps(2) [OF codec] database_simps wait_for_def)
    moreover have "content d3 = (content d)(?k \<mapsto> ?v)" using d3(3) q(5) d1(3) by simp
    ultimately show ?thesis
      using Some d3(2,4) sqlite_after(3) [OF codec d d3(2)] by (intro exI [of _ d3]) simp
  qed
qed

lemma sqlite_update_in_transaction:
  assumes "sqlite_laws Q table ok content tx" and "codec_laws B" and "ok d" and "tx d"
  shows "\<exists>e. sqlite_update Q B table i d = (Inl (Raise (SqliteDatabase e)), d)"
proof -
  obtain e where "sq_execute Q ''BEGIN'' d = (Inl e, d)"
    using sqlite_lawsD(1) [OF assms(1,3)] assms(4) unfolding transaction_laws_def by meson
  then show ?thesis
    by (simp add: sqlite_update_def codec_simps(2) [OF assms(2)] database_simps)
qed

end
