(* ===== verification/Custom_Storage.thy ===== *)
theory Custom_Storage
  imports Gateway_Calls
begin

text \<open>
  \<open>src/examples/custom_storage/main.rs\<close>: a storage layer written by a user of the library, which meets
  the contract of the trait, and the demonstration that runs on it.
\<close>

section \<open>The storage layer\<close>

datatype custom_error = CustomDuplicateEntry

type_synonym custom_store = "(invoice_id, invoice) btree_map"

definition custom_new :: custom_store where
  "custom_new = []"

definition custom_insert :: "invoice \<Rightarrow> (custom_store, custom_error, unit) act" where
  "custom_insert i =
     (\<lambda>m. if map_of m (invoice_id i) \<noteq> None then (Inl CustomDuplicateEntry, m)
          else (Inr (), bt_insert (invoice_id i) i m))"

definition custom_remove :: "invoice_id \<Rightarrow> (custom_store, custom_error, invoice option) act" where
  "custom_remove k = (\<lambda>m. (Inr (map_of m k), bt_remove k m))"

definition custom_update :: "invoice \<Rightarrow> (custom_store, custom_error, invoice option) act" where
  "custom_update i =
     (\<lambda>m. case map_of m (invoice_id i) of
            Some old \<Rightarrow> (Inr (Some old), bt_insert (invoice_id i) i m)
          | None \<Rightarrow> (Inr None, m))"

definition custom_get :: "invoice_id \<Rightarrow> custom_store \<Rightarrow> custom_error + invoice option" where
  "custom_get k m = Inr (map_of m k)"

definition custom_contains_sub_index :: "sub_index \<Rightarrow> custom_store \<Rightarrow> custom_error + bool" where
  "custom_contains_sub_index x m = Inr (bt_range_from (InvoiceId x 0) m \<noteq> [])"

definition custom_try_iter :: "custom_store \<Rightarrow> custom_error + (custom_error + invoice) list" where
  "custom_try_iter m = Inr (map (\<lambda>(_, i). Inr i) m)"

definition custom_storage :: "(custom_store, custom_error) storage_ops" where
  "custom_storage =
     \<lparr>st_insert = custom_insert, st_remove = custom_remove, st_update = custom_update,
      st_get = custom_get, st_contains_sub_index = custom_contains_sub_index,
      st_try_iter = custom_try_iter,
      st_lowest_height = default_lowest_height custom_try_iter,
      st_is_empty = default_is_empty custom_try_iter, st_flush = default_flush\<rparr>"

lemmas custom_defs =
  custom_insert_def custom_remove_def custom_update_def custom_get_def
  custom_contains_sub_index_def custom_try_iter_def

lemma custom_contains_iff:
  "custom_contains_sub_index x m = Inr (\<exists>k \<in> fst ` set m. x \<le> sub_index k)"
  using in_memory_contains_iff [of x m]
  by (simp add: custom_contains_sub_index_def in_memory_contains_sub_index_def)

interpretation custom: invoice_storage custom_storage in_memory_ok map_of
proof unfold_locales
  fix s :: custom_store and k i
  show "in_memory_ok s \<Longrightarrow> map_of s k = Some i \<Longrightarrow> invoice_id i = k" by (rule in_memory_keyed)
next
  fix s :: custom_store and i
  assume "in_memory_ok s" "map_of s (invoice_id i) = None"
  then show "\<exists>s'. st_insert custom_storage i s = (Inr (), s') \<and> in_memory_ok s' \<and>
      map_of s' = (map_of s)(invoice_id i \<mapsto> i)"
    by (simp add: custom_storage_def custom_defs in_memory_ok_insert)
next
  fix s :: custom_store and k i
  assume ok: "in_memory_ok s"
  show "\<exists>s'. st_remove custom_storage k s = (Inr (map_of s k), s') \<and> in_memory_ok s' \<and>
      map_of s' = (map_of s)(k := None)"
    using ok by (simp add: custom_storage_def custom_defs in_memory_ok_remove)
  show "\<exists>s'. st_update custom_storage i s = (Inr (map_of s (invoice_id i)), s') \<and> in_memory_ok s' \<and>
      map_of s' = (if map_of s (invoice_id i) = None then map_of s
                   else (map_of s)(invoice_id i \<mapsto> i))"
    using ok by (auto simp: custom_storage_def custom_defs in_memory_ok_insert split: option.splits)
  show "\<exists>is. st_try_iter custom_storage s = Inr (map Inr is) \<and> distinct (map invoice_id is) \<and>
      (\<forall>i. i \<in> set is \<longleftrightarrow> map_of s (invoice_id i) = Some i)"
    using in_memory_iter [OF ok]
    by (intro exI [of _ "map snd s"]) (auto simp: custom_storage_def custom_defs)
next
  fix s :: custom_store and k
  assume "map_of s k \<noteq> None"
  then show "st_contains_sub_index custom_storage (sub_index k) s = Inr True"
    by (force simp: custom_storage_def custom_contains_iff dest: map_of_SomeD)
next
  fix s :: custom_store
  show "st_is_empty custom_storage s = Inr (\<forall>k. map_of s k = None)"
    by (cases s) (auto simp: custom_storage_def default_is_empty_def custom_defs)
qed (auto simp: custom_storage_def custom_defs default_flush_def)

section \<open>The demonstration\<close>

text \<open>On a gateway that was built: \<open>unwrap\<close> and \<open>expect\<close> panic.\<close>

definition unwrapped :: "('s, 'e fault, 'a) act \<Rightarrow> ('s, 'e fault, 'a) act" where
  "unwrapped m = (\<lambda>s. case m s of (Inl (Raise e), s') \<Rightarrow> (Inl Panic, s') | r \<Rightarrow> r)"

definition demo ::
  "('s, 'e) storage_ops \<Rightarrow> (nat \<Rightarrow> 'r \<Rightarrow> nat \<times> 'r) \<Rightarrow> (sub_index \<Rightarrow> string) \<Rightarrow>
   ('tx, 'k, 's, 'w, 'r, 'e, invoice) gw_act" where
  "demo S gen_range addr =
     bind (unwrapped (new_invoice S gen_range addr 1000 2 5 ''Demo invoice'')) (\<lambda>k.
     bind (unwrapped (get_invoice S k)) (\<lambda>found.
       case found of Some i \<Rightarrow> ret i | None \<Rightarrow> stop Panic))"

context invoice_storage
begin

text \<open>On every store that meets the contract, an invoice is found as it was created.\<close>

lemma demo_finds_invoice:
  fixes g :: "('tx, 'k, 's, 'w, 'r, 'e) gateway"
  assumes "ok (gw_store g)"
    and "draw gen_range addr (gw_subaddresses g) = (Inr (x, a) :: 'e accept_xmr_error fault + _, c)"
    and "lookup (gw_store g) (InvoiceId x (gw_cached_daemon_height g)) = None"
  shows "\<exists>g'. demo S gen_range addr g =
    (Inr (invoice_new a x (gw_cached_daemon_height g) 1000 2 5 ''Demo invoice''), g')"
proof -
  let ?i = "invoice_new a x (gw_cached_daemon_height g) 1000 2 5 ''Demo invoice''"
  from insert_new [OF assms(1), of ?i] assms(3) obtain s where
    s: "st_insert S ?i (gw_store g) = (Inr (), s)" "ok s" "lookup s (InvoiceId x (gw_cached_daemon_height g)) = Some ?i"
    by auto
  then show ?thesis
    using assms(2) get [OF s(2)]
    by (simp add: demo_def unwrapped_def new_invoice_def get_invoice_def gw_on_pool_def gw_get_def
        gw_on_store_def gw_on_publisher_def bind_apply Let_def)
qed

end

end
