(* ===== verification/Persistence.thy ===== *)
theory Persistence
  imports Builder Sqlite Custom_Storage
begin

text \<open>
  \<open>src/examples/persistence/main.rs\<close>: a gateway on the SQLite store, before and after the process is
  started again. For this the store of \<open>Sqlite\<close> is put together as an implementation of the trait.
\<close>

section \<open>The trait on the SQLite store\<close>

text \<open>
  The reading methods borrow the store: what they do to the database is dropped, and by the laws of the
  database there is nothing to drop. The errors are faults, since a write can wait for rows without an
  end.
\<close>

definition sqlite_storage ::
  "('d, 'q, 'b) sqlite_ops \<Rightarrow> 'b codec \<Rightarrow> string \<Rightarrow> ('d, sqlite_error fault) storage_ops" where
  "sqlite_storage Q B table =
     (let try_iter = (\<lambda>d. map_sum id (map (map_sum Raise id)) (fst (sqlite_try_iter Q B table d))) in
      \<lparr>st_insert = sqlite_insert Q B table, st_remove = sqlite_remove Q B table,
       st_update = sqlite_update Q B table, st_get = (\<lambda>k d. fst (sqlite_get Q B table k d)),
       st_contains_sub_index = (\<lambda>x d. fst (sqlite_contains_sub_index Q table x d)),
       st_try_iter = try_iter, st_lowest_height = default_lowest_height try_iter,
       st_is_empty = default_is_empty try_iter, st_flush = default_flush\<rparr>)"

text \<open>What \<open>SELECT invoice FROM\<close> the table returns: one row for each key, in some order.\<close>

definition rows_law ::
  "('d, 'q, 'b) sqlite_ops \<Rightarrow> string \<Rightarrow> ('d \<Rightarrow> bool) \<Rightarrow> ('d \<Rightarrow> invoice_id \<rightharpoonup> 'b list) \<Rightarrow> bool" where
  "rows_law Q table ok content \<longleftrightarrow> (\<forall>d. ok d \<longrightarrow>
     (\<exists>q es. sq_prepare Q (select_all_sql table) d = (Inr q, d) \<and> distinct (map fst es) \<and>
        set es = {(k, v). content d k = Some v} \<and> sq_rows Q q d = map (\<lambda>(_, v). Inr (Inr v)) es))"

lemma sqlite_iter:
  assumes rows: "rows_law Q table ok content" and codec: "codec_laws B" and d: "sqlite_ok B ok content d"
  shows "\<exists>is. st_try_iter (sqlite_storage Q B table) d = Inr (map Inr is) \<and> distinct (map invoice_id is) \<and>
    (\<forall>i. i \<in> set is \<longleftrightarrow> sqlite_lookup B content d (invoice_id i) = Some i)"
proof -
  let ?L = "sqlite_lookup B content d"
  obtain q es where q: "sq_prepare Q (select_all_sql table) d = (Inr q, d)" "distinct (map fst es)"
    "set es = {(k, v). content d k = Some v}" "sq_rows Q q d = map (\<lambda>(_, v). Inr (Inr v)) es"
    using rows sqlite_okD [OF d] unfolding rows_law_def by meson
  have stored: "content d (fst e) = Some (snd e)" if "e \<in> set es" for e using that q(3) by auto
  have decoded: "cd_decode B (snd e) = Inr (the (?L (fst e)))" "invoice_id (the (?L (fst e))) = fst e"
    if "e \<in> set es" for e
    using sqlite_stored [OF codec d, of "fst e"] stored [OF that] by (auto simp: codec_simps(3) [OF codec])
  let ?is = "map (\<lambda>e. the (?L (fst e))) es"
  have item: "map_sum Raise id (sqlite_item B (Inr (Inr (snd e)))) = Inr (the (?L (fst e)))" if "e \<in> set es" for e
    by (simp add: sqlite_item_def decoded(1) [OF that])
  then have items: "map (\<lambda>e. map_sum Raise id (sqlite_item B (Inr (Inr (snd e))))) es = map Inr ?is" by simp
  have "st_try_iter (sqlite_storage Q B table) d = Inr (map Inr ?is)"
    using items q(1,4)
    by (simp add: sqlite_storage_def Let_def sqlite_try_iter_def database_simps comp_def split_def)
  moreover have ids: "map invoice_id ?is = map fst es" using decoded(2) by simp
  moreover have "i \<in> set ?is \<longleftrightarrow> ?L (invoice_id i) = Some i" for i
  proof
    assume "i \<in> set ?is"
    then obtain e where e: "e \<in> set es" "i = the (?L (fst e))" by auto
    with decoded [OF e(1)] sqlite_stored [OF codec d, of "fst e"] stored [OF e(1)]
    show "?L (invoice_id i) = Some i" by auto
  next
    assume i: "?L (invoice_id i) = Some i"
    then obtain v where "(invoice_id i, v) \<in> set es"
      using sqlite_lookup_None [OF codec d, of "invoice_id i"] q(3) by auto
    then show "i \<in> set ?is" using i by (force intro: rev_image_eqI)
  qed
  ultimately show ?thesis using q(2) by (intro exI [of _ ?is]) (simp only:, simp)
qed

section \<open>The program\<close>

definition persistence_url :: string where
  "persistence_url = ''http://node.sethforprivacy.com:18089''"

text \<open>\<open>unwrap\<close> of a result without a state.\<close>

definition unwrap :: "'e + 'a \<Rightarrow> 'f fault + 'a" where
  "unwrap r = (case r of Inl _ \<Rightarrow> Inl Panic | Inr x \<Rightarrow> Inr x)"

definition found_invoice ::
  "('s, 'e) storage_ops \<Rightarrow> invoice_id \<Rightarrow> ('tx, 'k, 's, 'w, 'r, 'e, invoice) gw_act" where
  "found_invoice S k = bind (unwrapped (get_invoice S k)) (\<lambda>r. case r of Some i \<Rightarrow> ret i | None \<Rightarrow> stop Panic)"

definition create_and_find ::
  "('s, 'e) storage_ops \<Rightarrow> (nat \<Rightarrow> 'r \<Rightarrow> nat \<times> 'r) \<Rightarrow> (sub_index \<Rightarrow> string) \<Rightarrow>
   ('tx, 'k, 's, 'w, 'r, 'e, invoice_id \<times> invoice) gw_act" where
  "create_and_find S gen_range addr =
     bind (unwrapped (new_invoice S gen_range addr 1000 2 5 ''Demo invoice'')) (\<lambda>k.
     bind (found_invoice S k) (\<lambda>i. ret (k, i)))"

text \<open>
  The store and the gateway on it, which both halves of the program build. The database of the path is
  opened by \<open>sq_open\<close>.
\<close>

definition open_gateway ::
  "('v, 'p, 'r) build_ops \<Rightarrow> ('d, 'q, 'b) sqlite_ops \<Rightarrow> 'b codec \<Rightarrow> string \<Rightarrow> string \<Rightarrow> 'w \<Rightarrow>
   'f fault + ('d, sqlite_error fault) storage_ops \<times> (sub_index \<Rightarrow> string) \<times>
     ('tx, 'k, 'd, 'w, 'r, sqlite_error fault) gateway" where
  "open_gateway P Q B private_view_key primary_address w =
     (case unwrap (sqlite_new Q ''examples/persistence/AcceptXMR_DB'' ''invoices'') of
        Inl f \<Rightarrow> Inl f
      | Inr (store, table) \<Rightarrow>
          (let S = sqlite_storage Q B table;
               b = builder_set (DaemonUrl persistence_url)
                     (builder_new private_view_key primary_address store)
           in case unwrap (builder_build P S w b) of
                Inl f \<Rightarrow> Inl f
              | Inr (_, viewpair, g) \<Rightarrow> Inr (S, bo_subaddress P viewpair, g)))"

text \<open>
  The power failure drops the gateway; \<open>disk d\<close> opens the files that a database in the state \<open>d\<close>
  leaves behind. The result are the two invoices that are printed, and the second gateway.
\<close>

definition persistence_demo ::
  "('v, 'p, 'r) build_ops \<Rightarrow> ('d, 'q, 'b) sqlite_ops \<Rightarrow> 'b codec \<Rightarrow> ('d \<Rightarrow> string \<Rightarrow> string + 'd) \<Rightarrow>
   string \<Rightarrow> string \<Rightarrow> (nat \<Rightarrow> 'r \<Rightarrow> nat \<times> 'r) \<Rightarrow> 'w \<Rightarrow>
   sqlite_error fault accept_xmr_error fault +
     invoice \<times> invoice \<times> ('tx, 'k, 'd, 'w, 'r, sqlite_error fault) gateway" where
  "persistence_demo P Q B disk private_view_key primary_address gen_range w =
     (case open_gateway P Q B private_view_key primary_address w of
        Inl f \<Rightarrow> Inl f
      | Inr (S, addr, g) \<Rightarrow>
          (case create_and_find S gen_range addr
              (g :: ('tx, 'k, 'd, 'w, 'r, sqlite_error fault) gateway) of
             (Inl f, _) \<Rightarrow> Inl f
           | (Inr (k, i), g1) \<Rightarrow>
               (case open_gateway P (Q\<lparr>sq_open := disk (gw_store g1)\<rparr>) B private_view_key primary_address
                    (gw_world g1) of
                  Inl f \<Rightarrow> Inl f
                | Inr (S', _, g2) \<Rightarrow>
                    (case found_invoice S' k g2 of
                       (Inl f, _) \<Rightarrow> Inl f
                     | (Inr i', g3) \<Rightarrow> Inr (i, i', g3)))))"

section \<open>What the program prints\<close>

text \<open>
  The files of a database that is closed outside of a transaction hold its content, and creating the
  table again changes nothing.
\<close>

definition reopens ::
  "('d, 'q, 'b) sqlite_ops \<Rightarrow> string \<Rightarrow> string \<Rightarrow> ('d \<Rightarrow> bool) \<Rightarrow> ('d \<Rightarrow> invoice_id \<rightharpoonup> 'b list) \<Rightarrow>
   ('d \<Rightarrow> bool) \<Rightarrow> ('d \<Rightarrow> string \<Rightarrow> string + 'd) \<Rightarrow> bool" where
  "reopens Q path table ok content tx disk \<longleftrightarrow> (\<forall>d. ok d \<longrightarrow> \<not> tx d \<longrightarrow>
     (\<exists>d0 d1. disk d path = Inr d0 \<and> sq_execute Q (create_sql table) d0 = (Inr (), d1) \<and>
        ok d1 \<and> content d1 = content d \<and> \<not> tx d1))"

text \<open>The laws are not about \<open>sq_open\<close>.\<close>

lemma statement_sq_open [simp]: "statement (Q\<lparr>sq_open := f\<rparr>) = statement Q"
  by (simp add: statement_def fun_eq_iff)

lemma at_most_one_sq_open [simp]: "at_most_one (Q\<lparr>sq_open := f\<rparr>) q d v d' = at_most_one Q q d v d'"
  by (simp add: at_most_one_def split: option.split)

lemma laws_sq_open [simp]:
  "sqlite_laws (Q\<lparr>sq_open := f\<rparr>) table ok content tx = sqlite_laws Q table ok content tx"
  "rows_law (Q\<lparr>sq_open := f\<rparr>) table ok content = rows_law Q table ok content"
  by (simp_all add: sqlite_laws_def rows_law_def transaction_laws_def select_law_def delete_law_def
      update_law_def insert_law_def)

lemma sqlite_lookup_content:
  "content d' = content d \<Longrightarrow> sqlite_lookup B content d' = sqlite_lookup B content d"
  by (simp add: sqlite_lookup_def fun_eq_iff)

lemma open_gateway_eq:
  fixes P :: "('v, 'p, 'r) build_ops" and Q :: "('d, 'q, 'b) sqlite_ops" and w :: 'w
  assumes new: "sqlite_new Q ''examples/persistence/AcceptXMR_DB'' ''invoices'' = Inr (d, table)"
    and keys: "bo_uri P persistence_url = Inr url" "bo_private_key P private_view_key = Inr view"
      "bo_spend_key P primary_address = Inr spend"
    and iter: "st_try_iter (sqlite_storage Q B table) d = Inr (map Inr is)"
  shows "\<exists>g :: ('tx, 'k, 'd, 'w, 'r, sqlite_error fault) gateway.
    open_gateway P Q B private_view_key primary_address w =
      Inr (sqlite_storage Q B table, bo_subaddress P (view, spend), g) \<and>
    gw_store g = d \<and> gw_world g = w \<and> gw_cached_daemon_height g = 0 \<and>
    pool_ok (bo_subaddress P (view, spend)) (gw_subaddresses g) \<and>
    sc_major_index (gw_subaddresses g) = 0 \<and>
    sc_highest_minor_index (gw_subaddresses g) =
      max 99 (if is = [] then 0 else minor (Max (index ` set is))) \<and>
    available (gw_subaddresses g) =
      {SubIndex 0 m | m. m \<le> sc_highest_minor_index (gw_subaddresses g)} - index ` set is"
proof -
  obtain g :: "('tx, 'k, 'd, 'w, 'r, sqlite_error fault) gateway" where
    g: "gateway_build (sqlite_storage Q B table) (bo_subaddress P (view, spend)) 0 (bo_pool_rng P None) w d = Inr g"
    "gw_store g = d" "gw_world g = w" "gw_cached_daemon_height g = 0"
    "pool_ok (bo_subaddress P (view, spend)) (gw_subaddresses g)" "sc_major_index (gw_subaddresses g) = 0"
    "sc_highest_minor_index (gw_subaddresses g) = max 99 (if is = [] then 0 else minor (Max (index ` set is)))"
    "available (gw_subaddresses g) =
      {SubIndex 0 m | m. m \<le> sc_highest_minor_index (gw_subaddresses g)} - index ` set is"
    using gateway_build_eq [OF iter, of "bo_subaddress P (view, spend)" 0 "bo_pool_rng P None" w,
        where ?'tx = 'tx and ?'k = 'k] by blast
  then have "open_gateway P Q B private_view_key primary_address w =
      Inr (sqlite_storage Q B table, bo_subaddress P (view, spend), g)"
    by (simp add: open_gateway_def new unwrap_def builder_build_def parsed_def builder_new_def keys Let_def)
  with g(2-) show ?thesis by blast
qed

text \<open>The first half of the program, on any gateway over the database.\<close>

lemma create_and_find_result:
  fixes g :: "('tx, 'k, 'd, 'w, 'r, sqlite_error fault) gateway"
  assumes laws: "sqlite_laws Q table ok content tx" and codec: "codec_laws B"
    and d: "sqlite_ok B ok content (gw_store g)" "\<not> tx (gw_store g)"
    and draw: "draw gen_range addr (gw_subaddresses g) =
      (Inr (x, a) :: sqlite_error fault accept_xmr_error fault + _, c)"
    and i: "i = invoice_new a x (gw_cached_daemon_height g) 1000 2 5 ''Demo invoice''"
    and fresh: "sqlite_lookup B content (gw_store g) (invoice_id i) = None"
  shows "\<exists>g'. create_and_find (sqlite_storage Q B table) gen_range addr g = (Inr (invoice_id i, i), g') \<and>
    sqlite_ok B ok content (gw_store g') \<and> \<not> tx (gw_store g') \<and>
    sqlite_lookup B content (gw_store g') = (sqlite_lookup B content (gw_store g))(invoice_id i \<mapsto> i)"
proof -
  obtain d' where d': "sqlite_insert Q B table i (gw_store g) = (Inr (), d')" "sqlite_ok B ok content d'" "\<not> tx d'"
    "sqlite_lookup B content d' = (sqlite_lookup B content (gw_store g))(invoice_id i \<mapsto> i)"
    using sqlite_insert_result [OF laws codec d(1), of i] fresh d(2) by auto
  have "sqlite_get Q B table (invoice_id i) d' = (Inr (Some i), d')"
    using sqlite_get_result [OF laws codec d'(2), of "invoice_id i"] d'(4) by simp
  with d' draw show ?thesis
    by (simp add: create_and_find_def found_invoice_def unwrapped_def new_invoice_def get_invoice_def gw_on_pool_def
        gw_get_def gw_on_store_def gw_on_publisher_def bind_apply Let_def sqlite_storage_def i)
qed

lemma found_result:
  assumes "sqlite_laws Q table ok content tx" and "codec_laws B" and "sqlite_ok B ok content (gw_store g)"
    and "sqlite_lookup B content (gw_store g) k = Some i"
  shows "found_invoice (sqlite_storage Q B table) k g = (Inr i, g)"
  using sqlite_get_result [OF assms(1-3), of k] assms(4)
  by (simp add: found_invoice_def unwrapped_def get_invoice_def gw_on_store_def sqlite_storage_def Let_def bind_apply)

text \<open>The highest minor index of a pool covers what it has handed out before.\<close>

lemma minor_below_new_highest:
  assumes "finite A" and "minor x \<le> max 99 (if A = {} then 0 else minor (Max A))"
  shows "minor x \<le> max 99 (minor (Max (insert x A)))"
  using assms by (cases "A = {}") (auto simp: max_def split: if_splits)

lemma draw_in_range:
  fixes c :: "'r subaddress_cache"
  assumes "pool_ok addr c" and "sc_available c \<noteq> []"
    and range: "\<And>n r. 0 < n \<Longrightarrow> fst (gen_range n r) < n"
  shows "\<exists>x c'. draw gen_range addr c = (Inr (x, addr x) :: 'e fault + _, c') \<and> x \<in> available c"
proof -
  obtain j rng where j: "gen_range (length (sc_available c)) (sc_rng c) = (j, rng)" by fastforce
  have less: "j < length (sc_available c)" using range [of "length (sc_available c)" "sc_rng c"] assms(2) j by simp
  obtain x a where xa: "sc_available c ! j = (x, a)" by fastforce
  then have mem: "(x, a) \<in> set (sc_available c)" using less nth_mem by metis
  then have "a = addr x" using assms(1) by (auto simp: pool_ok_def list_all_iff)
  moreover obtain c' where "remove_random gen_range addr c = Some (Inr (x, a) :: 'e fault + _, c')"
    using remove_random_in_range [where gen_range = gen_range and c = c and addr = addr, OF assms(2) j less] xa by simp
  then have "draw gen_range addr c = (Inr (x, a) :: 'e fault + _, c')" by (simp add: draw_def)
  ultimately show ?thesis using mem by force
qed

lemma sqlite_indices:
  assumes "\<And>i. i \<in> set is \<longleftrightarrow> L (invoice_id i) = Some i" and "index i \<notin> index ` set is"
    and "\<And>k j. L k = Some j \<Longrightarrow> invoice_id j = k"
  shows "L (invoice_id i) = None"
proof (cases "L (invoice_id i)")
  case (Some j)
  then have "invoice_id j = invoice_id i" by (rule assms(3))
  then have "j \<in> set is" "index j = index i" using Some assms(1) [of j] by (simp_all add: invoice_id_def)
  then have "index i \<in> index ` set is" by (metis imageI)
  with assms(2) show ?thesis by contradiction
qed

lemma sqlite_keyed:
  "codec_laws B \<Longrightarrow> sqlite_ok B ok content d \<Longrightarrow> sqlite_lookup B content d k = Some i \<Longrightarrow> invoice_id i = k"
  using sqlite_stored [of B ok content d k] by auto

text \<open>The second half, on the files the first one has left behind.\<close>

lemma reopened_gateway:
  fixes P :: "('v, 'p, 'r) build_ops" and Q :: "('d, 'q, 'b) sqlite_ops" and w :: 'w
  defines "path \<equiv> ''examples/persistence/AcceptXMR_DB''"
  assumes laws: "sqlite_laws Q table ok content tx" and rows: "rows_law Q table ok content"
    and codec: "codec_laws B" and reopens: "reopens Q path table ok content tx disk"
    and new: "sqlite_new Q path ''invoices'' = Inr (d, table)"
    and keys: "bo_uri P persistence_url = Inr url" "bo_private_key P private_view_key = Inr view"
      "bo_spend_key P primary_address = Inr spend"
    and d1: "sqlite_ok B ok content d1" "\<not> tx d1" "sqlite_lookup B content d1 = L(invoice_id i \<mapsto> i)"
    and before: "\<And>j. j \<in> set is \<longleftrightarrow> L (invoice_id j) = Some j" and fresh: "L (invoice_id i) = None"
    and small: "minor (index i) \<le> max 99 (if is = [] then 0 else minor (Max (index ` set is)))"
  shows "\<exists>S (g :: ('tx, 'k, 'd, 'w, 'r, sqlite_error fault) gateway).
    open_gateway P (Q\<lparr>sq_open := disk d1\<rparr>) B private_view_key primary_address w =
      (Inr (S, bo_subaddress P (view, spend), g) :: 'f fault + _) \<and>
    found_invoice S (invoice_id i) g = (Inr i, g) \<and>
    sqlite_lookup B content (gw_store g) = L(invoice_id i \<mapsto> i) \<and>
    index i \<notin> may_draw (gw_subaddresses g)"
proof -
  let ?Q = "Q\<lparr>sq_open := disk d1\<rparr>" and ?L = "sqlite_lookup B content"
  obtain d0 d2 where d2: "disk d1 path = Inr d0" "sq_execute Q (create_sql table) d0 = (Inr (), d2)"
    "ok d2" "content d2 = content d1"
    using reopens sqlite_okD [OF d1(1)] d1(2) unfolding reopens_def by blast
  have ok2: "sqlite_ok B ok content d2" and L2: "?L d2 = L(invoice_id i \<mapsto> i)"
    using d1(1,3) d2(3,4) sqlite_lookup_content [OF d2(4), of B] by (simp_all add: sqlite_ok_def)
  have new2: "sqlite_new ?Q path ''invoices'' = Inr (d2, table)"
    using new d2(1,2) by (auto simp: sqlite_new_def Let_def split: sum.splits prod.splits)
  from sqlite_iter [of ?Q, OF _ codec ok2] rows obtain is' where
    is': "st_try_iter (sqlite_storage ?Q B table) d2 = Inr (map Inr is')"
    "\<And>j. j \<in> set is' \<longleftrightarrow> ?L d2 (invoice_id j) = Some j" by auto
  have "j \<in> set is' \<longleftrightarrow> j = i \<or> j \<in> set is" for j
    using fresh unfolding is'(2) before L2 by auto
  then have all: "set is' = insert i (set is)" by blast
  obtain g :: "('tx, 'k, 'd, 'w, 'r, sqlite_error fault) gateway" where
    g: "open_gateway P ?Q B private_view_key primary_address w =
      (Inr (sqlite_storage ?Q B table, bo_subaddress P (view, spend), g) :: 'f fault + _)"
    and store: "gw_store g = d2"
    and pool: "sc_major_index (gw_subaddresses g) = 0" "sc_highest_minor_index (gw_subaddresses g) =
        max 99 (if is' = [] then 0 else minor (Max (index ` set is')))"
      "available (gw_subaddresses g) =
        {SubIndex 0 m | m. m \<le> sc_highest_minor_index (gw_subaddresses g)} - index ` set is'"
    using open_gateway_eq [OF new2 [unfolded path_def] keys is'(1), of w, where ?'tx = 'tx and ?'k = 'k] by blast
  have "found_invoice (sqlite_storage ?Q B table) (invoice_id i) g = (Inr i, g)"
    using laws ok2 store L2 by (intro found_result [OF _ codec]) auto
  moreover have "minor (index i) \<le> sc_highest_minor_index (gw_subaddresses g)"
    using minor_below_new_highest [of "index ` set is" "index i"] small all by (auto simp: pool(2))
  then have "index i \<notin> may_draw (gw_subaddresses g)"
    using all by (auto simp: may_draw_def pool(3) beyond_def)
  ultimately show ?thesis using g L2 unfolding store [symmetric] by blast
qed

lemma persistence_demo_result:
  fixes P :: "('v, 'p, 'r) build_ops" and Q :: "('d, 'q, 'b) sqlite_ops" and w :: 'w
  assumes laws: "sqlite_laws Q table ok content tx" and rows: "rows_law Q table ok content"
    and codec: "codec_laws B"
    and reopens: "reopens Q ''examples/persistence/AcceptXMR_DB'' table ok content tx disk"
    and new: "sqlite_new Q ''examples/persistence/AcceptXMR_DB'' ''invoices'' = Inr (d, table)"
    and d: "sqlite_ok B ok content d" "\<not> tx d"
    and keys: "bo_uri P persistence_url = Inr url" "bo_private_key P private_view_key = Inr view"
      "bo_spend_key P primary_address = Inr spend"
    and range: "\<And>n r. 0 < n \<Longrightarrow> fst (gen_range n r) < n"
    and unused: "m \<le> 99" "\<And>k. sub_index k = SubIndex 0 m \<Longrightarrow> sqlite_lookup B content d k = None"
  shows "\<exists>x i (g :: ('tx, 'k, 'd, 'w, 'r, sqlite_error fault) gateway).
    i = invoice_new (bo_subaddress P (view, spend) x) x 0 1000 2 5 ''Demo invoice'' \<and>
    persistence_demo P Q B disk private_view_key primary_address gen_range w = Inr (i, i, g) \<and>
    (\<forall>k. sqlite_lookup B content d k \<noteq> None \<longrightarrow> sub_index k \<noteq> x) \<and>
    sqlite_lookup B content (gw_store g) = (sqlite_lookup B content d)(invoice_id i \<mapsto> i) \<and>
    x \<notin> may_draw (gw_subaddresses g)"
proof -
  let ?addr = "bo_subaddress P (view, spend)" and ?L = "sqlite_lookup B content"
  obtain "is" where "is": "st_try_iter (sqlite_storage Q B table) d = Inr (map Inr is)"
    "\<And>i. i \<in> set is \<longleftrightarrow> ?L d (invoice_id i) = Some i" using sqlite_iter [OF rows codec d(1)] by blast
  obtain g :: "('tx, 'k, 'd, 'w, 'r, sqlite_error fault) gateway" where
    g: "open_gateway P Q B private_view_key primary_address w = (Inr (sqlite_storage Q B table, ?addr, g) :: sqlite_error fault accept_xmr_error fault + _)"
    and sel: "gw_store g = d" "gw_world g = w" "gw_cached_daemon_height g = 0"
    and pool: "pool_ok ?addr (gw_subaddresses g)" "available (gw_subaddresses g) =
      {SubIndex 0 m | m. m \<le> sc_highest_minor_index (gw_subaddresses g)} - index ` set is"
    and highest: "sc_highest_minor_index (gw_subaddresses g) =
      max 99 (if is = [] then 0 else minor (Max (index ` set is)))"
    using open_gateway_eq [OF new keys "is"(1), of w, where ?'tx = 'tx and ?'k = 'k] by blast
  have "SubIndex 0 m \<notin> index ` set is"
    using unused(2) "is"(2) by (force simp: invoice_id_def)
  then have "SubIndex 0 m \<in> available (gw_subaddresses g)"
    using unused(1) by (simp add: pool(2) highest le_max_iff_disj)
  then have "sc_available (gw_subaddresses g) \<noteq> []" by auto
  from draw_in_range [where gen_range = gen_range, OF pool(1) this range] obtain x c where
    x: "draw gen_range ?addr (gw_subaddresses g) =
      (Inr (x, ?addr x) :: sqlite_error fault accept_xmr_error fault + _, c)"
      "x \<in> available (gw_subaddresses g)" by blast
  define i where "i = invoice_new (?addr x) x 0 1000 2 5 ''Demo invoice''"
  have i: "index i = x" "i = invoice_new (?addr x) x (gw_cached_daemon_height g) 1000 2 5 ''Demo invoice''"
    by (simp_all add: i_def sel invoice_new_def)
  have other: "index i \<notin> index ` set is" using x(2) by (simp add: pool(2) i(1))
  have apart: "\<forall>k. ?L d k \<noteq> None \<longrightarrow> sub_index k \<noteq> x"
  proof (intro allI impI notI)
    fix k assume "?L d k \<noteq> None" and k: "sub_index k = x"
    then obtain i' where i': "?L d k = Some i'" by blast
    from sqlite_keyed [OF codec d(1) i'] have id: "invoice_id i' = k" .
    with i' "is"(2) have "i' \<in> set is" by simp
    moreover have "index i' = x" using id k by (auto simp: invoice_id_def)
    ultimately show False using other by (auto simp: i(1))
  qed
  from sqlite_indices [OF "is"(2) other sqlite_keyed [OF codec d(1)]]
  have fresh: "?L d (invoice_id i) = None" .
  obtain g1 where g1: "create_and_find (sqlite_storage Q B table) gen_range ?addr g = (Inr (invoice_id i, i), g1)"
    "sqlite_ok B ok content (gw_store g1)" "\<not> tx (gw_store g1)" "?L (gw_store g1) = (?L d)(invoice_id i \<mapsto> i)"
    using create_and_find_result [OF laws codec _ _ x(1) i(2)] d fresh by (auto simp: sel)
  have "minor x \<le> sc_highest_minor_index (gw_subaddresses g)" using x(2) by (auto simp: pool(2))
  then obtain S' and g2 :: "('tx, 'k, 'd, 'w, 'r, sqlite_error fault) gateway" where
    g2: "open_gateway P (Q\<lparr>sq_open := disk (gw_store g1)\<rparr>) B private_view_key primary_address (gw_world g1) =
      (Inr (S', ?addr, g2) :: sqlite_error fault accept_xmr_error fault + _)"
    "found_invoice S' (invoice_id i) g2 = (Inr i, g2)" "?L (gw_store g2) = (?L d)(invoice_id i \<mapsto> i)"
    "x \<notin> may_draw (gw_subaddresses g2)"
    using reopened_gateway [OF laws rows codec reopens new keys g1(2-4) "is"(2) fresh, of "gw_world g1",
        where ?'tx = 'tx and ?'k = 'k]
    unfolding i(1) highest by blast
  have demo: "persistence_demo P Q B disk private_view_key primary_address gen_range w = Inr (i, i, g2)"
    by (simp add: persistence_demo_def g g1(1) g2(1,2))
  show ?thesis
    by (intro exI [of _ x] exI [of _ i] exI [of _ g2] conjI i_def demo apart g2(3,4))
qed

end
