(* ===== verification/Example_Client.thy ===== *)
theory Example_Client
  imports Example Rpc_Facts Persistence
begin

text \<open>
  A daemon behind HTTP with and without a login, a tree and a database, on which the properties of
  the client and of the stores on disk are applied.
\<close>

section \<open>Authentication\<close>

definition challenge_rank :: "auth_params \<Rightarrow> nat" where
  "challenge_rank p = (if ap_qop p = [] then 0 else 2) + (if ap_algorithm p = Md5 then 0 else 1)"

definition ex_auth :: "unit auth_ops" where
  "ex_auth = \<lparr>ao_md5 = rev, ao_hex = (\<lambda>b. concat (map (\<lambda>x. hex_fixed 2 (unat x)) b)),
     ao_fill = (\<lambda>r. (replicate 16 0, r)), ao_header_value = Inr, ao_sort = sort_key challenge_rank\<rparr>"

lemma cmp_rank: "auth_params_cmp a b = cmp (challenge_rank a) (challenge_rank b)"
proof -
  have "max_qop qs = (if qs = [] then None else Some QopAuth)" for qs
    by (simp add: max_qop_auth) (simp add: max_qop_def)
  then show ?thesis
    by (cases "ap_algorithm a"; cases "ap_algorithm b")
      (simp_all add: auth_params_cmp_def challenge_rank_def cmp_def less_algorithm_def)
qed

lemma ex_sorts: "sorts ex_auth"
proof -
  have "sorted_wrt (\<lambda>a b. auth_params_cmp a b \<noteq> Greater) (sort_key challenge_rank ps)" for ps
    using sorted_sort_key [of challenge_rank ps] by (simp add: cmp_rank not_less sorted_wrt_map)
  then show ?thesis by (simp add: sorts_def ex_auth_def)
qed

definition ex_challenge :: auth_params where
  "ex_challenge = \<lparr>ap_realm = ''monero-rpc'', ap_qop = [QopAuth], ap_algorithm = Md5,
     ap_nonce = ''JmNFnqfRJdOr/vFZ2CpDQg=='', ap_opaque = None\<rparr>"

lemma ex_plain: "plain_params ex_challenge"
  by code_simp

definition ex_sha :: string where
  "ex_sha = ''Digest algorithm=SHA-256, nonce='' @ quoted ''b''"

section \<open>The daemon\<close>

datatype example_json =
    JNull
  | JString string
  | JNumber u64
  | JArray "example_json list"
  | JObject "(string \<times> example_json) list"

fun ex_get :: "example_json \<Rightarrow> string \<Rightarrow> example_json" where
  "ex_get (JObject kvs) k = (case map_of kvs k of Some v \<Rightarrow> v | None \<Rightarrow> JNull)"
| "ex_get _ k = JNull"

definition ex_answer :: "string \<Rightarrow> string \<Rightarrow> example_json" where
  "ex_answer block_hash body = JObject
     [(''result'', JObject [(''count'', JNumber 1), (''block_header'', JObject [(''hash'', JString block_hash)]),
        (''blob'', JString ''01'')]),
      (''txs_as_hex'', JArray (replicate (count_list body CHR ''#'') (JString ''02'')))]"

definition ex_response :: "nat \<Rightarrow> string option list \<Rightarrow> 'b \<Rightarrow> 'b http_response" where
  "ex_response code challenges b =
     \<lparr>rs_status = code, rs_www_authenticate = challenges, rs_body = b\<rparr>"

text \<open>One block with one transaction. The world counts the requests.\<close>

definition ex_http :: "bool \<Rightarrow> string \<Rightarrow> (nat, example_json, example_json, example_tx) daemon_ops" where
  "ex_http login block_hash = \<lparr>
     dn_path_and_query = Inr,
     dn_send = (\<lambda>_ rq w. (Inr (if login \<and> rq_authorization rq = None
          then ex_response 401 [Some (''Digest '' @ challenge False ex_challenge)] JNull
          else ex_response 200 [] (ex_answer block_hash (rq_body rq))), Suc w)),
     dn_to_bytes = ret, dn_json = Inr, dn_get = ex_get,
     dn_as_str = (\<lambda>j. case j of JString t \<Rightarrow> Some t | _ \<Rightarrow> None),
     dn_as_array = (\<lambda>j. case j of JArray js \<Rightarrow> Some js | _ \<Rightarrow> None),
     dn_as_u64 = (\<lambda>j. case j of JNumber n \<Rightarrow> Some n | _ \<Rightarrow> None),
     dn_show_json = (\<lambda>_. []), dn_json_strings = (\<lambda>ts. concat ts), dn_hex_decode = (\<lambda>t. Inr (string_bytes t)),
     dn_hash_hex = (\<lambda>_. ''#''),
     dn_hash_from_slice = (\<lambda>b. if length b = 32 then Some 7 else None),
     dn_hash = (\<lambda>_. Inr 1), dn_block = (\<lambda>_. Inr \<lparr>prev_id = 0, tx_hashes = [1]\<rparr>),
     dn_transaction = (\<lambda>_. Inr (1, []))\<rparr>"

definition ex_hash :: string where
  "ex_hash = replicate 32 CHR ''0''"

definition ex_client :: "unit auth_info option \<Rightarrow> unit rpc_client" where
  "ex_client ai = \<lparr>cl_url = ''http://localhost/'', cl_timeout = 10, cl_auth = ai\<rparr>"

definition ex_user :: "unit auth_info" where
  "ex_user = auth_info_new ''user'' ''password'' ()"

definition ex_one_block :: "u64 \<Rightarrow> example_tx cached_block" where
  "ex_one_block h = (7, h, \<lparr>prev_id = 0, tx_hashes = [1]\<rparr>, [(1, [])])"

definition ex_states :: "(unit rpc_client \<times> nat) set" where
  "ex_states = {(c, w). cl_auth c = None}"

lemma ex_request:
  "cl_auth c = None \<Longrightarrow>
   request (ex_http False block_hash) A body endpoint (c, w) = (Inr (ex_answer block_hash body), (c, Suc w))"
  by (simp add: request_def Let_def ex_http_def with_auth_def send_request_def network_def
      retry_unauthorized_def ex_response_def read_json_def)

lemma ex_replies:
  assumes "P (ex_answer block_hash body)"
  shows "replies (ex_http False block_hash) A ex_states body endpoint P"
  unfolding replies_def ex_states_def using assms by (auto simp: ex_request)

lemma count_hashes:
  "count_list (transactions_request (ex_http login block_hash) hs) CHR ''#'' = length hs"
  by (induction hs) (simp_all add: transactions_request_def ex_http_def)

lemma ex_honest: "honest_daemon (ex_http False ex_hash) A ex_states ex_one_block 1 (\<lambda>_. (1, []))"
proof -
  have "says_height (ex_http False ex_hash) 1 (ex_answer ex_hash body)" for body
    by (simp add: says_height_def ex_answer_def ex_http_def)
  moreover have "says_block (ex_http False ex_hash) 7 \<lparr>prev_id = 0, tx_hashes = [1]\<rparr> (ex_answer ex_hash body)" for body
    by (simp add: says_block_def ex_answer_def ex_http_def ex_hash_def string_bytes_def)
  moreover have "reads_transactions (ex_http False ex_hash) (map (\<lambda>_. (1, [])) hs)
      (ex_answer ex_hash (transactions_request (ex_http False ex_hash) hs))" for hs :: "hash list"
    unfolding reads_transactions_def ex_answer_def count_hashes
    by (simp add: ex_http_def list_all2_conv_all_nth reads_transaction_def)
  ultimately show ?thesis
    by (auto simp: honest_daemon_def ex_one_block_def intro!: ex_replies)
qed

lemma ex_wants_login:
  "wants_login (ex_http True block_hash) ex_auth UNIV username password ex_challenge timeout target target body
     (ex_answer block_hash body)"
  by (auto simp: wants_login_def Let_def ex_http_def ex_response_def ex_auth_def)

text \<open>A running gateway behind a daemon of height 14 whose blocks have hashes of two characters.\<close>

definition ex_short_http :: "(nat, example_json, example_json, example_tx) daemon_ops" where
  "ex_short_http = (ex_http False ''00'')\<lparr>dn_as_u64 := (\<lambda>_. Some 14)\<rparr>"

definition ex_http_gateway ::
  "(example_tx, unit, in_memory, unit rpc_client \<times> nat, unit, in_memory_error) gateway" where
  "ex_http_gateway = \<lparr>gw_world = (ex_client None, 0), gw_store = ex_store,
     gw_subaddresses = gw_subaddresses (ex_gateway ex_store), gw_major_index = 0,
     gw_block_cache_height = 11, gw_cached_daemon_height = 12, gw_publisher = publisher_new,
     gw_handle = Some Running, gw_handle_locked = False, gw_commands = [],
     gw_scanner = Some \<lparr>sr_block_cache = sn_block_cache ex_scan,
       sr_txpool_cache = sn_txpool_cache ex_scan, sr_first_scan = False, sr_checker = ()\<rparr>\<rparr>"

lemma ex_short_request:
  "cl_auth c = None \<Longrightarrow>
   request ex_short_http A body endpoint (c, w) = (Inr (ex_answer ''00'' body), (c, Suc w))"
  by (simp add: request_def Let_def ex_short_http_def ex_http_def with_auth_def send_request_def network_def
      retry_unauthorized_def ex_response_def read_json_def)

lemma ex_short_height:
  "client_daemon_height ex_short_http ex_auth (ex_client None, 0) = (Inr 14, (ex_client None, 1))"
  by (simp add: client_daemon_height_def bind_apply ex_short_request expected_def ex_client_def)
    (simp add: ex_short_http_def)

section \<open>The stores on disk\<close>

text \<open>A tree as an association list. A key is the three numbers of an id, a value one invoice.\<close>

type_synonym ex_byte = "nat + invoice"
type_synonym ex_tree = "(ex_byte list \<times> ex_byte list) list"

definition ex_codec :: "ex_byte codec" where
  "ex_codec = \<lparr>
     cd_id = (\<lambda>k. Inr [Inl (unat (major (sub_index k))), Inl (unat (minor (sub_index k))), Inl (unat (id_creation_height k))]),
     cd_index = (\<lambda>x. Inr [Inl (unat (major x)), Inl (unat (minor x))]),
     cd_invoice = (\<lambda>i. Inr [Inr i]),
     cd_decode = (\<lambda>b. case b of [Inr i] \<Rightarrow> Inr i | _ \<Rightarrow> Inl ''invalid'')\<rparr>"

definition put_entry :: "'k \<Rightarrow> 'v option \<Rightarrow> ('k \<times> 'v) list \<Rightarrow> ('k \<times> 'v) list" where
  "put_entry k v t = (case v of None \<Rightarrow> filter (\<lambda>e. fst e \<noteq> k) t | Some x \<Rightarrow> (k, x) # filter (\<lambda>e. fst e \<noteq> k) t)"

definition ex_tree :: "(ex_tree, ex_byte) tree_ops" where
  "ex_tree = \<lparr>tr_open = (\<lambda>_ _. Inr []), tr_set_merge_operator = (\<lambda>_ t. t),
     tr_compare_and_swap = (\<lambda>k old new t. if map_of t k = old then (Inr True, put_entry k new t) else (Inr False, t)),
     tr_remove = (\<lambda>k t. (Inr (map_of t k), put_entry k None t)),
     tr_fetch_and_update = (\<lambda>k f t. (Inr (map_of t k), put_entry k (f (map_of t k)) t)),
     tr_get = (\<lambda>k t. Inr (map_of t k)),
     tr_scan_prefix = (\<lambda>p t. map Inr (filter (\<lambda>e. prefix p (fst e)) t)),
     tr_iter = map Inr, tr_flush = (\<lambda>_. Inr ()), tr_is_empty = (\<lambda>t. t = [])\<rparr>"

definition ex_tree_ok :: "('k \<times> 'v) list \<Rightarrow> bool" where
  "ex_tree_ok t \<longleftrightarrow> distinct (map fst t)"

lemma map_of_put_entry [simp]: "map_of (put_entry k v t) = (map_of t)(k := v)"
proof -
  have "map_of (filter (\<lambda>e. fst e \<noteq> k) t) = (map_of t)(k := None)"
    by (induction t) (auto simp: fun_eq_iff)
  then show ?thesis by (cases v) (simp_all add: put_entry_def)
qed

lemma ex_tree_ok_put [simp]: "ex_tree_ok t \<Longrightarrow> ex_tree_ok (put_entry k v t)"
  by (auto simp: ex_tree_ok_def put_entry_def distinct_map_filter split: option.splits)

lemma ex_codec_laws: "codec_laws ex_codec"
proof -
  have "k = k'" if "cd_id ex_codec k = cd_id ex_codec k'" for k k'
    using that by (cases k; cases k'; cases "sub_index k"; cases "sub_index k'") (simp add: ex_codec_def word_unat_eq_iff)
  moreover have "cd_index ex_codec x = Inr p \<Longrightarrow> cd_id ex_codec k = Inr b \<Longrightarrow> prefix p b = (sub_index k = x)" for x p k b
    by (cases x; cases "sub_index k") (auto simp: ex_codec_def word_unat_eq_iff)
  moreover have "\<exists>p. cd_index ex_codec x = Inr p" "\<exists>b. cd_id ex_codec k = Inr b"
    "\<exists>b. cd_invoice ex_codec i = Inr b \<and> cd_decode ex_codec b = Inr i" for x k i
    by (simp_all add: ex_codec_def)
  ultimately show ?thesis unfolding codec_laws_def by blast
qed

lemma ex_tree_laws: "tree_laws ex_tree ex_tree_ok map_of"
proof -
  have entries: "set t = {(k, v). map_of t k = Some v}" if "ex_tree_ok t" for t :: ex_tree
    using that by (auto simp: ex_tree_ok_def)
  have scan: "\<exists>es. tr_scan_prefix ex_tree p t = map Inr es \<and> set es = {(k, v). map_of t k = Some v \<and> prefix p k}"
    if "ex_tree_ok t" for p t
    using that by (intro exI [of _ "filter (\<lambda>e. prefix p (fst e)) t"]) (auto simp: ex_tree_def ex_tree_ok_def)
  have iter: "\<exists>es. tr_iter ex_tree t = map Inr es \<and> distinct (map fst es) \<and> set es = {(k, v). map_of t k = Some v}"
    if "ex_tree_ok t" for t
    using that entries [OF that] by (intro exI [of _ t]) (simp add: ex_tree_def ex_tree_ok_def)
  show ?thesis
    unfolding tree_laws_def
  proof (intro allI impI conjI, goal_cases)
    case (5 t p)
    then show ?case by (rule scan)
  next
    case (6 t)
    then show ?case by (rule iter)
  qed (simp_all add: ex_tree_def)
qed

text \<open>
  A database: the rows under the parameters that name their key, whether a transaction is open, and
  the change count. A statement is its text, its parameters and what its first step has found.
\<close>

type_synonym ex_row_key = "(string \<times> ex_byte sql_value) list"
type_synonym ex_db = "(ex_row_key \<times> ex_byte list) list \<times> bool \<times> nat"
type_synonym ex_statement = "string \<times> ex_row_key \<times> ex_byte list option option"

definition ex_execute :: "string \<Rightarrow> (ex_db, string, unit) act" where
  "ex_execute sql = (\<lambda>(rows, tx, n).
     if sql = ''BEGIN'' then (if tx then (Inl ''nested'', (rows, tx, n)) else (Inr (), (rows, True, n)))
     else if sql = ''COMMIT'' then (Inr (), (rows, False, n)) else (Inr (), (rows, tx, n)))"

fun ex_next :: "string \<Rightarrow> ex_statement \<Rightarrow> (ex_db, string, bool \<times> ex_statement) act" where
  "ex_next table (sql, ps, Some r) d = (Inr (False, (sql, ps, Some r)), d)"
| "ex_next table (sql, ps, None) (rows, tx, n) =
     (let k = filter (\<lambda>p. fst p \<noteq> '':invoice'') ps; old = map_of rows k;
          v = (case map_of ps '':invoice'' of Some (Encoded b) \<Rightarrow> b | _ \<Rightarrow> []);
          q = (sql, ps, Some old)
      in if sql = select_sql table then (Inr (old \<noteq> None, q), (rows, tx, n))
         else if sql = delete_sql table then (Inr (old \<noteq> None, q), (put_entry k None rows, tx, 1))
         else if sql = update_sql table then (Inr (False, q), (put_entry k (Some v) rows, tx, 1))
         else if old = None then (Inr (False, q), (put_entry k (Some v) rows, tx, 1))
         else (Inl ''constraint failed'', (rows, tx, 0)))"

definition ex_sqlite :: "string \<Rightarrow> (ex_db, ex_statement, ex_byte) sqlite_ops" where
  "ex_sqlite table = \<lparr>sq_open = (\<lambda>_. Inr ([], False, 0)), sq_execute = ex_execute,
     sq_prepare = (\<lambda>sql d. (Inr (sql, [], None), d)), sq_bind = (\<lambda>ps (sql, _, r). Inr (sql, ps, r)),
     sq_next = ex_next table,
     sq_read_blob = (\<lambda>(_, _, r). case r of Some (Some v) \<Rightarrow> Inr v | _ \<Rightarrow> Inl ''no row''),
     sq_read_value = (\<lambda>_. Inr (Integer 0)), sq_read_int = (\<lambda>_. Inr 0), sq_change_count = (\<lambda>(_, _, n). n),
     sq_rows = (\<lambda>_ (rows, _, _). map (\<lambda>(_, v). Inr (Inr v)) rows), sq_warn = True, sq_trace = True\<rparr>"

definition ex_content :: "ex_db \<Rightarrow> invoice_id \<rightharpoonup> ex_byte list" where
  "ex_content d k = map_of (fst d) (id_params k)"

definition ex_open_transaction :: "ex_db \<Rightarrow> bool" where
  "ex_open_transaction d \<longleftrightarrow> fst (snd d)"

lemma ex_content_put [simp]:
  "ex_content (put_entry (id_params k) v rows, tx, n) = (\<lambda>k'. map_of rows (id_params k'))(k := v)"
  by (auto simp: ex_content_def fun_eq_iff)

lemma ex_content_rows: "ex_content (rows, tx, n) = (\<lambda>k. map_of rows (id_params k))"
  by (simp add: ex_content_def fun_eq_iff)

lemma key_params [simp]:
  "filter (\<lambda>p. fst p \<noteq> '':invoice'') (id_params k) = id_params k"
  "map_of (id_params k) '':invoice'' = None"
  by (simp_all add: id_params_def index_params_def)

lemma ex_statement_sql:
  "statement (ex_sqlite table) sql ps d = (Inr (sql, ps, None), d)"
  by (simp add: statement_def ex_sqlite_def database_def tried_act_def read_row_def)

lemma sql_distinct [simp]:
  "delete_sql t \<noteq> select_sql t" "update_sql t \<noteq> select_sql t" "insert_sql t \<noteq> select_sql t"
  "update_sql t \<noteq> delete_sql t" "insert_sql t \<noteq> delete_sql t" "insert_sql t \<noteq> update_sql t"
  by (simp_all add: select_sql_def delete_sql_def update_sql_def insert_sql_def)

lemma ex_sqlite_sel [simp]:
  "sq_next (ex_sqlite table) = ex_next table"
  "sq_read_blob (ex_sqlite table) (sql, ps, Some (Some v)) = Inr v"
  "sq_change_count (ex_sqlite table) (rows, tx, n) = n"
  by (simp_all add: ex_sqlite_def)

lemma ex_at_most_one:
  "at_most_one (ex_sqlite table) (select_sql table, id_params k, None) d (ex_content d k) d"
  "at_most_one (ex_sqlite table) (delete_sql table, id_params k, None) (rows, tx, n)
     (ex_content (rows, tx, n) k) (put_entry (id_params k) None rows, tx, 1)"
  by (cases d; auto simp: at_most_one_def Let_def ex_content_def split: option.split)
    (auto simp: at_most_one_def Let_def ex_content_def split: option.split)

text \<open>The rows have the keys of ids, each one once.\<close>

definition ex_rows_ok :: "ex_db \<Rightarrow> bool" where
  "ex_rows_ok d \<longleftrightarrow> distinct (map fst (fst d)) \<and> fst ` set (fst d) \<subseteq> range id_params"

lemma ex_rows_ok_put [simp]:
  "ex_rows_ok (rows, tx, n) \<Longrightarrow> ex_rows_ok (put_entry (id_params k) v rows, tx', n')"
  by (auto simp: ex_rows_ok_def put_entry_def distinct_map_filter split: option.splits)

lemma ex_rows_okI: "ex_rows_ok (rows, tx, n) \<Longrightarrow> ex_rows_ok (rows, tx', n')"
  by (simp add: ex_rows_ok_def)

lemma ex_sqlite_laws:
  "sqlite_laws (ex_sqlite table) table ex_rows_ok ex_content ex_open_transaction"
proof -
  have "transaction_laws (ex_sqlite table) ex_rows_ok ex_content ex_open_transaction d" if "ex_rows_ok d" for d
    using that by (cases d) (auto simp: transaction_laws_def ex_sqlite_def ex_execute_def ex_content_def [abs_def]
        ex_open_transaction_def ex_rows_ok_def)
  moreover have "select_law (ex_sqlite table) table ex_content d" for d
    unfolding select_law_def by (intro allI exI conjI) (rule ex_statement_sql, rule ex_at_most_one)
  moreover have "delete_law (ex_sqlite table) table ex_rows_ok ex_content ex_open_transaction d" if "ex_rows_ok d" for d
  proof (cases d)
    case (fields rows tx n)
    show ?thesis
      using that unfolding delete_law_def fields
      by (intro allI exI conjI) (rule ex_statement_sql, rule ex_at_most_one, simp_all add: ex_open_transaction_def ex_content_rows fun_upd_def)
  qed
  moreover have "update_law (ex_sqlite table) table ex_rows_ok ex_content ex_open_transaction d" if "ex_rows_ok d" for d
    using that by (cases d) (auto simp: update_law_def ex_statement_sql Let_def ex_open_transaction_def ex_content_rows)
  moreover have "insert_law (ex_sqlite table) table ex_rows_ok ex_content ex_open_transaction d" if "ex_rows_ok d" for d
    using that by (cases d)
      (auto simp: insert_law_def ex_statement_sql Let_def ex_open_transaction_def ex_content_rows map_add_def
        intro: ex_rows_okI)
  ultimately show ?thesis by (simp add: sqlite_laws_def)
qed

lemma ex_rows_law: "rows_law (ex_sqlite table) table ex_rows_ok ex_content"
  unfolding rows_law_def
proof (intro allI impI)
  fix d assume ok: "ex_rows_ok d"
  obtain rows tx n where d: "d = (rows, tx, n)" by (cases d)
  let ?f = "\<lambda>(k, v). (id_params k :: ex_row_key, v :: ex_byte list)"
  have "\<forall>e \<in> set rows. \<exists>x. e = ?f x" using ok by (force simp: ex_rows_ok_def d)
  then obtain es where es: "rows = map ?f es" unfolding ex_map_conv [symmetric] by blast
  have "map fst rows = map id_params (map fst es)" by (simp add: es split_def)
  then have "distinct (map (id_params :: invoice_id \<Rightarrow> ex_row_key) (map fst es))" using ok by (simp only: ex_rows_ok_def d fst_conv)
  then have dist: "distinct (map fst es)" by (simp only: distinct_map)
  have "map_of (map ?f es) (id_params k) = map_of es k" for k and es :: "(invoice_id \<times> ex_byte list) list"
    by (induction es) auto
  then have "set es = {(k, v). ex_content d k = Some v}"
    using dist by (auto simp: ex_content_def d es)
  with dist show "\<exists>q es. sq_prepare (ex_sqlite table) (select_all_sql table) d = (Inr q, d) \<and> distinct (map fst es) \<and>
      set es = {(k, v). ex_content d k = Some v} \<and> sq_rows (ex_sqlite table) q d = map (\<lambda>(_, v). Inr (Inr v)) es"
    by (intro exI [of _ "(select_all_sql table, [], None)"] exI [of _ es])
      (simp add: ex_sqlite_def d es split_def comp_def)
qed

text \<open>The files it leaves behind hold its rows; the keys and URLs of the program are read as they are.\<close>

definition ex_disk :: "ex_db \<Rightarrow> string \<Rightarrow> string + ex_db" where
  "ex_disk d path = Inr (fst d, False, 0)"

lemma ex_reopens: "reopens (ex_sqlite table) path table' ex_rows_ok ex_content ex_open_transaction ex_disk"
proof -
  have "create_sql t \<noteq> ''BEGIN''" "create_sql t \<noteq> ''COMMIT''" for t by (simp_all add: create_sql_def)
  then show ?thesis
    by (auto simp: reopens_def ex_disk_def ex_sqlite_def ex_execute_def ex_content_def [abs_def]
        ex_open_transaction_def ex_rows_ok_def)
qed

definition ex_build :: "(string, string, unit) build_ops" where
  "ex_build = \<lparr>bo_uri = Inr, bo_private_key = Inr, bo_spend_key = Inr, bo_subaddress = (\<lambda>_. ex_address),
     bo_client_rng = (\<lambda>_. ()), bo_pool_rng = (\<lambda>_. ())\<rparr>"

lemma ex_build_sel:
  "bo_uri ex_build x = Inr x" "bo_private_key ex_build x = Inr x" "bo_spend_key ex_build x = Inr x"
  "bo_subaddress ex_build p = ex_address"
  by (simp_all add: ex_build_def)

lemma ex_sqlite_new:
  "sqlite_new (ex_sqlite (table_name t)) path t = Inr (([], False, 0), table_name t)"
  by (simp add: sqlite_new_def ex_sqlite_def ex_execute_def create_sql_def)

lemma ex_sled_empty:
  "sled_ok ex_codec ex_tree_ok map_of []" "sled_lookup ex_codec map_of [] = Map.empty"
  by (simp_all add: sled_ok_def ex_tree_ok_def sled_lookup_def fun_eq_iff)

lemma ex_sqlite_empty:
  "sqlite_ok ex_codec ex_rows_ok ex_content ([], False, 0)" "\<not> ex_open_transaction ([], False, 0)"
  "sqlite_lookup ex_codec ex_content ([], False, 0) = Map.empty"
  by (simp_all add: sqlite_ok_def ex_content_def ex_open_transaction_def sqlite_lookup_def ex_rows_ok_def fun_eq_iff)

end
