(* ===== verification/Shops.thy ===== *)
theory Shops
  imports Gateway_Calls
begin

text \<open>
  The two web shops of \<open>src/examples\<close> (\<open>websockets/main.rs\<close>, \<open>nojs/main.rs\<close>): their request handlers,
  the websocket actor, and the threads that watch all invoices and remove those that are done. Both
  use a gateway on the in-memory store.

  Arguments stand for what actix, serde_json, handlebars and qrcode do: the session of a request
  (\<open>session_ops\<close>), the printing of JSON, the rendering of a page and of a QR code, the conversion of
  piconeros to coins, and the clock.
\<close>

section \<open>Requests and responses\<close>

text \<open>A session keeps invoice ids under names; reading and writing can fail.\<close>

record 'c session_ops =
  se_insert :: "string \<Rightarrow> invoice_id \<Rightarrow> 'c \<Rightarrow> string + 'c"
  se_get :: "string \<Rightarrow> 'c \<Rightarrow> string + invoice_id option"

definition session_laws :: "'c session_ops \<Rightarrow> bool" where
  "session_laws K \<longleftrightarrow> (\<forall>name k c c'. se_insert K name k c = Inr c' \<longrightarrow> se_get K name c' = Inr (Some k))"

datatype 'f json =
    Json_Null
  | Json_String string
  | Json_Number u64
  | Json_Float 'f
  | Json_Object "(string \<times> 'f json) list"

record 'b response =
  hr_status :: nat
  hr_location :: "string option"
  hr_no_store :: bool
  hr_body :: "'b option"

definition respond :: "nat \<Rightarrow> string option \<Rightarrow> 'b option \<Rightarrow> 'b response" where
  "respond code location content =
     \<lparr>hr_status = code, hr_location = location, hr_no_store = True, hr_body = content\<rparr>"

type_synonym ('tx, 'k, 'w, 'r) shop = "('tx, 'k, in_memory, 'w, 'r, in_memory_error) gateway"

type_synonym ('c, 'tx, 'k, 'w, 'r, 'a) handler =
  "('c \<times> ('tx, 'k, 'w, 'r) shop, string fault, 'a) act"

text \<open>\<open>unwrap\<close> panics on an error, \<open>if let Ok(Some(..))\<close> skips it.\<close>

definition open_invoice ::
  "'c session_ops \<Rightarrow> (nat \<Rightarrow> 'r \<Rightarrow> nat \<times> 'r) \<Rightarrow> (sub_index \<Rightarrow> string) \<Rightarrow> string \<Rightarrow> 'b response \<Rightarrow>
   ('c, 'tx, 'k, 'w, 'r, 'b response) handler" where
  "open_invoice K gen_range addr message answer_to = (\<lambda>(c, g).
     case new_invoice in_memory gen_range addr 1000000000 2 5 message g of
       (Inl Blocked, g') \<Rightarrow> (Inl Blocked, (c, g'))
     | (Inl _, g') \<Rightarrow> (Inl Panic, (c, g'))
     | (Inr k, g') \<Rightarrow>
         (case se_insert K ''id'' k c of
            Inl e \<Rightarrow> (Inl (Raise e), (c, g'))
          | Inr c' \<Rightarrow> (Inr answer_to, (c', g'))))"

definition session_invoice ::
  "'c session_ops \<Rightarrow> 'c \<Rightarrow> ('tx, 'k, 'w, 'r) shop \<Rightarrow> invoice option" where
  "session_invoice K c g =
     (case se_get K ''id'' c of
        Inr (Some k) \<Rightarrow>
          (case fst (get_invoice in_memory k g) of
             Inr (Some i) \<Rightarrow> Some i
           | _ \<Rightarrow> None)
      | _ \<Rightarrow> None)"

section \<open>The shop with websockets\<close>

subsection \<open>Handlers\<close>

definition checkout ::
  "'c session_ops \<Rightarrow> (nat \<Rightarrow> 'r \<Rightarrow> nat \<times> 'r) \<Rightarrow> (sub_index \<Rightarrow> string) \<Rightarrow> string \<Rightarrow>
   ('c, 'tx, 'k, 'w, 'r, 'f json response) handler" where
  "checkout K gen_range addr message = open_invoice K gen_range addr message (respond 200 None None)"

definition invoice_json :: "invoice \<Rightarrow> 'f json" where
  "invoice_json i = Json_Object
     [(''address'', Json_String (address i)),
      (''amount_paid'', Json_Number (amount_paid i)),
      (''amount_requested'', Json_Number (amount_requested i)),
      (''uri'', Json_String (uri i)),
      (''confirmations'', case confirmations i of None \<Rightarrow> Json_Null | Some n \<Rightarrow> Json_Number n),
      (''confirmations_required'', Json_Number (confirmations_required i)),
      (''expiration_in'', Json_Number (expiration_in i))]"

definition shop_update ::
  "'c session_ops \<Rightarrow> 'c \<Rightarrow> ('tx, 'k, 'w, 'r) shop \<Rightarrow> 'f json response" where
  "shop_update K c g =
     (case session_invoice K c g of
        Some i \<Rightarrow> respond 200 None (Some (invoice_json i))
      | None \<Rightarrow> respond 410 None None)"

record web_socket =
  ws_last_heartbeat :: nat
  ws_invoice_subscriber :: "Pubsub.address option"

definition web_socket_new :: "nat \<Rightarrow> Pubsub.address \<Rightarrow> web_socket" where
  "web_socket_new now a = \<lparr>ws_last_heartbeat = now, ws_invoice_subscriber = Some a\<rparr>"

text \<open>The route of the websocket: a refusal, or the actor that \<open>ws::start\<close> is given.\<close>

definition websocket ::
  "'c session_ops \<Rightarrow> sender_id \<Rightarrow> nat \<Rightarrow> 'c \<Rightarrow>
   ('tx, 'k, in_memory, 'w, 'r, in_memory_error, 'f json response + web_socket) gw_act" where
  "websocket K sid now c =
     (case se_get K ''id'' c of
        Inr (Some k) \<Rightarrow>
          bind (gateway_subscribe sid k) (\<lambda>subscribed.
            case subscribed of
              Some a \<Rightarrow> ret (Inr (web_socket_new now a))
            | None \<Rightarrow> ret (Inl (respond 404 None None)))
      | _ \<Rightarrow> ret (Inl (respond 404 None None)))"

subsection \<open>The websocket actor\<close>

text \<open>
  The context of the actor: the frames sent, the stream of updates once it is added, and whether
  it runs. \<open>close\<close> sends a close frame, \<open>stop\<close> ends the actor.
\<close>

datatype frame =
    Ping
  | Text_Frame string
  | Close_Frame "string option"

record ws_context =
  wc_frames :: "frame list"
  wc_stream :: "Pubsub.address option"
  wc_heartbeat :: bool
  wc_running :: bool

definition send_frame :: "frame \<Rightarrow> ws_context \<Rightarrow> ws_context" where
  "send_frame f ctx = ctx\<lparr>wc_frames := wc_frames ctx @ [f]\<rparr>"

definition stop_actor :: "ws_context \<Rightarrow> ws_context" where
  "stop_actor ctx = ctx\<lparr>wc_running := False\<rparr>"

definition client_timeout :: nat where
  "client_timeout = 10 * 1000"

definition heartbeat_interval :: nat where
  "heartbeat_interval = 1 * 1000"

definition heartbeat :: "nat \<Rightarrow> web_socket \<Rightarrow> ws_context \<Rightarrow> ws_context" where
  "heartbeat now act ctx =
     (if client_timeout < now - ws_last_heartbeat act then stop_actor ctx else send_frame Ping ctx)"

definition started :: "web_socket \<times> ws_context \<Rightarrow> web_socket \<times> ws_context" where
  "started = (\<lambda>(act, ctx).
     (act\<lparr>ws_invoice_subscriber := None\<rparr>,
      (case ws_invoice_subscriber act of None \<Rightarrow> ctx | Some a \<Rightarrow> ctx\<lparr>wc_stream := Some a\<rparr>)
        \<lparr>wc_heartbeat := True\<rparr>))"

text \<open>A message of the client; the others are only logged.\<close>

datatype ws_message = Pong | Close_Message "string option" | Other_Message

fun handle_message ::
  "nat \<Rightarrow> string + ws_message \<Rightarrow> web_socket \<times> ws_context \<Rightarrow> web_socket \<times> ws_context" where
  "handle_message now (Inr Pong) (act, ctx) = (act\<lparr>ws_last_heartbeat := now\<rparr>, ctx)"
| "handle_message now (Inr (Close_Message reason)) (act, ctx) =
     (act, stop_actor (send_frame (Close_Frame reason) ctx))"
| "handle_message now (Inr Other_Message) (act, ctx) = (act, ctx)"
| "handle_message now (Inl e) (act, ctx) = (act, ctx)"

definition handle_update :: "('f json \<Rightarrow> string) \<Rightarrow> invoice \<Rightarrow> ws_context \<Rightarrow> ws_context" where
  "handle_update show_json i ctx0 =
     (let ctx = send_frame (Text_Frame (show_json (invoice_json i))) ctx0
      in if is_confirmed i then stop_actor (send_frame (Close_Frame (Some ''Invoice Complete'')) ctx)
         else if is_expired i then stop_actor (send_frame (Close_Frame (Some ''Invoice Expired'')) ctx)
         else ctx)"

text \<open>
  \<open>InvoiceStream\<close>: the stream is the subscriber's future. Actix polls it and calls the handler above
  for each item, which is not modelled.
\<close>

definition poll_next :: "Pubsub.address \<Rightarrow> publisher \<Rightarrow> invoice option poll \<times> publisher" where
  "poll_next = subscriber_poll"

section \<open>The shop without scripts\<close>

definition start_checkout ::
  "'c session_ops \<Rightarrow> (nat \<Rightarrow> 'r \<Rightarrow> nat \<times> 'r) \<Rightarrow> (sub_index \<Rightarrow> string) \<Rightarrow> string \<Rightarrow>
   ('c, 'tx, 'k, 'w, 'r, string response) handler" where
  "start_checkout K gen_range addr message =
     open_invoice K gen_range addr message (respond 303 (Some ''http://localhost:8080/checkout'') None)"

text \<open>A URI that does not fit into a QR code makes \<open>expect\<close> panic.\<close>

definition qrcode :: "(string \<Rightarrow> string option) \<Rightarrow> string \<Rightarrow> string fault + string" where
  "qrcode build s = (case build s of None \<Rightarrow> Inl Panic | Some svg \<Rightarrow> Inr svg)"

text \<open>What the page shows: the instruction, the address and the QR code.\<close>

definition page_parts :: "string \<Rightarrow> invoice \<Rightarrow> string \<times> string \<times> string" where
  "page_parts code i =
     (if is_confirmed i then (''Paid! Thank You'', address i, code)
      else if amount_requested i \<le> amount_paid i then
        (''Paid! Waiting for confirmations...'', address i, code)
      else if expiration_in i < 3 then
        (''Address Expiring Soon!'', ''Expiring soon...'',
         ''<svg viewBox='' @ quoted ''0 0 100 100'' @ '' id='' @ quoted ''qrcode'' @ '' src='' @ quoted [] @
           ''></svg>'')
      else (''Send Monero to Address Below'', address i, code))"

definition page_data :: "string \<Rightarrow> (u64 \<Rightarrow> 'f) \<Rightarrow> invoice \<Rightarrow> (string \<times> 'f json) list" where
  "page_data code to_xmr i = (case page_parts code i of (instruction, addr, svg) \<Rightarrow>
     [(''instruction'', Json_String instruction),
      (''address'', Json_String addr),
      (''qrcode'', Json_String svg),
      (''paid'', Json_Float (to_xmr (amount_paid i))),
      (''requested'', Json_Float (to_xmr (amount_requested i))),
      (''confirmations'', Json_Number (case confirmations i of None \<Rightarrow> 0 | Some n \<Rightarrow> n)),
      (''confirmations-required'', Json_Number (confirmations_required i))])"

text \<open>The page is rendered for every invoice of the session, and a failure to render it panics.\<close>

definition checkout_page ::
  "'c session_ops \<Rightarrow> (string \<Rightarrow> string option) \<Rightarrow> (u64 \<Rightarrow> 'f) \<Rightarrow>
   ((string \<times> 'f json) list \<Rightarrow> string + string) \<Rightarrow> 'c \<Rightarrow> ('tx, 'k, 'w, 'r) shop \<Rightarrow>
   string fault + string response" where
  "checkout_page K build_code to_xmr render c g =
     (let expired = respond 307 (Some ''http://localhost:8080/expired.html'') None
      in case session_invoice K c g of
           None \<Rightarrow> Inr expired
         | Some i \<Rightarrow>
             (case qrcode build_code (uri i) of
                Inl f \<Rightarrow> Inl f
              | Inr code \<Rightarrow>
                  (case render (page_data code to_xmr i) of
                     Inl e \<Rightarrow> Inl Panic
                   | Inr content \<Rightarrow>
                       if \<not> is_expired i \<or> amount_requested i \<le> amount_paid i
                       then Inr (respond 200 None (Some content))
                       else Inr expired)))"

section \<open>Watching all invoices\<close>

text \<open>When each shop no longer tracks an invoice.\<close>

definition ws_done :: "invoice \<Rightarrow> bool" where
  "ws_done i \<longleftrightarrow> is_confirmed i \<and> creation_height i < current_height i \<or> is_expired i"

definition nojs_done :: "invoice \<Rightarrow> bool" where
  "nojs_done i \<longleftrightarrow> 30 < saturating_sub (current_height i) (creation_height i)"

text \<open>
  One round of the watching thread, on the subscriber \<open>a\<close> of all invoices: it waits, panics when the
  publisher is gone, or removes the invoice; a failure to remove is only logged.
\<close>

definition watch_step ::
  "(invoice \<Rightarrow> bool) \<Rightarrow> Pubsub.address \<Rightarrow> ('tx, 'k, in_memory, 'w, 'r, in_memory_error, unit) gw_act" where
  "watch_step finished a = (\<lambda>g.
     case blocking_recv False a (gw_publisher g) of
       (Inl _, p) \<Rightarrow> (Inl Blocked, g\<lparr>gw_publisher := p\<rparr>)
     | (Inr None, p) \<Rightarrow> (Inl Panic, g\<lparr>gw_publisher := p\<rparr>)
     | (Inr (Some i), p) \<Rightarrow>
         (if finished i then
            (case remove_invoice in_memory (invoice_id i) (g\<lparr>gw_publisher := p\<rparr>) of
               (Inl Panic, g') \<Rightarrow> (Inl Panic, g')
             | (Inl Blocked, g') \<Rightarrow> (Inl Blocked, g')
             | (_, g') \<Rightarrow> (Inr (), g'))
          else (Inr (), g\<lparr>gw_publisher := p\<rparr>)))"

section \<open>What the shops do\<close>

text \<open>An invoice that is checked out is the session's invoice from then on.\<close>

lemma session_invoice_eq:
  "session_invoice K c g = (case se_get K ''id'' c of Inr (Some k) \<Rightarrow> map_of (gw_store g) k | _ \<Rightarrow> None)"
  by (auto simp: session_invoice_def get_invoice_def gw_on_store_def in_memory_def in_memory_get_def
      split: sum.split option.split)

lemma open_invoice_result:
  fixes g :: "('tx, 'k, 'w, 'r) shop"
  assumes K: "session_laws K" and inv: "gw_inv addr g"
    and draw: "draw gen_range addr (gw_subaddresses g) =
      (Inr (x, a) :: in_memory_error accept_xmr_error fault + _, sc)"
    and ins: "se_insert K ''id'' (InvoiceId x (gw_cached_daemon_height g)) c = Inr c'"
  shows "\<exists>g'. open_invoice K gen_range addr message answer_to (c, g) = (Inr answer_to, (c', g')) \<and>
    gw_inv addr g' \<and>
    session_invoice K c' g' = Some (invoice_new (addr x) x (gw_cached_daemon_height g) 1000000000 2 5 message) \<and>
    map_of (pb_invoice_subs (gw_publisher g')) (InvoiceId x (gw_cached_daemon_height g)) = Some []"
proof -
  from new_invoice_result [OF inv draw, of 1000000000 2 5 message] obtain g' where
    new: "new_invoice in_memory gen_range addr 1000000000 2 5 message g =
      (Inr (InvoiceId x (gw_cached_daemon_height g)), g')" and
    g': "map_of (gw_store g') = (map_of (gw_store g))(InvoiceId x (gw_cached_daemon_height g) \<mapsto>
      invoice_new (addr x) x (gw_cached_daemon_height g) 1000000000 2 5 message)"
      "map_of (pb_invoice_subs (gw_publisher g')) (InvoiceId x (gw_cached_daemon_height g)) = Some []"
    by blast
  have "se_get K ''id'' c' = Inr (Some (InvoiceId x (gw_cached_daemon_height g)))"
    using K ins by (simp add: session_laws_def)
  then have "session_invoice K c' g' =
      Some (invoice_new (addr x) x (gw_cached_daemon_height g) 1000000000 2 5 message)"
    by (simp add: session_invoice_eq g')
  with gw_inv_new_invoice [OF inv new] g' show ?thesis
    by (intro exI [of _ g']) (simp add: open_invoice_def new ins)
qed

text \<open>The updates that wait for a subscriber.\<close>

definition waiting :: "Pubsub.address \<Rightarrow> ('tx, 'k, 's, 'w, 'r, 'e) gateway \<Rightarrow> invoice list" where
  "waiting a g = ch_queue (pb_channels (gw_publisher g) ! a)"

lemma websocket_accepted:
  fixes g :: "('tx, 'k, 'w, 'r) shop"
  assumes "se_get K ''id'' c = Inr (Some k)" and "map_of (pb_invoice_subs (gw_publisher g)) k = Some subs"
  shows "\<exists>ws g'. websocket K sid now c g = (Inr (Inr (web_socket_new now ws)), g') \<and> waiting ws g' = []"
  using assms
  by (auto simp: websocket_def gateway_subscribe_def gw_on_publisher_def bind_apply subscribe_def
      waiting_def new_channel_def Let_def)

text \<open>
  One update taken by a watching thread. The subscribers of the invoice keep what they were sent:
  removing it drops their senders, not their channels.
\<close>

lemma waiting_remove_invoice:
  assumes "gw_inv addr g" and "remove_invoice in_memory k g = (r, g')"
  shows "waiting a g' = waiting a g"
    and "length (pb_channels (gw_publisher g')) = length (pb_channels (gw_publisher g))"
proof -
  obtain s where "st_remove in_memory k (gw_store g) = (Inr (map_of (gw_store g) k), s)"
    by (simp add: in_memory_def in_memory_defs)
  with assms(2) show "waiting a g' = waiting a g"
    and "length (pb_channels (gw_publisher g')) = length (pb_channels (gw_publisher g))"
    by (auto simp: remove_invoice_def gw_on_store_def gw_put_def gw_on_publisher_def bind_apply
        publisher_remove_invoice_def waiting_def split: option.splits)
qed

lemma take_waiting:
  assumes "waiting a g = i # us" and "a < length (pb_channels (gw_publisher g))"
  obtains p where "blocking_recv False a (gw_publisher g) = (Inr (Some i), p)"
    and "waiting a (g\<lparr>gw_publisher := p\<rparr>) = us"
    and "\<And>b. b \<noteq> a \<Longrightarrow> waiting b (g\<lparr>gw_publisher := p\<rparr>) = waiting b g"
    and "pub_wf (gw_publisher g) \<Longrightarrow> pub_wf p"
    and "length (pb_channels p) = length (pb_channels (gw_publisher g))"
  using assms
  by (auto simp: waiting_def blocking_recv_def recv_def subscriber_poll_def pub_wf_channels)

lemma watch_step_result:
  fixes g :: "('tx, 'k, 'w, 'r) shop"
  assumes inv: "gw_inv addr g" and us: "waiting a g = i # us"
    and a: "a < length (pb_channels (gw_publisher g))"
  shows "\<exists>g'. watch_step finished a g = (Inr (), g') \<and> gw_inv addr g' \<and>
    map_of (gw_store g') =
      (if finished i then (map_of (gw_store g))(invoice_id i := None) else map_of (gw_store g)) \<and>
    waiting a g' = us \<and> (\<forall>b. b \<noteq> a \<longrightarrow> waiting b g' = waiting b g) \<and>
    length (pb_channels (gw_publisher g')) = length (pb_channels (gw_publisher g))"
proof -
  from take_waiting [OF us a] obtain p where p: "blocking_recv False a (gw_publisher g) = (Inr (Some i), p)"
    and w: "waiting a (g\<lparr>gw_publisher := p\<rparr>) = us"
      "\<And>b. b \<noteq> a \<Longrightarrow> waiting b (g\<lparr>gw_publisher := p\<rparr>) = waiting b g"
    and wf: "pub_wf (gw_publisher g) \<Longrightarrow> pub_wf p"
    and len: "length (pb_channels p) = length (pb_channels (gw_publisher g))" by metis
  let ?g = "g\<lparr>gw_publisher := p\<rparr>"
  have inv': "gw_inv addr ?g" using inv wf by (simp add: gw_inv_def)
  from remove_invoice_result [OF inv', of "invoice_id i"] obtain g' r where
    rm: "remove_invoice in_memory (invoice_id i) ?g = (Inr r, g')"
      "map_of (gw_store g') = (map_of (gw_store g))(invoice_id i := None)" by auto
  from gw_inv_remove_invoice [OF inv' rm(1)] waiting_remove_invoice [OF inv' rm(1)] rm w inv' len show ?thesis
    by (simp add: watch_step_def p)
qed

text \<open>What a websocket sends for an update; a final one closes it.\<close>

definition final :: "invoice \<Rightarrow> bool" where
  "final i \<longleftrightarrow> is_confirmed i \<or> is_expired i"

definition frames_of :: "('f json \<Rightarrow> string) \<Rightarrow> invoice \<Rightarrow> frame list" where
  "frames_of show_json i = Text_Frame (show_json (invoice_json i)) #
     (if final i then [Close_Frame (Some (if is_confirmed i then ''Invoice Complete'' else ''Invoice Expired''))]
      else [])"

lemma handle_update_frames:
  "wc_frames (handle_update show_json i ctx) = wc_frames ctx @ frames_of show_json i"
  "wc_running (handle_update show_json i ctx) \<longleftrightarrow> wc_running ctx \<and> \<not> final i"
  by (auto simp: handle_update_def frames_of_def final_def send_frame_def stop_actor_def Let_def)

text \<open>The next item of a stream is the oldest update that waits.\<close>

lemma poll_next_waiting:
  assumes "waiting b g = v # vs" and "b < length (pb_channels (gw_publisher g))"
  shows "\<exists>p. poll_next b (gw_publisher g) = (Ready (Some v), p) \<and> ch_queue (pb_channels p ! b) = vs"
  using assms by (simp add: poll_next_def subscriber_poll_def waiting_def)

text \<open>The page never offers the address of an unpaid invoice that is about to expire.\<close>

lemma checkout_page_address:
  assumes page: "checkout_page K build_code to_xmr render c g = Inr rs" and ok: "hr_status rs = 200"
  shows "\<exists>i code data content. session_invoice K c g = Some i \<and> build_code (uri i) = Some code \<and>
    data = page_data code to_xmr i \<and> render data = Inr content \<and> hr_body rs = Some content \<and>
    (amount_requested i \<le> amount_paid i \<or> \<not> is_expired i) \<and>
    (amount_paid i < amount_requested i \<and> expiration_in i < 3 \<longrightarrow>
       map_of data ''address'' = Some (Json_String ''Expiring soon...''))"
proof -
  from assms obtain i code content where "session_invoice K c g = Some i" "build_code (uri i) = Some code"
    "render (page_data code to_xmr i) = Inr content" "hr_body rs = Some content"
    "amount_requested i \<le> amount_paid i \<or> \<not> is_expired i"
    by (auto simp: checkout_page_def qrcode_def respond_def Let_def
        split: option.splits sum.splits if_splits)
  moreover have "map_of (page_data code to_xmr i) ''address'' = Some (Json_String ''Expiring soon...'')"
    if "amount_paid i < amount_requested i" "expiration_in i < 3"
    using that
    by (simp add: page_data_def page_parts_def is_confirmed_def confirmations_def linorder_not_le [symmetric])
  ultimately show ?thesis by blast
qed

end
