(* ===== verification/Example_Shop.thy ===== *)
theory Example_Shop
  imports Example_Client Shops Custom_Storage Interleaving
begin

text \<open>
  A shop with a customer on a websocket and a watching thread, both with an update waiting, on which
  the properties of the shops are applied.
\<close>

definition ex_session :: "invoice_id option session_ops" where
  "ex_session = \<lparr>se_insert = (\<lambda>_ k _. Inr (Some k)), se_get = (\<lambda>_ c. Inr c)\<rparr>"

lemma ex_session_laws: "session_laws ex_session"
  by (simp add: session_laws_def ex_session_def)

text \<open>An update of the tracked invoice after it has expired, as the scanner would send it.\<close>

definition ex_expired :: invoice where
  "ex_expired = ex_apart\<lparr>current_height := 30\<rparr>"

definition ex_publisher :: publisher where
  "ex_publisher =
     snd (send_updates ex_expired
       (snd (subscribe_all 2 (snd (subscribe 1 (InvoiceId ex_index 12)
         (publisher_insert_invoice (InvoiceId ex_index 12) publisher_new)))))
       :: (unit fault + unit) \<times> publisher)"

definition ex_shop :: "(example_tx, unit, unit, unit) shop" where
  "ex_shop = (ex_gateway ex_store)\<lparr>gw_publisher := ex_publisher\<rparr>"

lemma ex_publisher_wf: "pub_wf ex_publisher"
  unfolding ex_publisher_def
  by (metis prod.collapse pub_wf_insert_invoice pub_wf_new pub_wf_send_updates pub_wf_subscribe
      pub_wf_subscribe_all)

lemma ex_shop_inv: "gw_inv ex_address ex_shop"
  using ex_gateway_store_inv ex_publisher_wf by (simp add: ex_shop_def gw_inv_def)

lemma ex_shop_waiting:
  "waiting 0 ex_shop = [ex_expired]" "waiting 1 ex_shop = [ex_expired]"
  "length (pb_channels (gw_publisher ex_shop)) = 2"
  by code_simp+

lemma ex_expired_done: "ws_done ex_expired" "final ex_expired" "\<not> is_confirmed ex_expired"
  by code_simp+

definition ex_context :: ws_context where
  "ex_context = \<lparr>wc_frames = [], wc_stream = Some 0, wc_heartbeat = True, wc_running = True\<rparr>"

lemma ex_running_subaddresses: "gw_subaddresses (ex_running s) = gw_subaddresses (ex_gateway s)"
  by (simp add: ex_running_def)

end
