(* ===== verification/Spec2Isabelle.thy ===== *)
theory Spec2Isabelle
  imports Example_Shop
begin

text \<open>
  AcceptXMR accepts Monero payments: a \<open>PaymentGateway\<close> hands out subaddresses as invoices, a thread
  scans the daemon's blocks and txpool with the view key for payments to them, keeps each invoice up
  to date in a store, and sends every change to the subscribers. This library models the library
  crate under \<open>src/src\<close>, with the example shops under \<open>src/examples\<close>, and states what makes it correct,
  and where it is not.

  The program and its theories, in the order of their imports:

  \<^item> \<open>Prelude\<close>, \<open>Containers\<close>, \<open>Strings\<close>: results, the operations that return an error after changing
    their state (\<open>act\<close>) with their weakest preconditions, machine integers, \<open>BTreeMap\<close>, \<open>HashMap\<close>,
    \<open>IndexMap\<close>, \<open>VecDeque\<close> and the string functions the code uses.
  \<^item> \<open>Invoice\<close> and \<open>Coins\<close> (\<open>invoice.rs\<close>; the second has the amounts as floating point numbers) and
    \<open>Errors\<close> (\<open>lib.rs\<close> and the error types of the modules).
  \<^item> \<open>Storage\<close> (\<open>storage/mod.rs\<close>, \<open>stores/in_memory.rs\<close>): the trait \<open>InvoiceStorage\<close> as a record of
    operations, its contract as the locale \<open>invoice_storage\<close>, and \<open>InMemory\<close>, which meets it.
    \<open>Store_Lock\<close> has the wrapper \<open>Store\<close> with its lock, and shows that a call on the free lock is one
    step of the storage layer, which is how the theories below call it. \<open>Store_Calls\<close> proves in the
    locale that such a store answers every sequence of calls as a finite map does. \<open>Sled\<close>
    (\<open>stores/sled.rs\<close>) meets the contract for any tree and encoder with their documented laws;
    \<open>Sqlite\<close> (\<open>stores/sqlite.rs\<close>) does not, because of its \<open>update\<close>.
  \<^item> \<open>Authentication\<close> (\<open>rpc/authentication.rs\<close>), \<open>Rpc_Client\<close> (\<open>rpc/mod.rs\<close>): digest authentication
    and the client, over an HTTP client and JSON accessors. \<open>Challenge\<close> reads challenges against the
    grammar of header fields, \<open>Rpc_Facts\<close> proves the client against a daemon. \<open>Rpc_Ops\<close> is the
    record of the client's operations that the caches call, for any client.
  \<^item> \<open>Block_Cache\<close>, \<open>Txpool_Cache\<close>, \<open>Subaddress_Cache\<close> (\<open>caching/\<close>) and \<open>Pubsub\<close> (\<open>pubsub.rs\<close>):
    each with its record, its operations in the order of the code, its invariant and what every
    operation does.
  \<^item> \<open>Scanner\<close> (\<open>scanner.rs\<close>): the model of one scan, composed of the caches, the store and the
    publisher. \<open>Invoice_Totals\<close> treats the adding up of transfers, \<open>Scan_Chain\<close> a scan against a daemon
    that serves one chain, \<open>Scan_Any\<close> a scan against any daemon, \<open>Scan_Progress\<close> repeated scans,
    \<open>Scan_Confirm\<close> when the invoices are confirmed by them, \<open>Scan_Publish\<close> what they send and when
    they wait for a full channel, and \<open>Scan_Faults\<close> a scan that fails and a scanner's first scan.
  \<^item> \<open>Gateway\<close> (\<open>payment_gateway.rs\<close>): the gateway and its thread as a step relation whose
    reachable states keep the invariant \<open>gw_inv\<close>; \<open>Gateway_Calls\<close> treats starting and stopping,
    \<open>Interleaving\<close> breaks a round of the thread up where it lets go of the store, with calls in
    between, and shows that the steps make up the round, \<open>Gateway_Faults\<close> follows the faults of a scan to
    the gateway, and \<open>Builder\<close> has the settings.
  \<^item> \<open>Shops\<close>, \<open>Custom_Storage\<close> and \<open>Persistence\<close> (\<open>src/examples\<close>): the handlers and threads of the two
    example shops on a gateway, a storage layer of a user, which meets the contract, and the program that
    is started again on its SQLite files.
  \<^item> \<open>Example\<close>, \<open>Example_Client\<close> and \<open>Example_Shop\<close>: a concrete wallet, daemon, HTTP daemon, tree,
    database and shop on which the properties are applied.

  Correspondence. A Rust struct is the record of the same fields, an enum the datatype of the same
  variants, \<open>u32\<close> and \<open>u64\<close> are words and wrap as they do in release builds, a method is the
  definition of its name (with the component as a prefix where names clash). A method that can fail
  is a function from the state to a result and the state it leaves behind, also when it fails. A
  panic is \<open>Panic\<close>, and a wait that nothing ends is \<open>Blocked\<close>.

  Parameters. The daemon and the network (\<open>rpc_ops\<close>, or below it \<open>daemon_ops\<close>), the monero crate
  (\<open>monero_ops\<close>), the key checker (\<open>checker_ops\<close>), MD5 and the random bytes (\<open>auth_ops\<close>), the tree
  (\<open>tree_ops\<close>), the database (\<open>sqlite_ops\<close>), bincode (\<open>codec\<close>), the arithmetic of \<open>f64\<close>
  (\<open>f64_ops\<close>) and the random draws are arguments; for the examples also the session (\<open>session_ops\<close>),
  the templates, the QR codes and what a database leaves in its files (\<open>disk\<close>).
  What is assumed of one is a named hypothesis: \<open>serves\<close>, \<open>serves_pool\<close> and \<open>serves_txpool\<close> of the
  daemon, \<open>honest_daemon\<close> and \<open>wants_login\<close> of its HTTP side, \<open>payable\<close> and \<open>scannable\<close> of the
  transactions (the first, that their owned outputs have equal amounts, because the code credits each
  output with the amount of the first one), \<open>sorts\<close> of the sort, \<open>tree_laws\<close>, \<open>sqlite_laws\<close>,
  \<open>rows_law\<close> and \<open>reopens\<close> of the database, \<open>codec_laws\<close>, \<open>f64_laws\<close> and \<open>session_laws\<close>. Each
  property with such a hypothesis has a witness.

  Loops. All loops recurse on a list or a number, except the two over the rows of a SQLite
  statement and the retry of a random draw, which are partial functions: rows that never end, and a
  generator that never gets into its range, are \<open>Blocked\<close>.

  The properties below are, in this order: scans against a chain and against any daemon, the gateway,
  the publisher, the subaddress pool, the caches, the payment URI, the shops, the client and its login,
  and the stores.
  Several state faults of the code: payments counted twice after a restart, payments lost after a
  failed txpool request, a reorganisation that is not noticed before the next block, a status call that
  never returns, a scanner stopped by one full channel, a wrong amount for a second output, a panic on
  a malformed block hash, a panic on an empty pool after a restart, a new invoice overwritten by a
  scan, a transaction left open by the SQLite store.

  Not modelled: actix, which drives the stream of a websocket and calls its handlers; the waiting of an
  asynchronous receive, which here is \<open>Blocked\<close> or, after its time limit, an error; logging; the derived serialisers; the start of the web servers of the examples; the
  tests and benchmarks; a panic inside a storage layer. In \<open>Interleaving\<close> the search of a
  scan is one step, as it does not touch the store, and so is the sending of one update; of the two
  queries a scan sends at the same time the one of the block cache comes first.
\<close>

section \<open>Scans and the chain\<close>







text \<open>
  C8: Whatever the daemon answers and however a scan ends, it neither loses nor invents an invoice,
  and it never changes what an invoice asks for; the totals of an invoice stay those of its
  transfers.
\<close>

theorem scan_any_daemon:
  fixes R :: "('w, 'tx) rpc_ops" and \<sigma> :: "('tx, in_memory, 'w) scan_state"
  assumes "in_memory_ok (sn_store \<sigma>)" and "scan R in_memory M checker \<sigma> = (r, \<sigma>')"
  shows "in_memory_ok (sn_store \<sigma>') \<and>
    dom (map_of (sn_store \<sigma>')) = dom (map_of (sn_store \<sigma>)) \<and>
    (\<forall>k i. map_of (sn_store \<sigma>) k = Some i \<longrightarrow>
       (\<exists>i'. map_of (sn_store \<sigma>') k = Some i' \<and> same_request i i' \<and> (totals_ok i \<longrightarrow> totals_ok i')))"
proof -
  from mem.wp_scan_amends [OF assms(1), of R M checker] assms(2)
  have ok: "in_memory_ok (sn_store \<sigma>')"
    and amends: "amends (map_of (sn_store \<sigma>)) (map_of (sn_store \<sigma>'))"
    by (auto simp: wp_def split: sum.splits)
  have dom: "dom (map_of (sn_store \<sigma>')) = dom (map_of (sn_store \<sigma>))"
    using amends_None [OF amends] by (auto simp: dom_def)
  have "\<exists>i'. map_of (sn_store \<sigma>') k = Some i' \<and> same_request i i' \<and> (totals_ok i \<longrightarrow> totals_ok i')"
    if i: "map_of (sn_store \<sigma>) k = Some i" for k i
  proof -
    obtain i' where i': "map_of (sn_store \<sigma>') k = Some i'" using dom i by (metis domI domD)
    with amends_Some [OF amends i'] i show ?thesis by (auto simp: rescanned_def)
  qed
  with ok dom show ?thesis by blast
qed

theorem scan_any_daemon_witness:
  "dom (map_of (sn_store (snd (scan (ex_no_txpool 14) in_memory ex_monero () ex_scan)))) =
     {InvoiceId ex_index 12}"
  using scan_any_daemon [OF ex_store_ok surjective_pairing, of "ex_no_txpool 14" ex_monero "()"] by simp

text \<open>
  C7: The subscribers learn of every change, and of nothing else: while no subscriber has gone and all
  have room, a scan, against any daemon and also when it fails, puts each invoice it has changed
  once into the queue of each subscriber of that invoice and of all invoices, behind what waits
  there, all queues in the same order; it subscribes and unsubscribes nobody.
\<close>

theorem scan_publishes_changes:
  fixes R :: "('w, 'tx) rpc_ops" and \<sigma> :: "('tx, in_memory, 'w) scan_state"
  assumes "in_memory_ok (sn_store \<sigma>)" and "pub_wf (sn_publisher \<sigma>)" and "all_open (sn_publisher \<sigma>)"
    and "spare (card (dom (map_of (sn_store \<sigma>)))) (sn_publisher \<sigma>)"
    and "scan R in_memory M checker \<sigma> = (r, \<sigma>')"
  shows "\<exists>us. distinct us \<and> set us = changed (map_of (sn_store \<sigma>)) (map_of (sn_store \<sigma>')) \<and>
    (\<forall>key. subs_of key (sn_publisher \<sigma>') = subs_of key (sn_publisher \<sigma>)) \<and>
    (\<forall>a < length (pb_channels (sn_publisher \<sigma>)). queue (sn_publisher \<sigma>') a =
       queue (sn_publisher \<sigma>) a @ filter (\<lambda>u. a \<in> audience (sn_publisher \<sigma>) u) us)"
proof -
  let ?T = "\<lambda>\<sigma>'. \<exists>us. distinct us \<and> set us = changed (map_of (sn_store \<sigma>)) (map_of (sn_store \<sigma>')) \<and>
    told (sn_publisher \<sigma>) us (sn_publisher \<sigma>')"
  have "?T \<sigma>'"
    using mem.wp_scan_told [OF assms(1-4), where T = ?T and R = R and M = M and checker = checker] assms(5)
    by (auto simp: wp_def split: sum.splits)
  then show ?thesis by (auto simp: told_def)
qed

theorem scan_publishes_changes_witness:
  "queue (sn_publisher (snd (scan (ex_daemon 14) in_memory ex_monero () ex_scan_subscribed))) 0 = [ex_paid]"
proof -
  let ?\<sigma>' = "snd (scan (ex_daemon 14) in_memory ex_monero () ex_scan_subscribed)"
  have changed: "changed (map_of (sn_store ex_scan_subscribed)) (map_of (sn_store ?\<sigma>')) = {ex_paid}"
    by (rule ex_changed)
  obtain us where us: "distinct us" "set us = {ex_paid}"
    "queue (sn_publisher ?\<sigma>') 0 = queue (sn_publisher ex_scan_subscribed) 0 @
      filter (\<lambda>u. 0 \<in> audience (sn_publisher ex_scan_subscribed) u) us"
    using scan_publishes_changes [OF ex_subscribed surjective_pairing, of "ex_daemon 14" ex_monero "()"]
    unfolding changed ex_subscribed_queue(1) by blast
  have "us = [ex_paid]" using us(1,2) by (cases us; cases "tl us") auto
  with us(3) ex_subscribed_queue(2,3) show ?thesis by simp
qed

text \<open>
  C12: A payment can be lost for good: when the request for the txpool fails in a scan that has taken a
  new block into the block cache, the scan ends with an error, and what that block pays is in no
  invoice after any number of later scans, which all succeed: the confirmed transfers of each invoice
  and the payments of that block together are the payments on the chain up to the height the cache has
  reached by then. The conditions are those of C1 before the failed scan, with the daemon keeping to
  one chain, and room for the updates of the later scans.
\<close>

theorem txpool_failure_loses_payments:
  fixes R R2 :: "('w, 'tx) rpc_ops" and \<sigma> :: "('tx, in_memory, 'w) scan_state" and H H2 :: u64
  defines "g \<equiv> bc_height (sn_block_cache \<sigma>) + 1"
  assumes "serves R W chain H" and "valid_chain chain H"
    and "\<forall>w \<in> W. \<exists>w' \<in> W. rpc_txpool_hashes R w = (Inl (Failed e), w')"
    and "ready_to_scan chain chain H (sn_block_cache \<sigma>)" and "g < H" and "\<not> sn_first_scan \<sigma>"
    and "sn_world \<sigma> \<in> W" and "pool_unconfirmed (sn_txpool_cache \<sigma>)"
    and "in_memory_ok (sn_store \<sigma>)" and "sn_store \<sigma> \<noteq> []"
    and "\<forall>k i. map_of (sn_store \<sigma>) k = Some i \<longrightarrow>
      follows M checker chain (bc_height (sn_block_cache \<sigma>)) i"
    and "serves R2 W chain H2" and "valid_chain chain H2" and "H \<le> H2"
    and "serves_pool R2 W (scannable M checker (\<lambda>_. True))"
    and "\<forall>x < H2. \<forall>tx \<in> set (cb_txs (chain x)). payable M checker tx"
    and "pub_wf (sn_publisher \<sigma>)" and "spare (n * card (dom (map_of (sn_store \<sigma>)))) (sn_publisher \<sigma>)"
  shows "\<exists>\<sigma>1 \<sigma>2. scan R in_memory M checker \<sigma> = (Inl (Raise (Rpc e)), \<sigma>1) \<and>
    for_loop (\<lambda>_ _. scan R2 in_memory M checker) [0..<n] () \<sigma>1 = (Inr (), \<sigma>2) \<and>
    unat (bc_height (sn_block_cache \<sigma>2)) = min (unat g + n) (unat H2 - 1) \<and>
    dom (map_of (sn_store \<sigma>2)) = dom (map_of (sn_store \<sigma>)) \<and>
    (\<forall>k i. map_of (sn_store \<sigma>) k = Some i \<longrightarrow> creation_height i \<le> g \<longrightarrow>
       (\<exists>i'. map_of (sn_store \<sigma>2) k = Some i' \<and> same_request i i' \<and>
          confirmed (mset (transfers i')) +
            image_mset (\<lambda>a. Transfer a (Some g)) (chain_pay M checker chain (index i) (unat g)) =
          chain_transfers (chain_pay M checker chain (index i))
            (unat (creation_height i)) (Suc (unat (bc_height (sn_block_cache \<sigma>2))))))"
proof -
  note a = assms(2-)
  have step: "mem.in_step M checker W chain \<sigma>" using a by (simp add: mem.in_step_def)
  have "dom (map_of (sn_store \<sigma>)) \<noteq> {}" using a(10) by (simp add: dom_map_of_conv_image_fst)
  then obtain k i where ki: "map_of (sn_store \<sigma>) k = Some i" by blast
  have nonempty: "st_is_empty in_memory (sn_store \<sigma>) = Inr False" using ki by (auto simp: mem.is_empty [OF a(9)])
  have follow: "can_follow chain H (sn_block_cache \<sigma>)" using a(4) by (simp add: ready_to_scan_def)
  from scan_txpool_fails [OF a(1-3) nonempty a(7) follow, of M checker] obtain \<sigma>1 where
    \<sigma>1: "scan R in_memory M checker \<sigma> = (Inl (Raise (Rpc e)), \<sigma>1)" "sn_world \<sigma>1 \<in> W"
      "sn_store \<sigma>1 = sn_store \<sigma>" "sn_publisher \<sigma>1 = sn_publisher \<sigma>"
      "sn_txpool_cache \<sigma>1 = sn_txpool_cache \<sigma>" "sn_first_scan \<sigma>1 = sn_first_scan \<sigma>"
    and cache: "sn_block_cache \<sigma>1 = (let c = sn_block_cache \<sigma>; h = next_height (bc_height c) H
      in c\<lparr>bc_daemon_height := H, bc_height := h, bc_blocks := chain_top chain h (bc_cache_size c)\<rparr>)" by blast
  note missed = mem.missed_in_step [OF step a(4,2) a(5) [unfolded g_def] \<sigma>1(2,3,5,6) cache, folded g_def]
  have ki1: "map_of (sn_store \<sigma>1) k = Some i" using ki \<sigma>1(3) by simp
  have room: "pub_wf (sn_publisher \<sigma>1)" "spare (n * card (dom (map_of (sn_store \<sigma>1)))) (sn_publisher \<sigma>1)"
    using a(17,18) \<sigma>1(3,4) by simp_all
  have g: "g \<le> bc_height (sn_block_cache \<sigma>1)" using missed(1) by simp
  from wp_total [OF mem.wp_scans_after_missing [OF a(12,13,15,16) missed(2) g missed(3) [OF a(14,13)] ki1 room]]
  obtain \<sigma>2 where \<sigma>2: "for_loop (\<lambda>_ _. scan R2 in_memory M checker) [0..<n] () \<sigma>1 = (Inr (), \<sigma>2)"
    "mem.in_step M checker W (without_block chain g) \<sigma>2" "g \<le> bc_height (sn_block_cache \<sigma>2)"
    "unat (bc_height (sn_block_cache \<sigma>2)) = min (unat g + n) (unat H2 - 1)"
    "dom (map_of (sn_store \<sigma>2)) = dom (map_of (sn_store \<sigma>))"
    by (auto simp: missed(1) \<sigma>1(3))
  have ok1: "in_memory_ok (sn_store \<sigma>1)" using a(9) \<sigma>1(3) by simp
  have amends: "amends (map_of (sn_store \<sigma>)) (map_of (sn_store \<sigma>2))"
    using wp_InrD [OF mem.wp_scans_amend [OF ok1] \<sigma>2(1)] \<sigma>1(3) by simp
  have "\<exists>i'. map_of (sn_store \<sigma>2) k = Some i' \<and> same_request i i' \<and>
      confirmed (mset (transfers i')) +
        image_mset (\<lambda>a. Transfer a (Some g)) (chain_pay M checker chain (index i) (unat g)) =
      chain_transfers (chain_pay M checker chain (index i))
        (unat (creation_height i)) (Suc (unat (bc_height (sn_block_cache \<sigma>2))))"
    if i: "map_of (sn_store \<sigma>) k = Some i" "creation_height i \<le> g" for k i
  proof -
    obtain i' where i': "map_of (sn_store \<sigma>2) k = Some i'" "same_request i i'"
      using amends_same_request [OF amends i(1)] by blast
    with \<sigma>2(2) i(2) chain_transfers_without [OF _ \<sigma>2(3), of "unat (creation_height i)" M checker chain "index i"]
    show ?thesis by (auto simp: mem.in_step_def follows_def word_le_nat_alt same_request_def)
  qed
  with \<sigma>1(1) \<sigma>2(1,4,5) show ?thesis by blast
qed

theorem txpool_failure_loses_payments_witness:
  "\<exists>\<sigma>1 \<sigma>2 i.
     scan (ex_no_txpool 13) in_memory ex_monero () ex_scan = (Inl (Raise (Rpc (Timeout ''txpool''))), \<sigma>1) \<and>
     for_loop (\<lambda>_ _. scan (ex_daemon 14) in_memory ex_monero ()) [0..<3] () \<sigma>1 = (Inr (), \<sigma>2) \<and>
     chain_pay ex_monero () ex_chain ex_index 12 = {#5#} \<and>
     map_of (sn_store \<sigma>2) (InvoiceId ex_index 12) = Some i \<and> confirmed (mset (transfers i)) = {#}"
proof -
  have i: "map_of (sn_store ex_scan) (InvoiceId ex_index 12) = Some ex_invoice" "index ex_invoice = ex_index"
    "creation_height ex_invoice = 12"
    by (simp_all add: ex_invoice_def invoice_new_def)
  have 12: "11 + 1 = (12 :: u64)" "unat (12 :: u64) = 12" by simp_all
  obtain \<sigma>1 \<sigma>2 where run:
    "scan (ex_no_txpool 13) in_memory ex_monero () ex_scan = (Inl (Raise (Rpc (Timeout ''txpool''))), \<sigma>1)"
    "for_loop (\<lambda>_ _. scan (ex_daemon 14) in_memory ex_monero ()) [0..<3] () \<sigma>1 = (Inr (), \<sigma>2)"
    "unat (bc_height (sn_block_cache \<sigma>2)) = 13"
    and lost: "\<forall>k i. map_of (sn_store ex_scan) k = Some i \<longrightarrow> creation_height i \<le> 12 \<longrightarrow>
      (\<exists>i'. map_of (sn_store \<sigma>2) k = Some i' \<and> same_request i i' \<and> confirmed (mset (transfers i')) +
         image_mset (\<lambda>a. Transfer a (Some 12)) (chain_pay ex_monero () ex_chain (index i) 12) =
       chain_transfers (chain_pay ex_monero () ex_chain (index i)) (unat (creation_height i))
         (Suc (unat (bc_height (sn_block_cache \<sigma>2)))))"
    using txpool_failure_loses_payments [OF ex_no_txpool_serves ex_valid ex_no_txpool_fails ex_ready_13 _
        ex_ready_premises(1,2) ex_scan_sel(6) ex_store_ok ex_ready_premises(3) ex_tracked ex_serves ex_valid _
        ex_pool ex_all_payable ex_ready_premises(4,5), of 14 3, unfolded ex_scan_sel(5) 12] by auto
  from lost i obtain i' where i': "map_of (sn_store \<sigma>2) (InvoiceId ex_index 12) = Some i'"
    and missing: "confirmed (mset (transfers i')) +
         image_mset (\<lambda>a. Transfer a (Some 12)) (chain_pay ex_monero () ex_chain ex_index 12) =
       chain_transfers (chain_pay ex_monero () ex_chain ex_index) 12 (Suc (unat (bc_height (sn_block_cache \<sigma>2))))"
    by force
  from missing have "confirmed (mset (transfers i')) + {#Transfer 5 (Some 12)#} = {#Transfer 5 (Some 12)#}"
    by (simp add: run(3) chain_transfers_def ex_upto ex_chain_pay_12 ex_chain_pay_13)
  with run i' ex_chain_pay_12 show ?thesis by auto
qed

text \<open>
  C11: A restart counts payments twice: when a gateway is run on a store whose invoices are in step with
  the chain up to the last block they have seen, the first round of its thread adds to the confirmed
  transfers of each invoice, and to its totals, all payments to its subaddress in the ten blocks that the
  cache then holds, from the invoice's creation height on, although the invoice has those of all but a
  new block already. The conditions are those of C1, on a chain of at least ten blocks.
\<close>

theorem restart_counts_payments_twice:
  fixes g :: "('tx, 'k, in_memory, 'w, 'r, in_memory_error) gateway" and h H :: u64
  assumes "serves R W chain H" and "valid_chain chain H"
    and "serves_pool R W (scannable M (first_checker C g) (\<lambda>_. True))" and "serves_txpool R W"
    and "\<forall>x < H. \<forall>tx \<in> set (cb_txs (chain x)). payable M (first_checker C g) tx"
    and "h < H" and "9 \<le> unat h"
    and "gw_handle g = None" and "\<not> gw_handle_locked g" and "gw_commands g = []" and "gw_world g \<in> W"
    and "in_memory_ok (gw_store g)" and "gw_store g \<noteq> []"
    and "\<forall>k i. map_of (gw_store g) k = Some i \<longrightarrow>
      follows M (first_checker C g) chain h i \<and> current_height i = h + 1"
    and "pub_wf (gw_publisher g)" and "spare (card (dom (map_of (gw_store g)))) (gw_publisher g)"
  shows "\<exists>g1. run R in_memory M C None None g = (Inr (), g1) \<and>
    (\<forall>k i. map_of (gw_store g) k = Some i \<longrightarrow>
      (\<exists>i'. map_of (gw_store (thread_step R in_memory M C g1)) k = Some i' \<and> totals_ok i' \<and>
        confirmed (mset (transfers i')) = confirmed (mset (transfers i)) +
          chain_transfers (chain_pay M (first_checker C g) chain (index i))
            (max (unat (next_height h H) - 9) (unat (creation_height i))) (Suc (unat (next_height h H)))))"
  by (rule restart_doubles [OF assms])

theorem restart_counts_payments_twice_witness:
  "\<exists>g1 i'. run (ex_daemon 13) in_memory ex_monero ex_checker None None
       (ex_gateway [(InvoiceId ex_index 12, ex_paid)]) = (Inr (), g1) \<and>
     map_of (gw_store (thread_step (ex_daemon 13) in_memory ex_monero ex_checker g1)) (InvoiceId ex_index 12) = Some i' \<and>
     confirmed (mset (transfers ex_paid)) = {#Transfer 5 (Some 12)#} \<and>
     confirmed (mset (transfers i')) = {#Transfer 5 (Some 12), Transfer 5 (Some 12)#}"
proof -
  let ?g = "ex_gateway [(InvoiceId ex_index 12, ex_paid)]"
  have idle: "gw_handle ?g = None" "\<not> gw_handle_locked ?g" "gw_commands ?g = []" "gw_world ?g \<in> UNIV"
    "in_memory_ok (gw_store ?g)" "gw_store ?g \<noteq> []"
    "\<forall>k i. map_of (gw_store ?g) k = Some i \<longrightarrow> follows ex_monero () ex_chain 12 i \<and> current_height i = 12 + 1"
    "pub_wf (gw_publisher ?g)" "spare (card (dom (map_of (gw_store ?g)))) (gw_publisher ?g)"
    using ex_paid_follows ex_paid_sel
    by (simp_all add: ex_gateway_def in_memory_ok_def bt_wf_def pub_wf_new)
  have next_top: "next_height 12 13 = (12 :: u64)" by (simp add: next_height_def)
  have checker: "first_checker ex_checker ?g = ()" by simp
  note twice = restart_counts_payments_twice [where C = ex_checker and g = ?g, unfolded checker,
      OF ex_serves ex_valid ex_pool ex_serves_txpool ex_all_payable _ _ idle]
  from twice [where H = 13] obtain g1 where
    g1: "run (ex_daemon 13) in_memory ex_monero ex_checker None None ?g = (Inr (), g1)"
    "\<forall>k i. map_of (gw_store ?g) k = Some i \<longrightarrow>
      (\<exists>i'. map_of (gw_store (thread_step (ex_daemon 13) in_memory ex_monero ex_checker g1)) k = Some i' \<and> totals_ok i' \<and>
        confirmed (mset (transfers i')) = confirmed (mset (transfers i)) +
          chain_transfers (chain_pay ex_monero () ex_chain (index i))
            (max (unat (next_height 12 13) - 9) (unat (creation_height i))) (Suc (unat (next_height 12 13))))"
    by auto
  have "map_of (gw_store ?g) (InvoiceId ex_index 12) = Some ex_paid" by (simp add: ex_gateway_def)
  with g1(2) obtain i' where
    i': "map_of (gw_store (thread_step (ex_daemon 13) in_memory ex_monero ex_checker g1)) (InvoiceId ex_index 12) = Some i'"
    and twice: "confirmed (mset (transfers i')) = confirmed (mset (transfers ex_paid)) +
      chain_transfers (chain_pay ex_monero () ex_chain (index ex_paid))
        (max (unat (next_height 12 13) - 9) (unat (creation_height ex_paid))) (Suc (unat (next_height 12 13)))" by blast
  have "confirmed (mset (transfers ex_paid)) = {#Transfer 5 (Some 12)#}"
    by (simp add: ex_paid_transfers confirmed_def)
  moreover from this twice have "confirmed (mset (transfers i')) = {#Transfer 5 (Some 12), Transfer 5 (Some 12)#}"
    using ex_paid_sel by (simp add: next_top chain_transfers_def ex_upto ex_chain_pay_12)
  ultimately show ?thesis using g1(1) i' by blast
qed

section \<open>The totals of an invoice\<close>

text \<open>
  C4: The paid height of an invoice is the first height at which the transfers confirmed up to it
  cover the requested amount, and \<open>None\<close> when they never do (unless unconfirmed transfers complete
  the amount), whatever the order of the transfers of one height, as long as the sum fits 64 bits.
\<close>

theorem paid_height_first_covered:
  assumes "ascending ts" and "(\<Sum>t \<leftarrow> ts. unat (t_amount t)) < 2 ^ 64"
  shows "first_paid (amount_requested i) (mset ts) (paid_height (add_up ts (zeroed i))) \<and>
    unat (amount_paid (add_up ts (zeroed i))) = (\<Sum>t \<leftarrow> ts. unat (t_amount t))"
  using add_up_paid_height [OF assms] unat_sum_list [OF assms(2)]
  by (simp add: amount_paid_add_up zeroed_def)

theorem paid_height_first_covered_witness:
  "first_paid 5 (mset [Transfer 3 (Some 12), Transfer 2 (Some 13), Transfer 9 None])
     (paid_height (add_up [Transfer 3 (Some 12), Transfer 2 (Some 13), Transfer 9 None] (zeroed ex_invoice)))"
  using paid_height_first_covered
    [of "[Transfer 3 (Some 12), Transfer 2 (Some 13), Transfer 9 None]" ex_invoice]
  by (simp add: ascending_def cmp_by_height_def ex_invoice_def invoice_new_def)

text \<open>
  C15: In a transaction without a time lock (\<open>unlock_time\<close> 0) whose owned outputs can be decoded, every
  output that belongs to a tracked subaddress is credited with the amount of the transaction's first owned
  output, not with its own.
\<close>

theorem outputs_credited_with_first_amount:
  fixes s :: 's and S :: "('s, 'e) storage_ops"
  assumes "\<And>x. st_contains_sub_index S x s = Inr (P x)"
    and "mo_unlock_time M tx = 0" and "mo_check_outputs M tx checker = Inr outputs"
    and "oo_amount (outputs ! 0) = Some a"
  shows "\<exists>amounts. scan_transactions S M checker [tx] s = (Inr amounts, s) \<and>
    mset (all_amounts amounts) =
      mset (map (\<lambda>out. \<lparr>oa_sub_index = oo_sub_index out, oa_amount = a\<rparr>)
        (filter (\<lambda>out. P (oo_sub_index out)) outputs))"
proof -
  have "scannable M checker P tx" using assms by (simp add: scannable_def)
  then have "\<forall>tx \<in> set [tx]. scannable M checker P tx" by simp
  from wp_total [OF wp_scan_transactions [OF assms(1) this]] show ?thesis
    using assms by (auto simp: tx_credits_def)
qed

theorem outputs_credited_with_first_amount_witness:
  "\<exists>amounts. scan_transactions in_memory ex_monero ()
      [(7, [\<lparr>oo_sub_index = ex_index, oo_amount = Some 5\<rparr>, \<lparr>oo_sub_index = ex_index, oo_amount = Some 900\<rparr>])]
      (sn_store ex_scan) = (Inr amounts, sn_store ex_scan) \<and>
    mset (all_amounts amounts) =
      {#\<lparr>oa_sub_index = ex_index, oa_amount = 5\<rparr>, \<lparr>oa_sub_index = ex_index, oa_amount = 5\<rparr>#}"
proof -
  have "st_contains_sub_index in_memory x (sn_store ex_scan) = Inr (x \<le> ex_index)" for x
    by (simp add: in_memory_def in_memory_contains_iff)
  from outputs_credited_with_first_amount [OF this, where M = ex_monero and
      tx = "(7, [\<lparr>oo_sub_index = ex_index, oo_amount = Some 5\<rparr>, \<lparr>oo_sub_index = ex_index, oo_amount = Some 900\<rparr>])"
      and outputs = "[\<lparr>oo_sub_index = ex_index, oo_amount = Some 5\<rparr>, \<lparr>oo_sub_index = ex_index, oo_amount = Some 900\<rparr>]"
      and a = 5 and checker = "()"]
  show ?thesis by (simp add: ex_monero_def)
qed

section \<open>The gateway\<close>

text \<open>
  C2: Whatever the users, the scanning thread, the subscribers and the daemon do, and in whatever
  order, also in the middle of a scan, every tracked invoice keeps a subaddress of its own, shows its
  address, has the totals of its transfers, and its subaddress is not handed out again while it is
  tracked.
\<close>

theorem gateway_keeps_subaddresses_apart:
  fixes g0 g :: "('tx, 'k, in_memory, 'w, 'r, in_memory_error) gateway"
  assumes "good_store addr major_index s"
    and "gateway_build in_memory addr major_index rng w s = Inr g0"
    and "interleaved R in_memory M C gen_range addr g0 (g, ph)"
    and "map_of (gw_store g) k = Some i"
  shows "invoice_id i = k \<and> address i = addr (index i) \<and> totals_ok i \<and>
    index i \<notin> may_draw (gw_subaddresses g) \<and>
    (\<forall>k' i'. map_of (gw_store g) k' = Some i' \<and> index i' = index i \<longrightarrow> k' = k)"
proof -
  have sep: "separated addr g"
    using interleaved_inv [OF assms(3) gateway_build_inv [OF assms(1,2)]] by (simp add: gw_inv_separated)
  with assms(4) show ?thesis
    using in_memory_keyed [OF separated_store [OF sep] assms(4)]
    by (auto simp: separated_def gw.separate_def)
qed

theorem gateway_keeps_subaddresses_apart_witness:
  "\<exists>g0 :: (example_tx, unit, in_memory, unit, unit, in_memory_error) gateway.
     gateway_build in_memory ex_address 0 () () [(InvoiceId ex_index 12, ex_apart)] = Inr g0 \<and>
     index ex_apart \<notin> may_draw (gw_subaddresses g0)"
proof -
  let ?s = "[(InvoiceId ex_index 12, ex_apart)]"
  have good: "good_store ex_address 0 ?s" by code_simp
  have "st_try_iter in_memory ?s = Inr (map Inr [ex_apart])" by (simp add: in_memory_def in_memory_defs)
  from subaddress_cache_init_eq [OF this, of ex_address 0 "()"] obtain g0 ::
    "(example_tx, unit, in_memory, unit, unit, in_memory_error) gateway" where
    g0: "gateway_build in_memory ex_address 0 () () ?s = Inr g0" "gw_store g0 = ?s"
    by (auto simp: gateway_build_def)
  from gateway_keeps_subaddresses_apart [OF good g0(1) interleaved.start, of "InvoiceId ex_index 12" ex_apart]
  show ?thesis using g0 by simp
qed



text \<open>
  C24: A scan can overwrite an invoice that was created while it ran. Take any history of a gateway up to
  a moment at which the thread has searched the chain and is about to read the store. If the scan then
  reads an invoice it has an update for, the user removes that invoice and issues its subaddress again
  at the same daemon height, then the new invoice has the same id, and the scan's next save replaces it
  by the update of the removed one, with the removed one's request and what was paid to it.
\<close>

theorem late_save_overwrites_new_invoice:
  fixes g0 g :: "('tx, 'k, in_memory, 'w, 'r, in_memory_error) gateway"
  assumes "good_store addr major_index s"
    and "gateway_build in_memory addr major_index rng w s = Inr g0"
    and "interleaved R in_memory M C gen_range addr g0 (g, Found n found)"
    and "phase_step R in_memory M C (g, Found n found) = (g1, Saving (j # js))"
    and "remove_invoice in_memory (invoice_id j) g1 = (r, g2)"
    and "draw gen_range addr (gw_subaddresses g2) =
      (Inr (index j, a) :: in_memory_error accept_xmr_error fault + _, c)"
    and "gw_cached_daemon_height g2 = creation_height j"
  shows "\<exists>i g3. map_of (gw_store g) (invoice_id j) = Some i \<and> same_request i j \<and> r = Inr (Some i) \<and>
    new_invoice in_memory gen_range addr piconeros confs expiration desc g2 = (Inr (invoice_id j), g3) \<and>
    map_of (gw_store g3) (invoice_id j) =
      Some (invoice_new (addr (index j)) (index j) (creation_height j) piconeros confs expiration desc) \<and>
    interleaved R in_memory M C gen_range addr g0 (g3, Saving (j # js)) \<and>
    map_of (gw_store (fst (phase_step R in_memory M C (g3, Saving (j # js))))) (invoice_id j) = Some j"
proof -
  have inv: "gw_inv addr g" using interleaved_inv [OF assms(3) gateway_build_inv [OF assms(1,2)]] by simp
  from late_save [OF inv assms(4-7), of piconeros confs expiration desc] obtain i g3 where
    found: "map_of (gw_store g) (invoice_id j) = Some i" "same_request i j" "r = Inr (Some i)"
    and new: "new_invoice in_memory gen_range addr piconeros confs expiration desc g2 = (Inr (invoice_id j), g3)"
    and stored: "map_of (gw_store g3) (invoice_id j) =
      Some (invoice_new (addr (index j)) (index j) (creation_height j) piconeros confs expiration desc)"
      "map_of (gw_store (fst (phase_step R in_memory M C (g3, Saving (j # js))))) (invoice_id j) = Some j"
    by blast
  have "interleaved R in_memory M C gen_range addr g0 (g1, Saving (j # js))"
    using interleaved.thread [OF assms(3)] assms(4) by simp
  from interleaved.new [OF interleaved.remove [OF this assms(5)] new] found new stored show ?thesis by blast
qed

theorem late_save_overwrites_new_invoice_witness:
  "\<exists>(g0 :: (example_tx, unit, in_memory, unit, unit, in_memory_error) gateway) g2 g3 js.
     interleaved ex_mempool in_memory ex_monero ex_checker ex_last_range ex_address g0 (g3, Saving (ex_seen_paid # js)) \<and>
     new_invoice in_memory ex_last_range ex_address 7 3 10 ''new'' g2 = (Inr (InvoiceId ex_index 12), g3) \<and>
     map_of (gw_store g3) (InvoiceId ex_index 12) =
       Some (invoice_new (ex_address ex_index) ex_index 12 7 3 10 ''new'') \<and>
     map_of (gw_store (fst (phase_step ex_mempool in_memory ex_monero ex_checker
       (g3, Saving (ex_seen_paid # js))))) (InvoiceId ex_index 12) = Some ex_seen_paid"
proof -
  obtain g0 :: "(example_tx, unit, in_memory, unit, unit, in_memory_error) gateway" and g n found g1 g2 c where
    history: "good_store ex_address 0 [(InvoiceId ex_index 12, ex_seen)]"
      "gateway_build in_memory ex_address 0 () () [(InvoiceId ex_index 12, ex_seen)] = Inr g0"
      "interleaved ex_mempool in_memory ex_monero ex_checker ex_last_range ex_address g0 (g, Found n found)"
      "phase_step ex_mempool in_memory ex_monero ex_checker (g, Found n found) = (g1, Saving [ex_seen_paid])"
      "remove_invoice in_memory (invoice_id ex_seen_paid) g1 = (Inr (Some ex_seen), g2)"
      "draw ex_last_range ex_address (gw_subaddresses g2) =
        (Inr (index ex_seen_paid, ex_address ex_index) :: in_memory_error accept_xmr_error fault + _, c)"
      "gw_cached_daemon_height g2 = creation_height ex_seen_paid"
    using ex_late_history by blast
  have j: "invoice_id ex_seen_paid = InvoiceId ex_index 12" "index ex_seen_paid = ex_index"
    "creation_height ex_seen_paid = 12" by code_simp+
  from late_save_overwrites_new_invoice [OF history, of 7 3 10 "''new''"] show ?thesis
    unfolding j by blast
qed

text \<open>
  C13: Once the pool has handed out a subaddress, \<open>new_invoice\<close> succeeds: the id it returns was not in
  use, the invoice it tracks asks for what was requested at the height of the daemon last seen,
  nothing else changes in the store, and the invoice can be subscribed to.
\<close>

theorem new_invoice_tracks_fresh_id:
  fixes g :: "('tx, 'k, in_memory, 'w, 'r, in_memory_error) gateway"
  assumes inv: "gw_inv addr g"
    and draw: "draw gen_range addr (gw_subaddresses g) =
      (Inr (x, a) :: in_memory_error accept_xmr_error fault + _, c)"
  shows "\<exists>g'. new_invoice in_memory gen_range addr piconeros confs expiration desc g =
      (Inr (InvoiceId x (gw_cached_daemon_height g)), g') \<and>
    map_of (gw_store g) (InvoiceId x (gw_cached_daemon_height g)) = None \<and>
    map_of (gw_store g') = (map_of (gw_store g))(InvoiceId x (gw_cached_daemon_height g) \<mapsto>
      invoice_new (addr x) x (gw_cached_daemon_height g) piconeros confs expiration desc) \<and>
    gw_subaddresses g' = c \<and>
    map_of (pb_invoice_subs (gw_publisher g')) (InvoiceId x (gw_cached_daemon_height g)) = Some []"
  by (rule new_invoice_result [OF inv draw])

theorem new_invoice_tracks_fresh_id_witness:
  "\<exists>g'. new_invoice in_memory ex_gen_range ex_address 5 2 10 ''goods'' (ex_gateway []) =
      (Inr (InvoiceId (SubIndex 0 0) 0), g') \<and>
    map_of (gw_store g') = [InvoiceId (SubIndex 0 0) 0 \<mapsto>
      invoice_new (ex_address (SubIndex 0 0)) (SubIndex 0 0) 0 5 2 10 ''goods'']"
proof -
  have draw: "draw ex_gen_range ex_address (gw_subaddresses (ex_gateway [])) =
      (Inr (SubIndex 0 0, ex_address (SubIndex 0 0)) :: in_memory_error accept_xmr_error fault + _,
       snd (draw ex_gen_range ex_address (gw_subaddresses (ex_gateway [])) ::
         (in_memory_error accept_xmr_error fault + _) \<times> _))"
    using ex_draw by (metis prod.collapse prod.sel(1))
  from new_invoice_tracks_fresh_id [OF ex_gateway_inv draw, of 5 2 10 "''goods''"] show ?thesis
    by (elim exE conjE) (auto simp: ex_gateway_def)
qed

text \<open>
  C14: \<open>remove_invoice\<close> returns the invoice that was tracked under the id, if any, and stops tracking
  it and nothing else; its subaddress may then be handed out again, and nobody is subscribed to it.
\<close>

theorem remove_invoice_releases_subaddress:
  fixes g :: "('tx, 'k, in_memory, 'w, 'r, in_memory_error) gateway"
  assumes inv: "gw_inv addr g"
  shows "\<exists>g'. remove_invoice in_memory k g = (Inr (map_of (gw_store g) k), g') \<and>
    map_of (gw_store g') = (map_of (gw_store g))(k := None) \<and>
    may_draw (gw_subaddresses g') = may_draw (gw_subaddresses g) \<union>
      (case map_of (gw_store g) k of None \<Rightarrow> {} | Some i \<Rightarrow> {index i}) \<and>
    (map_of (gw_store g) k \<noteq> None \<longrightarrow> map_of (pb_invoice_subs (gw_publisher g')) k = None)"
  by (rule remove_invoice_result [OF inv])

theorem remove_invoice_releases_subaddress_witness:
  "\<exists>g'. remove_invoice in_memory (InvoiceId ex_index 12) (ex_gateway ex_store) = (Inr (Some ex_apart), g') \<and>
    map_of (gw_store g') = Map.empty \<and> ex_index \<in> may_draw (gw_subaddresses g')"
  using remove_invoice_releases_subaddress [OF ex_gateway_store_inv, of "InvoiceId ex_index 12"]
  by (elim exE conjE) (auto simp: ex_gateway_def ex_store_def ex_apart_def invoice_new_def)

text \<open>
  C22: \<open>stop\<close> ends a running thread: the message waits for the thread at the top of its loop, the
  thread takes it instead of scanning and is joined, and the gateway is not running afterwards.
\<close>

theorem stop_ends_running_thread:
  assumes "gw_handle g = Some Running" and "gw_scanner g = Some sr" and "gw_commands g = []"
    and "\<not> gw_handle_locked g"
  shows "gateway_stop R S M C g = (Inr (), g\<lparr>gw_handle := None\<rparr>) \<and>
    status (g\<lparr>gw_handle := None\<rparr>) = (Inr NotRunning, g\<lparr>gw_handle := None\<rparr>)"
  using assms status_not_running [of "g\<lparr>gw_handle := None\<rparr>"]
  by (simp add: gateway_stop_def bind_apply lock_handle_def take_handle_def release_after_def
      gw_put_def join_thread_def thread_step_def)

theorem stop_ends_running_thread_witness:
  "gateway_stop (ex_daemon 14) in_memory ex_monero ex_checker (ex_running []) =
     (Inr (), (ex_running [])\<lparr>gw_handle := None\<rparr>)"
  by (rule conjunct1 [OF stop_ends_running_thread]) (simp_all add: ex_running_def ex_gateway_def)

text \<open>
  C21: Once the scanning thread has finished, whatever its result, \<open>status\<close> locks the mutex of the
  handle twice and never returns, and no later \<open>status\<close>, \<open>stop\<close> or \<open>run\<close> returns either.
\<close>

theorem status_of_finished_thread_deadlocks:
  assumes "gw_handle g = Some t" and "is_finished t" and "\<not> gw_handle_locked g"
  shows "\<exists>g'. status g = (Inl Blocked, g') \<and> status g' = (Inl Blocked, g') \<and>
    gateway_stop R S M C g' = (Inl Blocked, g') \<and>
    run R S M C spawn_error runtime_error g' = (Inl Blocked, g')"
proof -
  have "status g = (Inl Blocked, g\<lparr>gw_handle_locked := True\<rparr>)"
    using assms by (simp add: status_def bind_apply lock_handle_def gw_get_def)
  then show ?thesis using locked_blocks [of "g\<lparr>gw_handle_locked := True\<rparr>"] by simp
qed

theorem status_of_finished_thread_deadlocks_witness:
  "fst (status ((ex_gateway [])\<lparr>gw_handle := Some (Exited None)\<rparr>)) = Inl Blocked"
  using status_of_finished_thread_deadlocks [of "(ex_gateway [])\<lparr>gw_handle := Some (Exited None)\<rparr>"
      "Exited None" "ex_daemon 14" in_memory ex_monero ex_checker None None]
  by (auto simp: ex_gateway_def)

section \<open>Publisher and subscribers\<close>

text \<open>
  C9: While the live subscribers of an invoice and those of all invoices have room, \<open>send_updates\<close>
  returns, and puts the invoice in every open channel of theirs exactly once and in no other.
  Afterwards each of the two lists keeps only the subscribers before its first closed one: those
  behind it got this update, but are dropped although they are alive.
\<close>

theorem send_updates_delivers_once:
  assumes "pub_wf p" and "roomy (Some (invoice_id ivc)) p" and "roomy None p"
  shows "\<exists>p'. send_updates ivc p = (Inr () :: 'e fault + unit, p') \<and> pub_wf p' \<and>
    pb_channels p' =
      deliver ivc (addresses (Some (invoice_id ivc)) p \<union> addresses None p) (pb_channels p) \<and>
    (\<forall>key. subs_of key p' =
      (if key = Some (invoice_id ivc) \<or> key = None then takeWhile (is_open p) (subs_of key p)
       else subs_of key p))"
  using send_updates_delivers [OF assms, where ?'e = 'e] pub_wf_send_updates [OF assms(1)] by blast

definition ex_publisher :: publisher where
  "ex_publisher = drop_subscriber 0 (snd (subscribe_all 2 (snd (subscribe_all 1 publisher_new))))"

theorem send_updates_delivers_once_witness:
  "\<exists>p'. send_updates ex_invoice ex_publisher = (Inr () :: string fault + unit, p') \<and>
    map ch_queue (pb_channels p') = [[], [ex_invoice]] \<and> subs_of None p' = []"
proof -
  have wf: "pub_wf ex_publisher"
    unfolding ex_publisher_def by (intro pub_wf_drop_subscriber pub_wf_subscribe_all pub_wf_new)
  have room: "roomy (Some (invoice_id ex_invoice)) ex_publisher" "roomy None ex_publisher" by code_simp+
  have "map ch_queue (deliver ex_invoice (addresses (Some (invoice_id ex_invoice)) ex_publisher \<union>
      addresses None ex_publisher) (pb_channels ex_publisher)) = [[], [ex_invoice]]"
    "takeWhile (is_open ex_publisher) (subs_of None ex_publisher) = []" by code_simp+
  then show ?thesis using send_updates_delivers_once [OF wf room, where ?'e = string] by auto
qed

text \<open>
  C23: A subscriber that is alive but does not read its channel stops the scanner for good: once its
  channel holds 2048 updates, the first round of the thread that changes an invoice it is to be told of,
  having subscribed to that invoice or to all, never ends. The thread makes no further step,
  whatever the daemon does, and \<open>stop\<close> waits for it for ever.
\<close>

theorem full_channel_stops_scanner:
  fixes g :: "('tx, 'k, in_memory, 'w, 'r, in_memory_error) gateway"
  assumes "in_memory_ok (gw_store g)" and "pub_wf (gw_publisher g)"
    and "a < length (pb_channels (gw_publisher g))" and "ch_open (pb_channels (gw_publisher g) ! a)"
    and "2048 \<le> length (ch_queue (pb_channels (gw_publisher g) ! a))"
    and "u \<in> changed (map_of (gw_store g)) (map_of (gw_store (thread_step R in_memory M C g)))"
    and "a \<in> audience (gw_publisher g) u"
  shows "gw_handle (thread_step R in_memory M C g) = Some Stuck \<and>
    thread_step R' in_memory M' C' (thread_step R in_memory M C g) = thread_step R in_memory M C g \<and>
    fst (gateway_stop R' in_memory M' C' (thread_step R in_memory M C g)) = Inl Blocked"
proof -
  have "stuffed (gw_publisher g) a" using assms(3-5) by (simp add: stuffed_def subscription_buffer_len_def)
  from thread_stuck [OF assms(1,2) this assms(6,7)] show ?thesis by (simp add: stuck_thread)
qed

theorem full_channel_stops_scanner_witness:
  "gw_handle (thread_step (ex_daemon 14) in_memory ex_monero ex_checker (ex_stuffed ex_unread)) = Some Stuck"
proof -
  have p: "gw_publisher (ex_stuffed ex_unread) = ex_unread" by (simp add: ex_stuffed_sel)
  have ok: "in_memory_ok (gw_store (ex_stuffed ex_unread))"
    using ex_store_ok by (simp add: ex_stuffed_sel)
  have "invoice_id ex_paid = InvoiceId ex_index 12" "ex_invoice \<noteq> ex_paid" by code_simp+
  then have "ex_paid \<in> changed (map_of (gw_store (ex_stuffed ex_unread))) (map_of (gw_store
      (thread_step (ex_daemon 14) in_memory ex_monero ex_checker (ex_stuffed ex_unread))))"
    by (simp add: changed_def ex_stuffed_store) (simp add: ex_stuffed_sel)
  with full_channel_stops_scanner [where g = "ex_stuffed ex_unread" and a = 0, unfolded p, OF ok ex_unread(1) _ _ _ _ ex_unread(3)]
    ex_unread(2) show ?thesis by (simp add: stuffed_def subscription_buffer_len_def)
qed

section \<open>The subaddress pool\<close>

text \<open>
  C19: A new gateway's pool: all subaddresses of the account up to the highest one in use, at least 100,
  without those of the stored invoices, each with its own address. When these are all in use the pool
  starts empty; it only grows after a draw, so then every \<open>new_invoice\<close> panics.
\<close>

theorem initial_pool_holds_unused:
  fixes S :: "('s, 'e) storage_ops"
  assumes "st_try_iter S s = Inr (map Inr is)"
  shows "\<exists>g :: ('tx, 'k, 's, 'w, 'r, 'e) gateway. gateway_build S addr major_index rng w s = Inr g \<and>
    pool_ok addr (gw_subaddresses g) \<and>
    sc_highest_minor_index (gw_subaddresses g) =
      max 99 (if is = [] then 0 else minor (Max (index ` set is))) \<and>
    available (gw_subaddresses g) =
      {SubIndex major_index m | m. m \<le> sc_highest_minor_index (gw_subaddresses g)} - index ` set is \<and>
    (available (gw_subaddresses g) = {} \<longrightarrow>
       new_invoice S gen_range addr piconeros confs expiration desc g = (Inl Panic, g))"
proof -
  obtain g :: "('tx, 'k, 's, 'w, 'r, 'e) gateway" where
    g: "gateway_build S addr major_index rng w s = Inr g" "pool_ok addr (gw_subaddresses g)"
    "sc_highest_minor_index (gw_subaddresses g) = max 99 (if is = [] then 0 else minor (Max (index ` set is)))"
    "available (gw_subaddresses g) =
      {SubIndex major_index m | m. m \<le> sc_highest_minor_index (gw_subaddresses g)} - index ` set is"
    using gateway_build_eq [OF assms, of addr major_index rng w, where ?'tx = 'tx and ?'k = 'k] by blast
  moreover have "new_invoice S gen_range addr piconeros confs expiration desc g = (Inl Panic, g)"
    if "available (gw_subaddresses g) = {}" using that by (intro new_invoice_empty_pool) simp
  ultimately show ?thesis by blast
qed

theorem initial_pool_holds_unused_witness:
  "\<exists>g :: (example_tx, unit, in_memory, unit, unit, in_memory_error) gateway.
    gateway_build in_memory ex_address 0 () () ex_full = Inr g \<and>
    new_invoice in_memory ex_gen_range ex_address 5 2 10 ''goods'' g = (Inl Panic, g)"
proof -
  obtain g :: "(example_tx, unit, in_memory, unit, unit, in_memory_error) gateway" where
    g: "gateway_build in_memory ex_address 0 () () ex_full = Inr g"
    "sc_highest_minor_index (gw_subaddresses g) =
      max 99 (if map ex_numbered [0..<100] = [] then 0 else minor (Max (index ` set (map ex_numbered [0..<100]))))"
    "available (gw_subaddresses g) = {SubIndex 0 m | m. m \<le> sc_highest_minor_index (gw_subaddresses g)} -
      index ` set (map ex_numbered [0..<100])"
    "available (gw_subaddresses g) = {} \<longrightarrow>
       new_invoice in_memory ex_gen_range ex_address 5 2 10 ''goods'' g = (Inl Panic, g)"
    using initial_pool_holds_unused [OF ex_full_iter, of ex_address 0 "()" "()"] by blast
  have "sc_highest_minor_index (gw_subaddresses g) = 99" using g(2) ex_full_highest by simp
  with g(3) have "available (gw_subaddresses g) = {}" using ex_full_indices by simp
  with g(1,4) show ?thesis by blast
qed

text \<open>
  C17: However the random numbers fall, a run of draws hands out pairwise different subaddresses with
  their own addresses, all of which the pool may hand out before and none afterwards.
\<close>

theorem draws_are_distinct:
  assumes "pool_ok addr c"
    and "for_loop (\<lambda>_ xs. bind (draw gen_range addr) (\<lambda>x. ret (xs @ [x]))) is [] c =
      (Inr xs :: 'e fault + (sub_index \<times> string) list, c')"
  shows "distinct (map fst xs) \<and> list_all (\<lambda>(x, a). a = addr x) xs \<and>
    set (map fst xs) \<subseteq> may_draw c \<and> may_draw c' = may_draw c - set (map fst xs) \<and> pool_ok addr c'"
  using wp_InrD [OF pool.wp_draws [OF assms(1)] assms(2)] by blast

theorem draws_are_distinct_witness:
  "\<exists>c' :: unit subaddress_cache. may_draw c' = may_draw (gw_subaddresses (ex_gateway [])) - {SubIndex 0 0}"
proof -
  obtain c1 where d: "draw ex_gen_range ex_address (gw_subaddresses (ex_gateway [])) =
      (Inr (SubIndex 0 0, ex_address (SubIndex 0 0)) :: string fault + _, c1)"
    using ex_draw [of "[]", where ?'e = string] by (metis prod.collapse)
  have "for_loop (\<lambda>_ xs. bind (draw ex_gen_range ex_address) (\<lambda>x. ret (xs @ [x]))) [0 :: nat] []
      (gw_subaddresses (ex_gateway [])) = (Inr [(SubIndex 0 0, ex_address (SubIndex 0 0))] ::
        string fault + _, c1)"
    by (simp add: d)
  from draws_are_distinct [OF ex_pool_ok this] show ?thesis by auto
qed

text \<open>
  C18: The pool does not run dry: from a pool that is not empty, a draw with a number in its range
  succeeds and leaves at least 100 subaddresses, unless the minor indices are used up.
\<close>

theorem pool_does_not_run_dry:
  assumes "pool_ok addr c" and "sc_available c \<noteq> []"
    and "gen_range (length (sc_available c)) (sc_rng c) = (i, rng)" and "i < length (sc_available c)"
    and "unat (sc_highest_minor_index c) + 100 < 2 ^ 32"
  shows "\<exists>c'. draw gen_range addr c = (Inr (sc_available c ! i) :: 'e fault + _, c') \<and>
    100 \<le> length (sc_available c')"
proof -
  let ?rest = "take i (sc_available c) @ drop (Suc i) (sc_available c)"
  let ?c2 = "c\<lparr>sc_rng := rng, sc_available := ?rest\<rparr>"
  obtain x a where xa: "sc_available c ! i = (x, a)" by (cases "sc_available c ! i")
  have "im_shift_remove_index i (sc_available c) = Some ((x, a), ?rest)"
    using assms(4) by (simp add: im_shift_remove_index_def xa)
  from pool_ok_shift_remove(1) [OF assms(1) this]
  have "pool_ok addr (c\<lparr>sc_available := ?rest\<rparr>)" .
  then have ok: "pool_ok addr ?c2" by (simp add: pool_ok_def beyond_def)
  have "length (sc_available (snd (extend_by addr 100 ?c2))) = length ?rest + 100"
    unfolding extend_by_eq [OF ok] using assms(5) by (simp add: Let_def indices_def)
  moreover have "remove_random gen_range addr c = Some (Inr (sc_available c ! i) :: 'e fault + _,
      let c2 = ?c2 in if length (sc_available c) \<le> 101 then snd (extend_by addr 100 c2) else c2)"
    by (rule remove_random_in_range) (use assms in auto)
  ultimately show ?thesis using assms(4) by (auto simp: draw_def Let_def)
qed

theorem pool_does_not_run_dry_witness:
  "\<exists>c'. draw ex_gen_range ex_address (gw_subaddresses (ex_gateway [])) =
      (Inr (SubIndex 0 0, ex_address (SubIndex 0 0)) :: string fault + _, c') \<and>
    100 \<le> length (sc_available c')"
  using pool_does_not_run_dry [OF ex_pool_ok [of "[]"], of ex_gen_range 0 "()", where ?'e = string]
  by (simp add: ex_gateway_def ex_gen_range_def)

section \<open>The block cache and the txpool cache\<close>

text \<open>
  C3: With a daemon that serves one chain, an update of the block cache follows the chain when it is
  higher than the cache: it takes in the next block and repairs a reorganisation, however many of the
  cached blocks it replaced, so that the cache holds the top blocks of the chain up to that block;
  every block beyond the returned number was in the cache before. When the chain is not higher than
  the cache, also when it was reorganised or is lower, the update changes nothing but the height of the
  daemon, and returns 0: the reorganisation waits for the next block. The cached blocks have to be
  linked, and those the daemon still has to be its blocks.
\<close>

theorem block_cache_update_follows_chain:
  fixes R :: "('w, 'tx) rpc_ops"
  assumes "serves R W chain H" and "valid_chain chain H" and "0 < H" and "w \<in> W"
    and "bc_wf c" and "linked_from 0 (bc_blocks c)" and "list_all (honest chain H) (bc_blocks c)"
    and "bc_cache_size c \<le> Suc (unat (bc_height c))"
  shows "\<exists>n c' w'. block_cache_update R (c, w) = (Inr n :: 'e accept_xmr_error fault + nat, (c', w')) \<and>
    w' \<in> W \<and>
    (if bc_height c < H - 1
     then c' = c\<lparr>bc_daemon_height := H, bc_height := bc_height c + 1,
             bc_blocks := chain_top chain (bc_height c + 1) (bc_cache_size c)\<rparr> \<and>
       (\<forall>i. n \<le> i \<longrightarrow> i < bc_cache_size c \<longrightarrow> bc_blocks c' ! i \<in> set (bc_blocks c))
     else n = 0 \<and> c' = c\<lparr>bc_daemon_height := H\<rparr>)"
proof (cases "bc_height c < H - 1")
  case True
  then have above: "bc_height c + 1 < H" and "bc_height c < H" using assms(3) by uint_arith+
  then have "can_follow chain H c" using assms(5-8) above by (simp add: can_follow_def)
  from wp_total [OF wp_block_cache_update_chain [OF assms(1,2,4) this, where ?'e = 'e]] True above
  show ?thesis by (fastforce simp: next_height_def)
next
  case False
  obtain w' where w': "w' \<in> W" "rpc_daemon_height R w = (Inr H, w')"
    using assms(1,4) unfolding serves_def by blast
  have "bc_blocks c \<noteq> []" using assms(5) by (auto simp: bc_wf_def)
  from block_cache_update_no_new_block [OF w'(2) False assms(6) this, where ?'e = 'e] w'(1) False
  show ?thesis by simp
qed

theorem block_cache_update_follows_chain_witness:
  "\<exists>n c'. block_cache_update (ex_daemon 14) (sn_block_cache ex_scan, ()) =
      (Inr n :: string accept_xmr_error fault + nat, (c', ())) \<and>
    bc_blocks c' = chain_top ex_chain 12 2"
proof -
  have c: "bc_wf (sn_block_cache ex_scan)" "linked_from 0 (bc_blocks (sn_block_cache ex_scan))"
    "list_all (honest ex_chain 14) (bc_blocks (sn_block_cache ex_scan))"
    "bc_cache_size (sn_block_cache ex_scan) \<le> Suc (unat (bc_height (sn_block_cache ex_scan)))"
    using ex_can_follow by (simp_all add: can_follow_def)
  have "bc_cache_size (sn_block_cache ex_scan) = 2" by (simp add: ex_scan_def)
  with block_cache_update_follows_chain [OF ex_serves ex_valid _ UNIV_I c, where ?'e = string] show ?thesis
    by auto
qed

text \<open>
  C16: Whatever the daemon answers, an update of a well-formed block cache leaves it well-formed: it
  keeps its size, which is not zero, and the heights of its blocks run down from the cache height.
  The update returns at most as many updated blocks as there are, or fails as a request failed: its
  own steps never panic.
\<close>

theorem block_cache_update_any_daemon:
  fixes R :: "('w, 'tx) rpc_ops"
  assumes "bc_wf c" and "block_cache_update R (c, w) = (r :: 'e accept_xmr_error fault + nat, (c', w'))"
  shows "bc_wf c' \<and> bc_cache_size c' = bc_cache_size c \<and>
    (case r of Inr n \<Rightarrow> n \<le> bc_cache_size c | Inl e \<Rightarrow> \<exists>e'. e = rpc_fault e')"
proof -
  have "wp (block_cache_update R :: ('w, 'tx, 'e, nat) block_cache_act)
      (\<lambda>n (c', w'). bc_wf c' \<and> n \<le> bc_cache_size c' \<and> bc_cache_size c' = bc_cache_size c)
      (\<lambda>e (c', w'). bc_wf c' \<and> bc_cache_size c' = bc_cache_size c \<and> (\<exists>e'. e = rpc_fault e')) (c, w)"
    by (rule wp_block_cache_update_wf [OF assms(1)])
  then show ?thesis using assms(2) by (auto simp: wp_def split: sum.splits)
qed

theorem block_cache_update_any_daemon_witness:
  "bc_wf (fst (snd (block_cache_update (ex_daemon 2) (sn_block_cache ex_scan, ()) ::
     (string accept_xmr_error fault + nat) \<times> _)))"
proof -
  have "bc_wf (sn_block_cache ex_scan)" using ex_can_follow by (simp add: can_follow_def)
  from block_cache_update_any_daemon [OF this] show ?thesis by (metis prod.collapse)
qed

text \<open>
  C20: An update of the txpool cache against a daemon that returns what it is asked for leaves exactly
  the transactions of the daemon's pool in the cache, asks for the unknown ones only, returns them,
  and forgets the discovered transfers of transactions that left the pool.
\<close>

theorem txpool_cache_mirrors_pool:
  fixes R :: "('w, 'tx) rpc_ops"
  assumes "rpc_txpool_hashes R w = (Inr pool, w1)"
    and "rpc_transactions_by_hashes R (filter (\<lambda>h. h \<notin> cached_hashes c) pool) w1 = (Inr got, w2)"
    and "tx_hash ` set got = set pool - cached_hashes c"
  shows "\<exists>c'. txpool_cache_update R tx_hash (c, w) =
      (Inr got :: 'e accept_xmr_error fault + 'tx list, (c', w2)) \<and>
    cached_hashes c' = set pool \<and>
    tp_discovered c' = hm_retain (\<lambda>k. k \<in> set pool) (tp_discovered c)"
  by (rule cached_hashes_update [OF assms])

theorem txpool_cache_mirrors_pool_witness:
  "\<exists>c'. txpool_cache_update (ex_daemon 14) (mo_hash ex_monero)
      (\<lparr>tp_transactions = [(1, (1, []))], tp_discovered = [(1, [(ex_index, Transfer 5 None)])]\<rparr>, ()) =
      (Inr [] :: string accept_xmr_error fault + _, (c', ())) \<and>
    cached_hashes c' = {} \<and> tp_discovered c' = []"
  using txpool_cache_mirrors_pool [of "ex_daemon 14" "()" "[]" "()"
      "\<lparr>tp_transactions = [(1, (1, []))], tp_discovered = [(1, [(ex_index, Transfer 5 None)])]\<rparr>" "[]" "()"
      "mo_hash ex_monero", where ?'e = string]
  by (simp add: ex_daemon_def hm_retain_def)

section \<open>Invoices\<close>

text \<open>
  C26: The payment URI carries the address and the exact amount still due: read back as a decimal number
  of coins with twelve digits, the printed amount is the requested one less what was paid, or 0.
\<close>

theorem uri_states_amount_due:
  "\<exists>amount. uri i = ''monero:'' @ address i @ ''?tx_amount='' @ amount \<and>
     read_amount amount = unat (amount_requested i) - unat (amount_paid i)"
proof -
  let ?due = "saturating_sub (amount_requested i) (amount_paid i)"
  let ?f = "trim_start_matches ''0.'' (show_f64_fraction (unat (?due mod piconeros_per_xmr)))"
  have mod: "unat (?due mod piconeros_per_xmr) = unat ?due mod 10 ^ 12"
    and div: "unat (?due div piconeros_per_xmr) = unat ?due div 10 ^ 12"
    by (simp_all add: piconeros_per_xmr_def unat_mod_distrib unat_div_distrib)
  have "read_amount (show_nat (unat (?due div piconeros_per_xmr)) @ ''.'' @ ?f) =
      unat (?due div piconeros_per_xmr) * 10 ^ 12 + unat (?due mod piconeros_per_xmr)"
    by (rule read_amount_printed) (simp add: mod)
  also have "\<dots> = unat ?due" unfolding mod div by (rule div_mult_mod_eq)
  finally show ?thesis by (auto simp: uri_def Let_def)
qed

section \<open>The shops\<close>

text \<open>
  C27: After a checkout the customer's session shows the invoice: the pool having handed out a
  subaddress and the session having kept the id, \<open>checkout\<close> answers with success, the next \<open>update\<close> of
  that session answers with the new invoice, and its websocket is accepted, with nothing to show yet.
\<close>

theorem checkout_starts_session:
  fixes g :: "('tx, 'k, 'w, 'r) shop"
  assumes "session_laws K" and "gw_inv addr g"
    and "draw gen_range addr (gw_subaddresses g) =
      (Inr (x, a) :: in_memory_error accept_xmr_error fault + _, sc)"
    and "se_insert K ''id'' (InvoiceId x (gw_cached_daemon_height g)) c = Inr c'"
  shows "\<exists>g' ws g''. checkout K gen_range addr message (c, g) =
      (Inr (respond 200 None None :: 'f json response), (c', g')) \<and>
    shop_update K c' g' = respond 200 None (Some (invoice_json
      (invoice_new (addr x) x (gw_cached_daemon_height g) 1000000000 2 5 message) :: 'f json)) \<and>
    websocket K sid now c' g' = (Inr (Inr (web_socket_new now ws) :: 'f json response + _), g'') \<and> waiting ws g'' = []"
proof -
  from open_invoice_result [OF assms] obtain g' where g':
    "checkout K gen_range addr message (c, g) = (Inr (respond 200 None None :: 'f json response), (c', g'))"
    "session_invoice K c' g' = Some (invoice_new (addr x) x (gw_cached_daemon_height g) 1000000000 2 5 message)"
    "map_of (pb_invoice_subs (gw_publisher g')) (InvoiceId x (gw_cached_daemon_height g)) = Some []"
    unfolding checkout_def by blast
  have "se_get K ''id'' c' = Inr (Some (InvoiceId x (gw_cached_daemon_height g)))"
    using assms(1,4) by (simp add: session_laws_def)
  from websocket_accepted [OF this g'(3), of sid now] obtain ws g'' where
    "websocket K sid now c' g' = (Inr (Inr (web_socket_new now ws) :: 'f json response + _), g'')"
    "waiting ws g'' = []" by blast
  with g'(1,2) show ?thesis by (intro exI conjI) (simp_all add: shop_update_def)
qed

theorem checkout_starts_session_witness:
  "\<exists>g'. checkout ex_session ex_gen_range ex_address ''tea'' (None, ex_gateway []) =
      (Inr (respond 200 None None :: unit json response), (Some (InvoiceId (SubIndex 0 0) 0), g')) \<and>
    hr_status (shop_update ex_session (Some (InvoiceId (SubIndex 0 0) 0)) g' :: unit json response) = 200"
proof -
  have draw: "draw ex_gen_range ex_address (gw_subaddresses (ex_gateway [])) =
      (Inr (SubIndex 0 0, ex_address (SubIndex 0 0)) :: in_memory_error accept_xmr_error fault + _,
       snd (draw ex_gen_range ex_address (gw_subaddresses (ex_gateway [])) ::
         (in_memory_error accept_xmr_error fault + _) \<times> _))"
    using ex_draw by (metis prod.collapse prod.sel(1))
  have h: "gw_cached_daemon_height (ex_gateway []) = 0" by (simp add: ex_gateway_def)
  have ins: "se_insert ex_session ''id'' (InvoiceId (SubIndex 0 0) (gw_cached_daemon_height (ex_gateway []))) None =
      Inr (Some (InvoiceId (SubIndex 0 0) 0))"
    by (simp add: ex_session_def h)
  from checkout_starts_session [OF ex_session_laws ex_gateway_inv draw ins, of "''tea''" 1 0, where 'f = unit]
  show ?thesis by (elim exE conjE) (auto simp: respond_def)
qed

text \<open>
  C28: One round of the watching thread takes the oldest update off its subscriber and stops tracking
  the invoice if the update shows it expired, or confirmed at a height above its creation height, and
  only then. The customer still learns of it: the removal leaves what waits for every other subscriber as
  it was, so the next item of the stream of a websocket is its oldest waiting update, and its handler
  sends that update, and closes and stops the websocket if the invoice is confirmed or expired.
\<close>

theorem watcher_removes_finished_invoice:
  fixes g :: "('tx, 'k, 'w, 'r) shop"
  assumes "gw_inv addr g" and "waiting a g = i # us" and "a < length (pb_channels (gw_publisher g))"
    and "waiting b g = v # vs" and "b < length (pb_channels (gw_publisher g))" and "b \<noteq> a"
  shows "\<exists>g' p. watch_step ws_done a g = (Inr (), g') \<and> gw_inv addr g' \<and>
    map_of (gw_store g') =
      (if is_expired i \<or> is_confirmed i \<and> creation_height i < current_height i
       then (map_of (gw_store g))(invoice_id i := None) else map_of (gw_store g)) \<and>
    waiting a g' = us \<and>
    poll_next b (gw_publisher g') = (Ready (Some v), p) \<and> ch_queue (pb_channels p ! b) = vs \<and>
    wc_frames (handle_update show_json v ctx) = wc_frames ctx @ frames_of show_json v \<and>
    (wc_running (handle_update show_json v ctx) \<longleftrightarrow>
       wc_running ctx \<and> \<not> is_confirmed v \<and> \<not> is_expired v)"
proof -
  from watch_step_result [OF assms(1-3), of ws_done] obtain g' where g':
    "watch_step ws_done a g = (Inr (), g')" "gw_inv addr g'"
    "map_of (gw_store g') =
      (if ws_done i then (map_of (gw_store g))(invoice_id i := None) else map_of (gw_store g))"
    "waiting a g' = us" "waiting b g' = v # vs" "b < length (pb_channels (gw_publisher g'))"
    using assms(4-6) by metis
  from poll_next_waiting [OF g'(5,6)] obtain p where
    "poll_next b (gw_publisher g') = (Ready (Some v), p)" "ch_queue (pb_channels p ! b) = vs" by blast
  with g' show ?thesis
    by (intro exI [of _ g'] exI [of _ p]) (auto simp: ws_done_def handle_update_frames final_def)
qed

theorem watcher_removes_finished_invoice_witness:
  "\<exists>g' p. watch_step ws_done 1 ex_shop = (Inr (), g') \<and> map_of (gw_store g') = Map.empty \<and>
    poll_next 0 (gw_publisher g') = (Ready (Some ex_expired), p) \<and>
    wc_frames (handle_update (\<lambda>_ :: unit json. ''update'') ex_expired ex_context) =
      [Text_Frame ''update'', Close_Frame (Some ''Invoice Expired'')] \<and>
    \<not> wc_running (handle_update (\<lambda>_ :: unit json. ''update'') ex_expired ex_context)"
proof -
  have len: "1 < length (pb_channels (gw_publisher ex_shop))" "0 < length (pb_channels (gw_publisher ex_shop))"
    by (simp_all add: ex_shop_waiting)
  have store: "(map_of (gw_store ex_shop))(invoice_id ex_expired := None) = Map.empty"
    by (simp add: ex_shop_def ex_gateway_def ex_store_def ex_expired_def ex_apart_def invoice_new_def
        invoice_id_def)
  have ctx: "wc_frames ex_context = []" by (simp add: ex_context_def)
  have expired: "is_expired ex_expired" using ex_expired_done by (simp add: final_def)
  from watcher_removes_finished_invoice [OF ex_shop_inv ex_shop_waiting(2) len(1) ex_shop_waiting(1) len(2) zero_neq_one,
      of "\<lambda>_ :: unit json. ''update''" ex_context]
  show ?thesis
    by (elim exE conjE) (simp add: expired ex_expired_done store frames_of_def ctx)
qed

section \<open>The daemon behind HTTP\<close>

text \<open>
  C29: The client serves the caches the chain of an honest daemon: when the daemon answers the
  JSON requests of the client out of one chain of height \<open>H\<close>, giving at most 100 transactions at a
  time, \<open>RpcClient\<close> returns that height, each of its blocks, and for each block all of its transactions
  in their order.
\<close>

theorem honest_daemon_is_served:
  fixes D :: "('w, 'b, 'j, 'tx) daemon_ops" and A :: "'r auth_ops"
  assumes "honest_daemon D A S chain H body"
  shows "serves (client_ops D A) S chain H"
  by (rule honest_daemon_serves [OF assms])

theorem honest_daemon_is_served_witness:
  "serves (client_ops (ex_http False ex_hash) ex_auth) ex_states ex_one_block 1"
  by (rule honest_daemon_is_served [OF ex_honest])

text \<open>
  C30: Transactions are asked for in batches of at most 100, in the order of the hashes, and whatever
  list of transactions the daemon returns for each batch, the client returns these lists one after
  the other: with no request at all for no hashes, and without an error for missing transactions.
\<close>

theorem transactions_come_in_batches:
  fixes D :: "('w, 'b, 'j, 'tx) daemon_ops" and A :: "'r auth_ops"
  assumes "\<And>b. b \<in> set (batches hashes) \<Longrightarrow>
      replies D A S (transactions_request D b) ''get_transactions'' (reads_transactions D (found b))"
    and "s \<in> S"
  shows "concat (batches hashes) = hashes \<and> (\<forall>b \<in> set (batches hashes). 0 < length b \<and> length b \<le> 100) \<and>
    (\<exists>s' \<in> S. client_transactions_by_hashes D A hashes s =
       (Inr (concat (map found (batches hashes))), s'))"
proof (intro conjI)
  show "concat (batches hashes) = hashes" using concat_batches [of id hashes] by simp
  show "\<forall>b \<in> set (batches hashes). 0 < length b \<and> length b \<le> 100"
    using batches_small [of _ hashes] by auto
  show "\<exists>s' \<in> S. client_transactions_by_hashes D A hashes s =
      (Inr (concat (map found (batches hashes))), s')"
    by (rule transactions_by_hashes_batches [OF assms])
qed

theorem transactions_come_in_batches_witness:
  "\<exists>s' \<in> ex_states. client_transactions_by_hashes (ex_http False ex_hash) ex_auth [1, 2] (ex_client None, 0) =
    (Inr [(1, []), (1, [])], s')"
proof -
  have batches: "batches [1, 2] = [[1, 2]]" by (simp add: batches.simps max_requested_transactions_def)
  have "reads_transactions (ex_http False ex_hash) (map (\<lambda>_. (1, [])) b)
      (ex_answer ex_hash (transactions_request (ex_http False ex_hash) b))" for b
    unfolding reads_transactions_def ex_answer_def count_hashes
    by (simp add: ex_http_def list_all2_conv_all_nth reads_transaction_def)
  then have replies: "replies (ex_http False ex_hash) ex_auth ex_states
      (transactions_request (ex_http False ex_hash) b) ''get_transactions''
      (reads_transactions (ex_http False ex_hash) (map (\<lambda>_. (1, [])) b))" for b
    by (rule ex_replies)
  have "(ex_client None, 0) \<in> ex_states" by (simp add: ex_states_def ex_client_def)
  from transactions_come_in_batches [OF replies this, of "[1, 2]"] batches show ?thesis by simp
qed

text \<open>
  C32: A request is sent at most twice: when \<open>I i w\<close> says that the world \<open>w\<close> has seen \<open>i\<close> requests, each
  \<open>RpcClient\<close> request ends with at most two more, and never in a panic, whatever the daemon answers.
\<close>

theorem request_sent_at_most_twice:
  fixes D :: "('w, 'b, 'j, 'tx) daemon_ops" and A :: "'r auth_ops"
  assumes "counts D I" and "I i w" and "request D A body endpoint (c, w) = (r, (c', w'))"
  shows "r \<noteq> Inl Crashed \<and> (\<exists>j \<le> i + 2. I j w')"
  using wp_request_counts [OF assms(1,2), of A body endpoint c] assms(3)
  by (auto simp: wp_def split: sum.splits)

theorem request_sent_at_most_twice_witness:
  "snd (snd (request (ex_http True ex_hash) ex_auth [] '''' (ex_client (Some ex_user), 0))) \<le> 2"
proof -
  have "counts (ex_http True ex_hash) (\<lambda>i w. w \<le> i)"
    by (simp add: counts_def ex_http_def wp_def)
  from request_sent_at_most_twice [OF this, of 0 0 ex_auth "[]" "[]" "ex_client (Some ex_user)"]
  show ?thesis
    by (cases "request (ex_http True ex_hash) ex_auth [] [] (ex_client (Some ex_user), 0)")
      (force simp: prod_eq_iff)
qed

text \<open>
  C31: Logging in: a daemon that answers every request without a valid \<open>Authorization\<close> header with a
  digest challenge, and accepts a client nonce printed in hex, as the client's are, is served by a client
  that has the credentials, both on its first request, which reads the challenge out of the 401
  response, and on every later one, which reuses it.
\<close>

theorem client_logs_in:
  fixes D :: "('w, 'b, 'j, 'tx) daemon_ops" and A :: "'r auth_ops"
  assumes "sorts A" and "plain_params p"
    and "wants_login D A W username password p timeout (url @ endpoint) path body j"
    and "(c, w) \<in> logged_in_or_new W username password p timeout url"
  shows "\<exists>s' \<in> logged_in_or_new W username password p timeout url.
    request D A body endpoint (c, w) = (Inr j, s')"
  using login_replies [OF assms(1-3)] assms(4) unfolding replies_def by blast

theorem client_logs_in_witness:
  "\<exists>s'. request (ex_http True ex_hash) ex_auth ''{}'' ''json_rpc'' (ex_client (Some ex_user), 0) =
    (Inr (ex_answer ex_hash ''{}''), s')"
proof -
  have "(ex_client (Some ex_user), 0 :: nat) \<in>
      logged_in_or_new UNIV ''user'' ''password'' ex_challenge 10 ''http://localhost/''"
    by (simp add: logged_in_or_new_def ex_client_def ex_user_def auth_info_new_def)
  from client_logs_in [OF ex_sorts ex_plain ex_wants_login this] show ?thesis by blast
qed

text \<open>
  C33: \<open>block\<close> panics exactly when the daemon answers the request with a hash that decodes from hex but
  is refused by \<open>Hash::from_slice\<close>, not being 32 bytes long; and when it panics on the request for the next
  block, the scanning thread ends with that panic.
\<close>

theorem short_block_hash_panics:
  fixes D :: "('w, 'b, 'j, 'tx) daemon_ops" and A :: "'q auth_ops"
    and g :: "('tx, 'k, in_memory, 'q rpc_client \<times> 'w, 'r, in_memory_error) gateway"
  assumes "gw_handle g = Some Running" and "gw_scanner g = Some sr" and "gw_commands g = []"
    and "gw_store g \<noteq> []"
    and "client_daemon_height D A (gw_world g) = (Inr H, s1)" and "bc_height (sr_block_cache sr) < H - 1"
  shows "(client_block D A x s = (Inl Crashed, s') \<longleftrightarrow>
     (\<exists>j h bs. request D A (block_request x) ''json_rpc'' s = (Inr j, s') \<and>
        dn_as_str D (dn_get D (dn_get D (dn_get D j ''result'') ''block_header'') ''hash'') = Some h \<and>
        dn_hex_decode D h = Inr bs \<and> dn_hash_from_slice D bs = None)) \<and>
   (client_block D A (bc_height (sr_block_cache sr) + 1) s1 = (Inl Crashed, s2) \<longrightarrow>
      gw_handle (thread_step (client_ops D A) in_memory M C g) = Some Panicked)"
proof (intro conjI impI)
  show "client_block D A x s = (Inl Crashed, s') \<longleftrightarrow>
     (\<exists>j h bs. request D A (block_request x) ''json_rpc'' s = (Inr j, s') \<and>
        dn_as_str D (dn_get D (dn_get D (dn_get D j ''result'') ''block_header'') ''hash'') = Some h \<and>
        dn_hex_decode D h = Inr bs \<and> dn_hash_from_slice D bs = None)"
    unfolding client_block_Crashed_iff short_hash_def ..
next
  assume "client_block D A (bc_height (sr_block_cache sr) + 1) s1 = (Inl Crashed, s2)"
  with assms(5) show "gw_handle (thread_step (client_ops D A) in_memory M C g) = Some Panicked"
    by (intro client_panic_ends_thread [OF assms(1-4) _ assms(6)]) (simp_all add: client_ops_def)
qed

theorem short_block_hash_panics_witness:
  "gw_handle (thread_step (client_ops ex_short_http ex_auth) in_memory ex_monero ex_checker ex_http_gateway) =
     Some Panicked"
proof -
  have g: "gw_handle ex_http_gateway = Some Running" "gw_commands ex_http_gateway = []"
    "gw_store ex_http_gateway \<noteq> []" "gw_world ex_http_gateway = (ex_client None, 0)"
    "gw_scanner ex_http_gateway = Some \<lparr>sr_block_cache = sn_block_cache ex_scan,
       sr_txpool_cache = sn_txpool_cache ex_scan, sr_first_scan = False, sr_checker = ()\<rparr>"
    by (simp_all add: ex_http_gateway_def ex_store_def)
  note crash = short_block_hash_panics [OF g(1,5,2,3), unfolded g(4), OF ex_short_height,
      where M = ex_monero and C = ex_checker and x = 12 and s = "(ex_client None, 1)" and ?s2.0 = "(ex_client None, 2)"
      and s' = "(ex_client None, 2)"]
  have "\<exists>j h bs. request ex_short_http ex_auth (block_request 12) ''json_rpc'' (ex_client None, 1) =
        (Inr j, (ex_client None, 2)) \<and>
      dn_as_str ex_short_http (dn_get ex_short_http (dn_get ex_short_http (dn_get ex_short_http j ''result'')
        ''block_header'') ''hash'') = Some h \<and>
      dn_hex_decode ex_short_http h = Inr bs \<and> dn_hash_from_slice ex_short_http bs = None"
    by (simp add: ex_short_request ex_client_def)
      (simp add: ex_short_http_def ex_http_def ex_answer_def string_bytes_def)
  with crash show ?thesis by simp
qed

section \<open>Digest authentication\<close>

text \<open>
  C34: A printed challenge is read back: for values without quotes that do not contain the name of
  their own field and an equals sign, \<open>parse_header\<close> returns the realm, nonce, opaque value and
  algorithm the daemon printed.
\<close>

theorem challenge_read_back:
  assumes "plain_params p"
  shows "parse_header (challenge stale p) = Inr p"
  by (rule parse_challenge [OF assms])

theorem challenge_read_back_witness:
  "parse_header (challenge False ex_challenge) = Inr ex_challenge"
  by (rule challenge_read_back [OF ex_plain])

text \<open>
  C35: The best challenge is answered: of a response whose digest challenges can all be read, the one
  that is remembered and answered has no better one beside it, and it is answered with the counter
  1. When there is no digest challenge, or one of them cannot be read, nothing is answered and nothing
  is remembered, even if the others can be read.
\<close>

theorem best_challenge_answered:
  fixes A :: "'r auth_ops"
  assumes "sorts A" and "headers = map Some vs"
  shows "case collect_results (map parse_header (digest_headers vs)) of
      Inl e \<Rightarrow> authenticate_with_resp A headers path verb s = (Inl e, s)
    | Inr ps \<Rightarrow>
        if ps = [] then authenticate_with_resp A headers path verb s = (Inl Unsupported, s)
        else \<exists>p \<in> set ps. (\<forall>q \<in> set ps. auth_params_cmp q p \<noteq> Greater) \<and>
          (\<exists>cnonce r t. authenticate_with_resp A headers path verb s = (r, t) \<and>
             ai_last t = Some p \<and> ai_counter t = 2 \<and>
             r = (case ao_header_value A (authorization A (ai_username s) (ai_password s) p QopAuth
                      path verb ''00000001'' cnonce) of
                    Inl e \<Rightarrow> Inl (HeaderConstruction e) | Inr v \<Rightarrow> Inr v))"
proof (cases "collect_results (map parse_header (digest_headers vs))")
  case (Inl e)
  with authenticate_with_resp_refused [OF assms(2) this _ assms(1)] show ?thesis by simp
next
  case (Inr ps)
  show ?thesis
  proof (cases "ps = []")
    case True
    with authenticate_with_resp_refused [OF assms(2) Inr _ assms(1)] Inr show ?thesis by simp
  next
    case False
    from authenticate_with_resp_best [OF assms Inr False] False Inr show ?thesis by simp
  qed
qed

theorem best_challenge_answered_witness:
  "authenticate_with_resp ex_auth [Some ex_sha, Some (''Digest '' @ challenge False ex_challenge)] ''/json_rpc'' ''POST'' ex_user =
    (Inl (InvalidHeader ''unknown algorithm: SHA-256''), ex_user)"
proof -
  have "collect_results (map parse_header (digest_headers [ex_sha, ''Digest '' @ challenge False ex_challenge])) =
      Inl (InvalidHeader ''unknown algorithm: SHA-256'')"
    by code_simp
  with best_challenge_answered [OF ex_sorts refl, of "[ex_sha, ''Digest '' @ challenge False ex_challenge]" "''/json_rpc''" "''POST''" ex_user]
  show ?thesis by simp
qed

text \<open>
  C36: A challenge that is used again is answered with counters that go up by one: the answers to any
  number of requests, failed ones included, differ in their \<open>nc\<close> field as long as there are at most
  \<open>2 ^ 32\<close> of them, and the challenge stays the remembered one.
\<close>

theorem reused_challenge_counts_up:
  fixes A :: "'r auth_ops"
  assumes "ai_last s = Some p" and "ap_qop p \<noteq> []" and "answers A reqs s = (rs, t)"
    and "length reqs \<le> 2 ^ 32"
  shows "\<exists>cnonces. length cnonces = length reqs \<and>
    rs = map (\<lambda>i. answer A s p (reqs ! i) (ai_counter s + of_nat i) (cnonces ! i)) [0..<length reqs] \<and>
    distinct (map (\<lambda>i. show_counter (ai_counter s + of_nat i)) [0..<length reqs]) \<and>
    ai_counter t = ai_counter s + of_nat (length reqs) \<and> ai_last t = Some p"
  using answers_count_up [OF assms(1-3)] distinct_counters [OF assms(4)] by blast

theorem reused_challenge_counts_up_witness:
  "ai_counter (snd (answers ex_auth [(''/json_rpc'', ''POST''), (''/json_rpc'', ''POST'')]
     (ex_user\<lparr>ai_last := Some ex_challenge, ai_counter := 255\<rparr>))) = 257"
proof -
  let ?s = "ex_user\<lparr>ai_last := Some ex_challenge, ai_counter := 255\<rparr>"
  let ?reqs = "[(''/json_rpc'', ''POST''), (''/json_rpc'', ''POST'')]"
  have "ai_last ?s = Some ex_challenge" "ap_qop ex_challenge \<noteq> []" "length ?reqs \<le> 2 ^ 32"
    by (simp_all add: ex_challenge_def)
  moreover obtain rs t where "answers ex_auth ?reqs ?s = (rs, t)" by fastforce
  ultimately show ?thesis using reused_challenge_counts_up [of ?s ex_challenge ex_auth ?reqs rs t] by auto
qed

section \<open>Stores\<close>

text \<open>
  C10: The in-memory store behind its lock refines a finite map: while nobody holds the lock, every
  sequence of inserts, removals and updates gets the answers of the map, and ends in a well-formed
  store that represents the resulting map, with the lock free again.
\<close>

theorem in_memory_refines_map:
  assumes "in_memory_ok (lk_store l)" and "unlocked l"
  shows "\<exists>s. calls (call_locked in_memory) cs l =
      (fst (calls call_map cs (map_of (lk_store l))), l\<lparr>lk_store := s\<rparr>) \<and>
    in_memory_ok s \<and> map_of s = snd (calls call_map cs (map_of (lk_store l)))"
  by (rule mem.calls_locked_refine [OF assms])

theorem in_memory_refines_map_witness:
  "fst (calls (call_locked in_memory) [CallInsert ex_paid, CallInsert ex_invoice, CallRemove (InvoiceId ex_index 12)]
     (store_new in_memory_new)) = [Inr None, Inl (), Inr (Some ex_paid)]"
proof -
  have "in_memory_ok (lk_store (store_new in_memory_new))"
    by (simp add: in_memory_ok_def bt_wf_def in_memory_new_def)
  from in_memory_refines_map [OF this unlocked_simps(1),
      of "[CallInsert ex_paid, CallInsert ex_invoice, CallRemove (InvoiceId ex_index 12)]"]
  show ?thesis by (auto simp: in_memory_new_def ex_paid_def ex_invoice_def invoice_id_def invoice_new_def)
qed

section \<open>Stores on disk\<close>

text \<open>
  C37: The Sled store refines the finite map as well, on a tree and an encoder with their documented
  laws: every sequence of inserts, removals and updates gets the answers of the map, and it finds a
  subaddress exactly when an invoice with that subaddress is stored.
\<close>

theorem sled_refines_map:
  fixes T :: "('t, 'b) tree_ops"
  assumes "tree_laws T ok content" and "codec_laws B" and "sled_ok B ok content t"
  shows "\<exists>t'. calls (call_store (sled T B)) cs t = (fst (calls call_map cs (sled_lookup B content t)), t') \<and>
    sled_ok B ok content t' \<and> sled_lookup B content t' = snd (calls call_map cs (sled_lookup B content t)) \<and>
    (\<forall>x. st_contains_sub_index (sled T B) x t' = Inr (\<exists>k. sled_lookup B content t' k \<noteq> None \<and> sub_index k = x))"
proof -
  obtain t' where t': "calls (call_store (sled T B)) cs t = (fst (calls call_map cs (sled_lookup B content t)), t')"
    "sled_ok B ok content t'" "sled_lookup B content t' = snd (calls call_map cs (sled_lookup B content t))"
    using invoice_storage.calls_refine [OF sled_meets_contract [OF assms(1,2)] assms(3)] by blast
  have "st_contains_sub_index (sled T B) x t' = Inr (\<exists>k. sled_lookup B content t' k \<noteq> None \<and> sub_index k = x)" for x
    using sled_contains_exact [OF assms(1,2) t'(2)] by (simp add: sled_def)
  with t' show ?thesis by blast
qed

theorem sled_refines_map_witness:
  "fst (calls (call_store (sled ex_tree ex_codec)) [CallInsert ex_paid, CallInsert ex_invoice, CallRemove (InvoiceId ex_index 12)] []) =
    [Inr None, Inl (), Inr (Some ex_paid)]"
proof -
  from sled_refines_map [OF ex_tree_laws ex_codec_laws ex_sled_empty(1),
      of "[CallInsert ex_paid, CallInsert ex_invoice, CallRemove (InvoiceId ex_index 12)]"]
  show ?thesis
    by (auto simp: ex_sled_empty(2) ex_paid_def ex_invoice_def invoice_id_def invoice_new_def)
qed

text \<open>
  C38: The SQLite store follows the map outside of a transaction, on a database and an encoder with
  their documented laws: \<open>get\<close> reads it, \<open>insert\<close> adds a new id and refuses one that is there,
  \<open>remove\<close> returns and drops an invoice, and \<open>update\<close> returns the old invoice and replaces it. No
  transaction is left open, except by an update of an invoice that is not stored.
\<close>

theorem sqlite_follows_map:
  fixes Q :: "('d, 'q, 'b) sqlite_ops"
  assumes "sqlite_laws Q table ok content tx" and "codec_laws B" and "sqlite_ok B ok content d" and "\<not> tx d"
  shows "let L = sqlite_lookup B content d; k = invoice_id i in
    sqlite_get Q B table k d = (Inr (L k), d) \<and>
    (\<exists>d1. sqlite_insert Q B table i d = (if L k = None then Inr () else Inl (Raise SqliteDuplicateEntry), d1) \<and>
       sqlite_lookup B content d1 = (if L k = None then L(k \<mapsto> i) else L) \<and> sqlite_ok B ok content d1 \<and> \<not> tx d1) \<and>
    (\<exists>d2. sqlite_remove Q B table k d = (Inr (L k), d2) \<and>
       sqlite_lookup B content d2 = L(k := None) \<and> sqlite_ok B ok content d2 \<and> \<not> tx d2) \<and>
    (\<exists>d3. sqlite_update Q B table i d = (Inr (L k), d3) \<and>
       sqlite_lookup B content d3 = (if L k = None then L else L(k \<mapsto> i)) \<and> sqlite_ok B ok content d3 \<and>
       tx d3 = (L k = None))"
  unfolding Let_def
  using sqlite_get_result [OF assms(1-3)] sqlite_insert_result [OF assms(1-3), of i]
    sqlite_remove_result [OF assms(1-3), of "invoice_id i"] sqlite_update_result [OF assms, of i] assms(4)
  by (auto split: if_splits)

theorem sqlite_follows_map_witness:
  "\<exists>d1. sqlite_insert (ex_sqlite ''invoices'') ex_codec ''invoices'' ex_paid ([], False, 0) = (Inr (), d1) \<and>
    sqlite_lookup ex_codec ex_content d1 = [invoice_id ex_paid \<mapsto> ex_paid]"
  using sqlite_follows_map [OF ex_sqlite_laws ex_codec_laws ex_sqlite_empty(1,2), of ex_paid "''invoices''"]
  unfolding Let_def ex_sqlite_empty(3) by auto

text \<open>
  C39: An invoice survives a power failure: the program of the persistence example, on a database and an
  encoder with their documented laws whose files keep what was committed, creates an invoice with a
  subaddress no stored invoice has, and the gateway built again on the files finds it unchanged, beside all
  that were stored before, and does not hand out its subaddress again. There has to be an unused
  subaddress among the first hundred.
\<close>

theorem invoice_survives_power_failure:
  fixes P :: "('v, 'p, 'r) build_ops" and Q :: "('d, 'q, 'b) sqlite_ops" and w :: 'w
  assumes "sqlite_laws Q table ok content tx" and "rows_law Q table ok content" and "codec_laws B"
    and "reopens Q ''examples/persistence/AcceptXMR_DB'' table ok content tx disk"
    and "sqlite_new Q ''examples/persistence/AcceptXMR_DB'' ''invoices'' = Inr (d, table)"
    and "sqlite_ok B ok content d" and "\<not> tx d"
    and "bo_uri P persistence_url = Inr url" and "bo_private_key P private_view_key = Inr view"
    and "bo_spend_key P primary_address = Inr spend"
    and "\<forall>n > 0. \<forall>r. fst (gen_range n r) < n"
    and "m \<le> 99" and "\<And>k. sub_index k = SubIndex 0 m \<Longrightarrow> sqlite_lookup B content d k = None"
  shows "\<exists>x i (g :: ('tx, 'k, 'd, 'w, 'r, sqlite_error fault) gateway).
    i = invoice_new (bo_subaddress P (view, spend) x) x 0 1000 2 5 ''Demo invoice'' \<and>
    persistence_demo P Q B disk private_view_key primary_address gen_range w = Inr (i, i, g) \<and>
    (\<forall>k. sqlite_lookup B content d k \<noteq> None \<longrightarrow> sub_index k \<noteq> x) \<and>
    sqlite_lookup B content (gw_store g) = (sqlite_lookup B content d)(invoice_id i \<mapsto> i) \<and>
    x \<notin> may_draw (gw_subaddresses g)"
  using assms(11) by (intro persistence_demo_result [OF assms(1-10) _ assms(12,13)]) blast

theorem invoice_survives_power_failure_witness:
  "\<exists>x i (g :: (example_tx, unit, ex_db, unit, unit, sqlite_error fault) gateway).
    i = invoice_new (ex_address x) x 0 1000 2 5 ''Demo invoice'' \<and>
    persistence_demo ex_build (ex_sqlite (table_name ''invoices'')) ex_codec ex_disk ''key'' ''address''
      ex_gen_range () = Inr (i, i, g) \<and>
    sqlite_lookup ex_codec ex_content (gw_store g) = [invoice_id i \<mapsto> i]"
proof -
  have range: "\<forall>n > 0. \<forall>r. fst (ex_gen_range n r) < n" by (simp add: ex_gen_range_def)
  have empty: "sqlite_lookup ex_codec ex_content ([], False, 0) k = None" for k by (simp add: ex_sqlite_empty(3))
  have zero: "(0 :: u32) \<le> 99" by simp
  obtain x i and g :: "(example_tx, unit, ex_db, unit, unit, sqlite_error fault) gateway" where
    "i = invoice_new (ex_address x) x 0 1000 2 5 ''Demo invoice''"
    "persistence_demo ex_build (ex_sqlite (table_name ''invoices'')) ex_codec ex_disk ''key'' ''address''
      ex_gen_range () = Inr (i, i, g)"
    "sqlite_lookup ex_codec ex_content (gw_store g) = [invoice_id i \<mapsto> i]"
    using invoice_survives_power_failure [where gen_range = ex_gen_range and private_view_key = "''key''"
        and primary_address = "''address''" and w = "()" and ?'tx = example_tx and ?'k = unit,
        OF ex_sqlite_laws ex_rows_law ex_codec_laws ex_reopens ex_sqlite_new ex_sqlite_empty(1,2)
        ex_build_sel(1,2,3) range zero empty]
    unfolding ex_build_sel(4) ex_sqlite_empty(3) by (elim exE conjE)
  then show ?thesis by blast
qed

text \<open>
  C40: An update of an invoice that is not stored, as after its removal by another thread, breaks the
  SQLite store: it returns \<open>None\<close> with its transaction still open, and from then on every update fails,
  also of the invoices that are stored.
\<close>

theorem sqlite_update_missing_blocks_updates:
  fixes Q :: "('d, 'q, 'b) sqlite_ops"
  assumes "sqlite_laws Q table ok content tx" and "codec_laws B" and "sqlite_ok B ok content d" and "\<not> tx d"
    and "sqlite_lookup B content d (invoice_id i) = None"
  shows "\<exists>d'. sqlite_update Q B table i d = (Inr None, d') \<and>
    (\<forall>j. \<exists>e. sqlite_update Q B table j d' = (Inl (Raise (SqliteDatabase e)), d'))"
proof -
  obtain d' where d': "sqlite_update Q B table i d = (Inr None, d')" "sqlite_ok B ok content d'" "tx d'"
    using sqlite_update_result [OF assms(1-4), of i] assms(5) by auto
  with sqlite_update_in_transaction [OF assms(1,2) sqlite_okD [OF d'(2)] d'(3)] show ?thesis by blast
qed

theorem sqlite_update_missing_blocks_updates_witness:
  "\<exists>d' e. sqlite_update (ex_sqlite ''invoices'') ex_codec ''invoices'' ex_paid ([], False, 0) = (Inr None, d') \<and>
    sqlite_update (ex_sqlite ''invoices'') ex_codec ''invoices'' ex_invoice d' = (Inl (Raise (SqliteDatabase e)), d')"
  using sqlite_update_missing_blocks_updates [OF ex_sqlite_laws ex_codec_laws ex_sqlite_empty(1,2), of ex_paid "''invoices''"]
  by (auto simp: ex_sqlite_empty(3))

end
